(* ===== verification/Ocp_Prelude.thy ===== *)
theory Ocp_Prelude
  imports Main "HOL-Library.Word"
begin

text \<open>
  Shared vocabulary of the development: the machine integers of the port
  (\<^verbatim>\<open>contrib/ports/unix/include/arch/cc.h\<close>), lwIP's error codes
  (\<^verbatim>\<open>lwip/src/include/lwip/err.h\<close>), the ways a C computation can end early,
  the little-endian memory image of integers, and C strings.

  A C string is the list of its bytes without the terminating NUL; \<open>cur\<close> reads the byte a
  \<^verbatim>\<open>char *\<close> points at, which is 0 at the end of the list.
\<close>

unbundle bit_operations_syntax

type_synonym u8 = "8 word"
type_synonym u16 = "16 word"
type_synonym u32 = "32 word"
type_synonym bytes = "u8 list"
type_synonym cstr = "u8 list"

named_theorems ocp_defs \<open>definitions unfolded to run a concrete input\<close>

subsection \<open>Ways a computation ends\<close>

text \<open>
  \<open>Die\<close> is \<^verbatim>\<open>exit(1)\<close> after a message, \<open>Assert\<close> a failed \<^verbatim>\<open>LWIP_ASSERT\<close> or
  \<^verbatim>\<open>LWIP_ERROR\<close> (both call \<^verbatim>\<open>abort()\<close> on this port), \<open>Fault\<close> a read or write through a
  dangling, null or out-of-range pointer, which C leaves undefined.
\<close>

datatype stop = Die | Assert | Fault

datatype 'a res = Ok 'a | Stop stop

primrec res_bind :: "'a res \<Rightarrow> ('a \<Rightarrow> 'b res) \<Rightarrow> 'b res" where
  "res_bind (Ok x) f = f x"
| "res_bind (Stop e) f = Stop e"

primrec res_ok :: "'a res \<Rightarrow> bool" where
  "res_ok (Ok x) = True"
| "res_ok (Stop e) = False"

text \<open>\<open>res_all P r\<close>: if the computation returns, its result satisfies \<open>P\<close>.\<close>

primrec res_all :: "('a \<Rightarrow> bool) \<Rightarrow> 'a res \<Rightarrow> bool" where
  "res_all P (Ok x) = P x"
| "res_all P (Stop e) = True"

lemma res_bind_Ok_iff [simp]: "res_bind m f = Ok y \<longleftrightarrow> (\<exists>x. m = Ok x \<and> f x = Ok y)"
  by (cases m) auto

lemma res_bind_Ok_right [simp]: "res_bind m Ok = m"
  by (cases m) auto

lemma res_all_bind [simp]: "res_all P (res_bind m f) \<longleftrightarrow> res_all (\<lambda>x. res_all P (f x)) m"
  by (cases m) auto

lemma res_all_mono: "res_all P r \<Longrightarrow> (\<And>x. P x \<Longrightarrow> Q x) \<Longrightarrow> res_all Q r"
  by (cases r) auto

lemma res_allI: "(\<And>x. r = Ok x \<Longrightarrow> P x) \<Longrightarrow> res_all P r"
  by (cases r) auto

lemma res_all_True [simp]: "res_all (\<lambda>x. True) r"
  by (cases r) auto

lemma res_all_Ok: "res_all P r \<Longrightarrow> r = Ok x \<Longrightarrow> P x"
  by auto

lemma res_all_iff: "res_all P r \<longleftrightarrow> (\<forall>x. r = Ok x \<longrightarrow> P x)"
  by (cases r) auto

lemma res_bind_assoc: "res_bind (res_bind m f) g = res_bind m (\<lambda>x. res_bind (f x) g)"
  by (cases m) auto

text \<open>\<open>res_safe P r\<close>: no assertion fails and no invalid memory access happens; if it returns, \<open>P\<close>.\<close>

primrec res_safe :: "('a \<Rightarrow> bool) \<Rightarrow> 'a res \<Rightarrow> bool" where
  "res_safe P (Ok x) = P x"
| "res_safe P (Stop e) \<longleftrightarrow> e = Die"

lemma res_safe_bind [simp]: "res_safe P (res_bind m f) \<longleftrightarrow> res_safe (\<lambda>x. res_safe P (f x)) m"
  by (cases m) auto

lemma res_safe_mono: "res_safe P r \<Longrightarrow> (\<And>x. P x \<Longrightarrow> Q x) \<Longrightarrow> res_safe Q r"
  by (cases r) auto

lemma res_safe_all: "res_safe P r \<Longrightarrow> res_all P r"
  by (cases r) auto

lemma res_bind_cong [fundef_cong]:
  "m = m' \<Longrightarrow> (\<And>x. m' = Ok x \<Longrightarrow> f x = f' x) \<Longrightarrow> res_bind m f = res_bind m' f'"
  by (cases m') auto

text \<open>A \<^verbatim>\<open>for\<close> loop over a list of values that threads a state.\<close>

fun res_fold :: "('x \<Rightarrow> 's \<Rightarrow> 's res) \<Rightarrow> 'x list \<Rightarrow> 's \<Rightarrow> 's res" where
  "res_fold f [] s = Ok s"
| "res_fold f (x # xs) s = res_bind (f x s) (res_fold f xs)"

lemma res_fold_append: "res_fold f (xs @ ys) s = res_bind (res_fold f xs s) (res_fold f ys)"
proof (induction xs arbitrary: s)
  case Nil
  then show ?case by simp
next
  case (Cons x xs)
  then show ?case by (cases "f x s") simp_all
qed

lemma res_fold_inv:
  "P s \<Longrightarrow> (\<And>x s. x \<in> set xs \<Longrightarrow> P s \<Longrightarrow> res_all P (f x s)) \<Longrightarrow> res_all P (res_fold f xs s)"
proof (induction xs arbitrary: s)
  case Nil
  then show ?case by simp
next
  case (Cons x xs)
  have "res_all P (f x s)" using Cons.prems by simp
  moreover have "res_all P (res_fold f xs s')" if "P s'" for s'
    using Cons.IH [OF that] Cons.prems(2) by simp
  ultimately show ?case by (auto simp: res_all_iff)
qed

lemma res_fold_safe:
  "P s \<Longrightarrow> (\<And>x s. x \<in> set xs \<Longrightarrow> P s \<Longrightarrow> res_safe P (f x s)) \<Longrightarrow> res_safe P (res_fold f xs s)"
proof (induction xs arbitrary: s)
  case Nil
  then show ?case by simp
next
  case (Cons x xs)
  have "res_safe P (f x s)" using Cons.prems by simp
  moreover have "res_safe P (res_fold f xs s')" if "P s'" for s'
    using Cons.IH [OF that] Cons.prems(2) by simp
  ultimately show ?case by (auto intro: res_safe_mono)
qed

lemma res_fold_ok:
  assumes "P s" and "\<And>x s. x \<in> set xs \<Longrightarrow> P s \<Longrightarrow> \<exists>s'. f x s = Ok s' \<and> P s'"
  shows "\<exists>s'. res_fold f xs s = Ok s' \<and> P s'"
  using assms
proof (induction xs arbitrary: s)
  case Nil
  then show ?case by simp
next
  case (Cons x xs)
  obtain s1 where "f x s = Ok s1" "P s1" using Cons.prems(1,2) by (meson list.set_intros(1))
  moreover have "\<exists>s'. res_fold f xs s1 = Ok s' \<and> P s'"
    using Cons.IH [OF \<open>P s1\<close>] Cons.prems(2) by simp
  ultimately show ?case by simp
qed

text \<open>
  Calls of loops that may not end: no value, or one that may be a stop.
\<close>

type_synonym 'a run = "'a res option"

definition run_bind :: "'a run \<Rightarrow> ('a \<Rightarrow> 'b run) \<Rightarrow> 'b run" where
  "run_bind m f = (case m of None \<Rightarrow> None | Some (Stop x) \<Rightarrow> Some (Stop x) | Some (Ok y) \<Rightarrow> f y)"

definition run_res :: "'a res \<Rightarrow> ('a \<Rightarrow> 'b run) \<Rightarrow> 'b run" where
  "run_res m f = run_bind (Some m) f"

lemma run_bind_simps [simp]:
  "run_bind None f = None" "run_bind (Some (Stop x)) f = Some (Stop x)" "run_bind (Some (Ok y)) f = f y"
  "run_res (Stop x) f = Some (Stop x)" "run_res (Ok y) f = f y"
  by (simp_all add: run_bind_def run_res_def)

subsection \<open>lwIP error codes\<close>

datatype err_t =
    ERR_OK | ERR_MEM | ERR_BUF | ERR_TIMEOUT | ERR_RTE | ERR_INPROGRESS | ERR_VAL
  | ERR_WOULDBLOCK | ERR_USE | ERR_ISCONN | ERR_ABRT | ERR_RST | ERR_CLSD | ERR_CONN
  | ERR_ARG | ERR_IF

subsection \<open>Machine words\<close>

lemma unat_u8_less [simp]: "unat (x :: u8) < 256"
  using unsigned_less [of x, where 'a = nat] by simp

lemma unat_u16_less [simp]: "unat (x :: u16) < 65536"
  using unsigned_less [of x, where 'a = nat] by simp

lemma unat_ucast_u8 [simp]:
  "unat (ucast (x :: u8) :: u16) = unat x" "unat (ucast (x :: u8) :: u32) = unat x"
  by (simp_all add: unsigned_ucast_eq take_bit_nat_eq_self less_trans [OF unat_u8_less])

lemma ucast_u8_of_nat: "n < 256 \<Longrightarrow> ucast (of_nat n :: u8) = (of_nat n :: u32)"
  by (simp add: unsigned_of_nat take_bit_nat_eq_self)

subsection \<open>C strings and bytes\<close>

definition cur :: "cstr \<Rightarrow> u8" where
  "cur s = (case s of [] \<Rightarrow> 0 | c # _ \<Rightarrow> c)"

lemma cur_simps [simp]: "cur [] = 0" "cur (c # s) = c"
  by (simp_all add: cur_def)

text \<open>\<open>cstr_at buf\<close>: the string a \<^verbatim>\<open>char\<close> buffer holds, up to its first NUL.\<close>

definition cstr_at :: "bytes \<Rightarrow> cstr" where
  "cstr_at buf = takeWhile (\<lambda>c. c \<noteq> 0) buf"

text \<open>A string literal as bytes.\<close>

definition lit :: "string \<Rightarrow> cstr" where
  "lit s = map (\<lambda>c. of_nat (of_char c)) s"

definition is_cstr :: "cstr \<Rightarrow> bool" where
  "is_cstr s \<longleftrightarrow> 0 \<notin> set s"

lemma cstr_at_is_cstr [simp]: "is_cstr (cstr_at buf)"
  by (auto simp: is_cstr_def cstr_at_def dest: set_takeWhileD)

lemma cstr_at_append_nul: "is_cstr s \<Longrightarrow> cstr_at (s @ 0 # r) = s"
  by (induction s) (auto simp: is_cstr_def cstr_at_def)

text \<open>\<^verbatim>\<open>memcpy(dst + off, src, length src)\<close> on the contents of a buffer.\<close>

definition buf_put :: "nat \<Rightarrow> bytes \<Rightarrow> bytes \<Rightarrow> bytes" where
  "buf_put off src dst = take off dst @ src @ drop (off + length src) dst"

lemma length_buf_put [simp]:
  "off + length src \<le> length dst \<Longrightarrow> length (buf_put off src dst) = length dst"
  by (simp add: buf_put_def)

lemma take_buf_put: "off \<le> length dst \<Longrightarrow> take off (buf_put off src dst) = take off dst"
  by (simp add: buf_put_def)

lemma take_drop_buf_put:
  "off \<le> length dst \<Longrightarrow> take (length src) (drop off (buf_put off src dst)) = src"
  by (simp add: buf_put_def)

lemma take_upto_buf_put:
  "off \<le> length dst \<Longrightarrow> take (off + length src) (buf_put off src dst) = take off dst @ src"
  by (simp add: buf_put_def min_def)

text \<open>Reading one byte, \<open>n\<close> bytes, or a NUL-terminated string out of a buffer, within its bounds.\<close>

definition rd :: "bytes \<Rightarrow> nat \<Rightarrow> u8 res" where
  "rd b i = (if i < length b then Ok (b ! i) else Stop Fault)"

definition rdn :: "bytes \<Rightarrow> nat \<Rightarrow> nat \<Rightarrow> bytes res" where
  "rdn b i n = (if i + n \<le> length b then Ok (take n (drop i b)) else Stop Fault)"

definition rd_cstr :: "bytes \<Rightarrow> cstr res" where
  "rd_cstr b = (if 0 \<in> set b then Ok (cstr_at b) else Stop Fault)"

lemma rd_Ok_iff: "rd b i = Ok x \<longleftrightarrow> i < length b \<and> x = b ! i"
  by (auto simp: rd_def)

lemma rd_append [simp]:
  "rd (xs @ ys) (length xs + i) = rd ys i" "rd (xs @ ys) (length xs) = rd ys 0"
  by (auto simp: rd_def nth_append)

lemma rd_Cons [simp]: "rd (x # xs) 0 = Ok x" "rd (x # xs) (Suc i) = rd xs i"
  by (auto simp: rd_def)

lemma rdn_append [simp]: "rdn (xs @ ys) (length xs + i) n = rdn ys i n"
  by (simp add: rdn_def add.assoc)

subsection \<open>Little-endian images of integers\<close>

definition byte_of :: "nat \<Rightarrow> 'a::len word \<Rightarrow> u8" where
  "byte_of i w = ucast (drop_bit (8 * i) w)"

definition le16 :: "u16 \<Rightarrow> bytes" where
  "le16 w = [byte_of 0 w, byte_of 1 w]"

definition le32 :: "u32 \<Rightarrow> bytes" where
  "le32 w = [byte_of 0 w, byte_of 1 w, byte_of 2 w, byte_of 3 w]"

definition u16_of :: "u8 \<Rightarrow> u8 \<Rightarrow> u16" where
  "u16_of a b = ucast a OR push_bit 8 (ucast b)"

definition u32_of :: "u8 \<Rightarrow> u8 \<Rightarrow> u8 \<Rightarrow> u8 \<Rightarrow> u32" where
  "u32_of a b c d = ucast a OR push_bit 8 (ucast b) OR push_bit 16 (ucast c) OR push_bit 24 (ucast d)"

lemma bit_byte_of: "bit (byte_of i w) n \<longleftrightarrow> n < 8 \<and> bit w (8 * i + n)"
  by (auto simp: byte_of_def bit_simps)

lemma bit_u32_of:
  "bit (u32_of a b c d) n \<longleftrightarrow>
     (if n < 8 then bit a n else if n < 16 then bit b (n - 8)
      else if n < 24 then bit c (n - 16) else n < 32 \<and> bit d (n - 24))"
  by (auto simp: u32_of_def bit_simps dest: bit_imp_le_length)

lemma bit_u16_of:
  "bit (u16_of a b) n \<longleftrightarrow> (if n < 8 then bit a n else n < 16 \<and> bit b (n - 8))"
  by (auto simp: u16_of_def bit_simps dest: bit_imp_le_length)

lemma u32_of_bytes [simp]: "u32_of (byte_of 0 w) (byte_of (Suc 0) w) (byte_of 2 w) (byte_of 3 w) = w"
  by (rule bit_word_eqI) (auto simp: bit_u32_of bit_byte_of)

lemma u16_of_bytes [simp]: "u16_of (byte_of 0 w) (byte_of (Suc 0) w) = w"
  by (rule bit_word_eqI) (auto simp: bit_u16_of bit_byte_of)

lemma bytes_u32_of [simp]:
  "byte_of 0 (u32_of a b c d) = a" "byte_of (Suc 0) (u32_of a b c d) = b"
  "byte_of 2 (u32_of a b c d) = c" "byte_of 3 (u32_of a b c d) = d"
  by (rule bit_word_eqI, auto simp: bit_u32_of bit_byte_of)+

lemma bytes_u16_of [simp]:
  "byte_of 0 (u16_of a b) = a" "byte_of (Suc 0) (u16_of a b) = b"
  by (rule bit_word_eqI, auto simp: bit_u16_of bit_byte_of)+

lemma unat_u16_of: "unat (u16_of a b) = unat a + 256 * unat b"
proof -
  have "unat a < 256" "unat b < 256" using unsigned_less [of a] unsigned_less [of b] by simp_all
  then have "unat a + 256 * unat b < 65536" by linarith
  moreover have "u16_of a b = ucast a + push_bit 8 (ucast b)"
    unfolding u16_of_def by (subst disjunctive_add) (auto simp: bit_simps dest: bit_imp_le_length)
  then have "unat (u16_of a b) = (unat a + 256 * unat b) mod 65536"
    by (simp add: unat_word_ariths push_bit_eq_mult unsigned_ucast_eq take_bit_eq_mod mult.commute mod_simps)
  ultimately show ?thesis by simp
qed

subsection \<open>Linked lists\<close>

text \<open>\<open>linked nx h xs\<close>: from \<open>h\<close>, the pointers \<open>nx\<close> lead through \<open>xs\<close> to NULL.\<close>

fun linked :: "('k \<Rightarrow> 'k option) \<Rightarrow> 'k option \<Rightarrow> 'k list \<Rightarrow> bool" where
  "linked nx h [] \<longleftrightarrow> h = None"
| "linked nx h (x # xs) \<longleftrightarrow> h = Some x \<and> linked nx (nx x) xs"

lemma linked_cong: "(\<And>x. x \<in> set xs \<Longrightarrow> nx' x = nx x) \<Longrightarrow> linked nx' h xs = linked nx h xs"
  by (induction xs arbitrary: h) auto

lemma linked_unique: "linked nx h xs \<Longrightarrow> linked nx h ys \<Longrightarrow> xs = ys"
proof (induction xs arbitrary: h ys)
  case Nil
  then show ?case by (cases ys) auto
next
  case (Cons x xs)
  then show ?case by (cases ys) auto
qed

end
