(* ===== verification/Lwip_Addr.thy ===== *)
theory Lwip_Addr
  imports Ocp_Prelude
begin

text \<open>
  Byte order and IPv4 addresses: \<^verbatim>\<open>lwip/src/core/def.c\<close> and
  \<^verbatim>\<open>lwip/src/core/ipv4/ip4_addr.c\<close>. An \<^verbatim>\<open>ip_addr_t\<close> is the \<^verbatim>\<open>u32_t\<close> it wraps, in
  network byte order; the host is little-endian, so the first octet of the address is the low
  byte of the word (\<open>IP4_ADDR\<close>).
\<close>

unbundle bit_operations_syntax

type_synonym ip_addr = u32

subsection \<open>Byte order (def.c)\<close>

definition lwip_htons :: "u16 \<Rightarrow> u16" where
  "lwip_htons n = push_bit 8 (n AND 0xff) OR drop_bit 8 (n AND 0xff00)"

definition lwip_ntohs :: "u16 \<Rightarrow> u16" where
  "lwip_ntohs n = lwip_htons n"

definition lwip_htonl :: "u32 \<Rightarrow> u32" where
  "lwip_htonl n =
     push_bit 24 (n AND 0xff) OR push_bit 8 (n AND 0xff00) OR
     drop_bit 8 (n AND 0xff0000) OR drop_bit 24 (n AND 0xff000000)"

definition lwip_ntohl :: "u32 \<Rightarrow> u32" where
  "lwip_ntohl n = lwip_htonl n"

lemma mask_consts:
  "(0xff :: 'a::len word) = mask 8"
  "(0xff00 :: 'a::len word) = push_bit 8 (mask 8)"
  "(0xff0000 :: 'a::len word) = push_bit 16 (mask 8)"
  "(0xff000000 :: 'a::len word) = push_bit 24 (mask 8)"
  by (simp_all add: mask_eq_exp_minus_1 push_bit_eq_mult)

lemma lwip_htons_u16_of [simp]: "lwip_htons (u16_of a b) = u16_of b a"
  unfolding lwip_htons_def mask_consts
  by (rule bit_word_eqI)
    (auto simp: bit_u16_of bit_simps dest: bit_imp_le_length)

lemma lwip_htonl_u32_of [simp]: "lwip_htonl (u32_of a b c d) = u32_of d c b a"
  unfolding lwip_htonl_def mask_consts
  by (rule bit_word_eqI)
    (auto simp: bit_u32_of bit_simps dest: bit_imp_le_length)

lemma u32_of_eq_0: "u32_of a b c d = 0 \<longleftrightarrow> a = 0 \<and> b = 0 \<and> c = 0 \<and> d = 0"
proof
  assume "u32_of a b c d = 0"
  then have "byte_of k (u32_of a b c d) = 0" for k by (simp add: byte_of_def)
  from this [of 0] this [of "Suc 0"] this [of 2] this [of 3] show "a = 0 \<and> b = 0 \<and> c = 0 \<and> d = 0" by simp
qed (simp add: u32_of_def)

lemma u32_of_cases: obtains a b c d where "w = u32_of a b c d"
  by (metis u32_of_bytes)

lemma u16_of_cases: obtains a b where "w = u16_of a b"
  by (metis u16_of_bytes)

lemma lwip_htonl_invol [simp]: "lwip_htonl (lwip_htonl w) = w"
  by (cases w rule: u32_of_cases) simp

lemma lwip_htons_invol [simp]: "lwip_htons (lwip_htons w) = w"
  by (cases w rule: u16_of_cases) simp

lemma le32_htonl: "le32 (lwip_htonl w) = rev (le32 w)"
  by (cases w rule: u32_of_cases) (simp add: le32_def)

lemma le16_htons: "le16 (lwip_htons w) = rev (le16 w)"
  by (cases w rule: u16_of_cases) (simp add: le16_def)

subsection \<open>Classification (ip4_addr.c, ip4_addr.h)\<close>

abbreviation (input) IPADDR_NONE :: ip_addr where "IPADDR_NONE \<equiv> 0xffffffff"
abbreviation (input) IPADDR_ANY :: ip_addr where "IPADDR_ANY \<equiv> 0"
abbreviation (input) IPADDR_BROADCAST :: ip_addr where "IPADDR_BROADCAST \<equiv> 0xffffffff"
abbreviation (input) IPADDR_LOOPBACK :: ip_addr where "IPADDR_LOOPBACK \<equiv> 0x7f000001"

definition IP4_ADDR :: "u8 \<Rightarrow> u8 \<Rightarrow> u8 \<Rightarrow> u8 \<Rightarrow> ip_addr" where
  "IP4_ADDR a b c d = push_bit 24 (ucast d) OR push_bit 16 (ucast c) OR push_bit 8 (ucast b) OR ucast a"

definition ip_addr_netcmp :: "ip_addr \<Rightarrow> ip_addr \<Rightarrow> ip_addr \<Rightarrow> bool" where
  "ip_addr_netcmp a1 a2 nm = (a1 AND nm = a2 AND nm)"

record netif =
  nif_ip_addr :: ip_addr
  nif_netmask :: ip_addr
  nif_gw :: ip_addr
  nif_mtu :: u16
  nif_flags :: u8
  nif_name :: "u8 \<times> u8"

abbreviation (input) NETIF_FLAG_UP :: u8 where "NETIF_FLAG_UP \<equiv> 0x01"
abbreviation (input) NETIF_FLAG_BROADCAST :: u8 where "NETIF_FLAG_BROADCAST \<equiv> 0x02"

definition ip4_addr_isbroadcast :: "ip_addr \<Rightarrow> netif \<Rightarrow> bool" where
  "ip4_addr_isbroadcast addr netif =
     (if NOT addr = IPADDR_ANY \<or> addr = IPADDR_ANY then True
      else if nif_flags netif AND NETIF_FLAG_BROADCAST = 0 then False
      else if addr = nif_ip_addr netif then False
      else if ip_addr_netcmp addr (nif_ip_addr netif) (nif_netmask netif) \<and>
              addr AND NOT (nif_netmask netif) = IPADDR_BROADCAST AND NOT (nif_netmask netif)
           then True
      else False)"

text \<open>
  The two loops of \<^verbatim>\<open>ip4_addr_netmask_valid\<close> walk a single bit from bit 31 down; the loop
  variable \<open>mask\<close> is represented by the number \<open>n\<close> of positions it has left (bit \<open>n - 1\<close>,
  and \<open>mask = 0\<close> when \<open>n = 0\<close>).
\<close>

fun netmask_first_zero :: "u32 \<Rightarrow> nat \<Rightarrow> nat" where
  "netmask_first_zero nm 0 = 0"
| "netmask_first_zero nm (Suc n) = (if nm AND push_bit n 1 = 0 then Suc n else netmask_first_zero nm n)"

fun netmask_no_one :: "u32 \<Rightarrow> nat \<Rightarrow> bool" where
  "netmask_no_one nm 0 = True"
| "netmask_no_one nm (Suc n) = (if nm AND push_bit n 1 \<noteq> 0 then False else netmask_no_one nm n)"

definition ip4_addr_netmask_valid :: "ip_addr \<Rightarrow> bool" where
  "ip4_addr_netmask_valid netmask =
     (let nm = lwip_htonl netmask in netmask_no_one nm (netmask_first_zero nm 32))"

subsection \<open>Text to address: \<^verbatim>\<open>ipaddr_aton\<close>\<close>

definition in_range :: "u8 \<Rightarrow> u8 \<Rightarrow> u8 \<Rightarrow> bool" where
  "in_range c lo up \<longleftrightarrow> lo \<le> c \<and> c \<le> up"

definition isdigit :: "u8 \<Rightarrow> bool" where "isdigit c = in_range c 48 57"
definition isxdigit :: "u8 \<Rightarrow> bool" where
  "isxdigit c \<longleftrightarrow> isdigit c \<or> in_range c 97 102 \<or> in_range c 65 70"
definition islower :: "u8 \<Rightarrow> bool" where "islower c = in_range c 97 122"
definition isspace :: "u8 \<Rightarrow> bool" where
  "isspace c \<longleftrightarrow> c = 32 \<or> c = 12 \<or> c = 10 \<or> c = 13 \<or> c = 9 \<or> c = 11"

lemmas ctype_defs = in_range_def isdigit_def isxdigit_def islower_def isspace_def

text \<open>The inner loop: collect one number in the given base.\<close>

fun aton_digits :: "u8 \<Rightarrow> u32 \<Rightarrow> cstr \<Rightarrow> u32 \<times> cstr" where
  "aton_digits base val [] = (val, [])"
| "aton_digits base val (c # cp) =
     (if isdigit c then aton_digits base (val * ucast base + ucast (c - 48)) cp
      else if base = 16 \<and> isxdigit c then
        aton_digits base (push_bit 4 val OR ucast (c + 10 - (if islower c then 97 else 65))) cp
      else (val, c # cp))"

text \<open>
  The outer loop. \<open>parts\<close> are the numbers stored through \<^verbatim>\<open>pp\<close> so far; the result is
  \<open>None\<close> for an early \<^verbatim>\<open>return (0)\<close>, otherwise the stored parts, the last number and the
  rest of the text.
\<close>

definition aton_base :: "cstr \<Rightarrow> u8 \<times> cstr" where
  "aton_base cp =
     (if cur cp = 48 then
        (if cur (tl cp) = 120 \<or> cur (tl cp) = 88 then (16, tl (tl cp)) else (8, tl cp))
      else (10, cp))"

function aton_parts :: "u32 list \<Rightarrow> cstr \<Rightarrow> (u32 list \<times> u32 \<times> cstr) option" where
  "aton_parts parts cp =
     (if \<not> isdigit (cur cp) then None
      else let (base, cp1) = aton_base cp; (val, cp2) = aton_digits base 0 cp1 in
        if cur cp2 = 46 then
          (if 3 \<le> length parts then None else aton_parts (parts @ [val]) (tl cp2))
        else Some (parts, val, cp2))"
  by pat_completeness auto
termination
  by (relation "measure (\<lambda>(parts, cp). 4 - length parts)") auto

declare aton_parts.simps [simp del]

definition ipaddr_aton :: "cstr \<Rightarrow> ip_addr option" where
  "ipaddr_aton cp =
     (case aton_parts [] cp of
        None \<Rightarrow> None
      | Some (parts, val, cp') \<Rightarrow>
          if cur cp' \<noteq> 0 \<and> \<not> isspace (cur cp') then None
          else (case parts of
              [] \<Rightarrow> Some (lwip_htonl val)
            | [p0] \<Rightarrow> if val > 0xffffff then None else Some (lwip_htonl (val OR push_bit 24 p0))
            | [p0, p1] \<Rightarrow>
                if val > 0xffff then None
                else Some (lwip_htonl (val OR push_bit 24 p0 OR push_bit 16 p1))
            | p0 # p1 # p2 # _ \<Rightarrow>
                if val > 0xff then None
                else Some (lwip_htonl (val OR push_bit 24 p0 OR push_bit 16 p1 OR push_bit 8 p2))))"

definition ipaddr_addr :: "cstr \<Rightarrow> ip_addr" where
  "ipaddr_addr cp = (case ipaddr_aton cp of Some a \<Rightarrow> a | None \<Rightarrow> IPADDR_NONE)"

subsection \<open>Address to text: \<^verbatim>\<open>ipaddr_ntoa_r\<close>\<close>

text \<open>The \<^verbatim>\<open>do ... while (*ap)\<close> loop that fills \<^verbatim>\<open>inv\<close>, least significant digit first.\<close>

fun inv_digits :: "nat \<Rightarrow> bytes" where
  "inv_digits n = of_nat (48 + n mod 10) # (if n div 10 = 0 then [] else inv_digits (n div 10))"

declare inv_digits.simps [simp del]

text \<open>Each character goes through the check \<^verbatim>\<open>if (len++ >= buflen) return NULL\<close>.\<close>

fun ntoa_write :: "nat \<Rightarrow> bytes \<Rightarrow> bytes \<Rightarrow> bytes option" where
  "ntoa_write buflen out [] = Some out"
| "ntoa_write buflen out (c # cs) =
     (if length out \<ge> buflen then None else ntoa_write buflen (out @ [c]) cs)"

definition ipaddr_ntoa_r :: "ip_addr \<Rightarrow> nat \<Rightarrow> cstr option" where
  "ipaddr_ntoa_r addr buflen =
     map_option butlast
       (ntoa_write buflen [] (concat (map (\<lambda>ap. rev (inv_digits (unat ap)) @ [46]) (le32 addr))))"

definition ipaddr_ntoa :: "ip_addr \<Rightarrow> cstr option" where
  "ipaddr_ntoa addr = ipaddr_ntoa_r addr 16"

subsection \<open>Properties\<close>

lemma IP4_ADDR_u32_of: "IP4_ADDR a b c d = u32_of a b c d"
  by (simp add: IP4_ADDR_def u32_of_def ac_simps)

lemma netmask_no_one_iff: "netmask_no_one nm n \<longleftrightarrow> (\<forall>i<n. \<not> bit nm i)"
  by (induction n) (auto simp: and_exp_eq_0_iff_not_bit less_Suc_eq)

lemma netmask_first_zero_iff:
  "netmask_first_zero nm n = k \<Longrightarrow>
     k \<le> n \<and> (\<forall>i. k \<le> i \<and> i < n \<longrightarrow> bit nm i) \<and> (0 < k \<longrightarrow> \<not> bit nm (k - 1))"
  by (induction n) (auto simp: and_exp_eq_0_iff_not_bit less_Suc_eq split: if_splits)

lemma dec_digit:
  assumes "d < 10"
  shows "isdigit (48 + of_nat d)" and "ucast (of_nat d :: u8) = (of_nat d :: u32)"
    and "(of_nat d :: u8) = 0 \<longleftrightarrow> d = 0"
proof -
  have u: "unat (of_nat d :: u8) = d"
    using assms by (simp add: unat_of_nat)
  then have v: "unat (48 + of_nat d :: u8) = 48 + d"
    using assms by (simp add: unat_word_ariths)
  show "isdigit (48 + of_nat d)"
    using assms by (simp add: ctype_defs word_le_nat_alt v)
  show "ucast (of_nat d :: u8) = (of_nat d :: u32)"
    using assms by (simp add: ucast_u8_of_nat)
  show "(of_nat d :: u8) = 0 \<longleftrightarrow> d = 0"
    by (simp add: word_unat_eq_iff u)
qed

lemma inv_digits_octet:
  "n < 10 \<Longrightarrow> inv_digits n = [48 + of_nat n]"
  "10 \<le> n \<Longrightarrow> n < 100 \<Longrightarrow> inv_digits n = [48 + of_nat (n mod 10), 48 + of_nat (n div 10)]"
  "100 \<le> n \<Longrightarrow> n < 256 \<Longrightarrow>
     inv_digits n = [48 + of_nat (n mod 10), 48 + of_nat (n div 10 mod 10), 48 + of_nat (n div 100)]"
proof -
  show *: "inv_digits n = [48 + of_nat n]" if "n < 10" for n
    using that by (subst inv_digits.simps) simp
  show **: "inv_digits n = [48 + of_nat (n mod 10), 48 + of_nat (n div 10)]"
    if "10 \<le> n" "n < 100" for n
    using that by (subst inv_digits.simps) (simp add: * less_mult_imp_div_less div_greater_zero_iff)
  show "inv_digits n = [48 + of_nat (n mod 10), 48 + of_nat (n div 10 mod 10), 48 + of_nat (n div 100)]"
    if "100 \<le> n" "n < 256"
  proof -
    have "10 \<le> n div 10" "n div 10 < 100" "n div 10 div 10 = n div 100"
      using that by (auto simp: div_mult2_eq [symmetric])
    then show ?thesis by (subst inv_digits.simps) (simp add: **)
  qed
qed

text \<open>The decimal text of an octet is read back as that octet.\<close>

lemma aton_octet:
  assumes n: "n < 256" and rest: "rest = [] \<or> (\<exists>r. rest = 46 # r)"
  shows "isdigit (cur (rev (inv_digits n) @ rest)) \<and>
    (case aton_base (rev (inv_digits n) @ rest) of (base, cp) \<Rightarrow> aton_digits base 0 cp) = (of_nat n, rest)"
proof -
  have stop: "aton_digits b v rest = (v, rest)" if "b \<noteq> 16" for b v
    using rest that by (auto simp: ctype_defs word_le_nat_alt)
  have nox: "cur rest \<noteq> 120" "cur rest \<noteq> 88" using rest by auto
  have z: "isdigit 48" by (simp add: ctype_defs)
  consider "n < 10" | "10 \<le> n" "n < 100" | "100 \<le> n" by linarith
  then show ?thesis
  proof cases
    case 1
    then show ?thesis
      by (cases "n = 0") (simp_all add: inv_digits_octet aton_base_def dec_digit stop nox z)
  next
    case 2
    have "of_nat n = (of_nat (n div 10) * 10 + of_nat (n mod 10) :: u32)"
      by (metis of_nat_add of_nat_mult of_nat_numeral div_mult_mod_eq)
    with 2 show ?thesis
      by (simp add: inv_digits_octet aton_base_def dec_digit stop z)
  next
    case 3
    have "n div 100 = n div 10 div 10" by (simp add: div_mult2_eq [symmetric])
    then have "n = (n div 100 * 10 + n div 10 mod 10) * 10 + n mod 10"
      by (metis div_mult_mod_eq)
    then have "of_nat n = (of_nat ((n div 100 * 10 + n div 10 mod 10) * 10 + n mod 10) :: u32)"
      by (rule arg_cong)
    then have "of_nat n = ((of_nat (n div 100) * 10 + of_nat (n div 10 mod 10)) * 10 + of_nat (n mod 10) :: u32)"
      by (simp only: of_nat_add of_nat_mult of_nat_numeral)
    with 3 n show ?thesis
      by (simp add: inv_digits_octet aton_base_def dec_digit stop z)
  qed
qed

lemma aton_parts_octet:
  assumes "n < 256" and "rest = [] \<or> (\<exists>r. rest = 46 # r)"
  shows "aton_parts parts (rev (inv_digits n) @ rest) =
    (if rest = [] then Some (parts, of_nat n, [])
     else if 3 \<le> length parts then None else aton_parts (parts @ [of_nat n]) (tl rest))"
proof -
  let ?s = "rev (inv_digits n) @ rest"
  obtain base cp where b: "aton_base ?s = (base, cp)" by force
  have "isdigit (cur ?s)" "aton_digits base 0 cp = (of_nat n, rest)"
    using aton_octet [OF assms] by (simp_all add: b)
  then have "aton_parts parts ?s =
      (if cur rest = 46 then (if 3 \<le> length parts then None else aton_parts (parts @ [of_nat n]) (tl rest))
       else Some (parts, of_nat n, rest))"
    by (subst aton_parts.simps) (simp add: b)
  then show ?thesis using assms(2) by auto
qed

lemma ntoa_write_fits: "length out + length cs \<le> buflen \<Longrightarrow> ntoa_write buflen out cs = Some (out @ cs)"
  by (induction cs arbitrary: out) auto

lemma inv_digits_length: "n < 256 \<Longrightarrow> length (inv_digits n) \<le> 3"
  by (cases "n < 10"; cases "n < 100") (simp_all add: inv_digits_octet)

lemma ipaddr_ntoa_u32_of:
  "ipaddr_ntoa (u32_of a b c d) =
     Some (rev (inv_digits (unat a)) @ 46 # rev (inv_digits (unat b)) @ 46 #
           rev (inv_digits (unat c)) @ 46 # rev (inv_digits (unat d)))"
proof -
  have l: "length (inv_digits (unat x)) \<le> 3" for x :: u8
    by (simp add: inv_digits_length)
  show ?thesis
    using l [of a] l [of b] l [of c] l [of d]
    by (simp add: ipaddr_ntoa_def ipaddr_ntoa_r_def le32_def ntoa_write_fits butlast_append)
qed

lemma octets_htonl:
  "lwip_htonl (ucast (d :: u8) OR push_bit 24 (ucast (a :: u8)) OR push_bit 16 (ucast (b :: u8)) OR
      push_bit 8 (ucast (c :: u8))) = u32_of a b c d"
proof -
  have "ucast d OR push_bit 24 (ucast a) OR push_bit 16 (ucast b) OR push_bit 8 (ucast c) = u32_of d c b a"
    by (simp add: u32_of_def ac_simps)
  then show ?thesis by simp
qed

text \<open>
  C35: writing an address as dotted text and reading the text back gives the address again,
  for every 32-bit address, and the text always fits the 16-byte buffer.
\<close>

theorem ipaddr_aton_ntoa: "\<exists>s. ipaddr_ntoa addr = Some s \<and> length s < 16 \<and> ipaddr_aton s = Some addr"
proof -
  obtain a b c d where w: "addr = u32_of a b c d" by (rule u32_of_cases)
  have l: "length (inv_digits (unat x)) \<le> 3" for x :: u8 by (simp add: inv_digits_length)
  have "ucast d \<le> (0xff :: u32)"
    using unat_u8_less [of d] by (simp add: word_le_nat_alt del: unat_u8_less)
  then show ?thesis
    using l [of a] l [of b] l [of c] l [of d] octets_htonl [of d a b c]
    by (simp add: w ipaddr_ntoa_u32_of ipaddr_aton_def aton_parts_octet aton_parts_octet [where rest = "[]", simplified])
qed

lemma ip4_addr_netmask_valid_bits:
  "ip4_addr_netmask_valid m \<longleftrightarrow> (\<exists>k\<le>32. \<forall>i<32. bit (lwip_htonl m) i = (k \<le> i))"
proof -
  let ?nm = "lwip_htonl m" and ?z = "netmask_first_zero (lwip_htonl m) 32"
  have z: "?z \<le> 32" "\<And>i. ?z \<le> i \<Longrightarrow> i < 32 \<Longrightarrow> bit ?nm i" "0 < ?z \<Longrightarrow> \<not> bit ?nm (?z - 1)"
    using netmask_first_zero_iff [of ?nm 32 ?z] by auto
  show ?thesis
  proof
    assume "ip4_addr_netmask_valid m"
    then have "\<forall>i<?z. \<not> bit ?nm i"
      by (simp add: ip4_addr_netmask_valid_def Let_def netmask_no_one_iff)
    then have "\<forall>i<32. bit ?nm i = (?z \<le> i)" using z by (meson linorder_not_le)
    with z(1) show "\<exists>k\<le>32. \<forall>i<32. bit ?nm i = (k \<le> i)" by blast
  next
    assume "\<exists>k\<le>32. \<forall>i<32. bit ?nm i = (k \<le> i)"
    then obtain k where k: "k \<le> 32" "\<And>i. i < 32 \<Longrightarrow> bit ?nm i = (k \<le> i)" by auto
    have "\<not> bit ?nm i" if "i < ?z" for i
    proof -
      have "?z - 1 < 32" "\<not> bit ?nm (?z - 1)" using z that by auto
      then have "?z - 1 < k" using k(2) by (meson not_le)
      then show ?thesis using k(2) [of i] that z(1) by simp
    qed
    then show "ip4_addr_netmask_valid m"
      by (simp add: ip4_addr_netmask_valid_def Let_def netmask_no_one_iff)
  qed
qed

text \<open>
  \<^verbatim>\<open>ip4_addr_netmask_valid\<close> accepts exactly the 33 prefix masks: in host order,
  a block of ones from bit 31 down to some bit \<open>k\<close> and zeros below it.
\<close>

lemma ip4_addr_netmask_valid_iff:
  "ip4_addr_netmask_valid m \<longleftrightarrow> lwip_htonl m \<in> (\<lambda>k. NOT (mask k)) ` {0..32}"
proof -
  have "lwip_htonl m = NOT (mask k) \<longleftrightarrow> (\<forall>i<32. bit (lwip_htonl m) i = (k \<le> i))" for k
    by (auto simp: bit_eq_iff bit_simps not_less)
  then show ?thesis by (auto simp: ip4_addr_netmask_valid_bits image_iff)
qed

end
