(* ===== verification/Pbuf.thy ===== *)
theory Pbuf
  imports Ocp_Prelude
begin

text \<open>
  Packet buffers, \<^verbatim>\<open>lwip/src/core/pbuf.c\<close> in the configuration of
  \<^verbatim>\<open>src/lwipopts.h\<close>.

  A chain is the list of the \<^verbatim>\<open>struct pbuf\<close>s reached through \<^verbatim>\<open>next\<close> (the empty list is
  NULL), and an operation that changes a chain in place returns the changed list. \<open>pb_mem\<close> is
  the memory a pbuf's payload pointer points into, \<open>pb_off\<close> the pointer's offset in it; lengths
  and reference counts are the values of their \<^verbatim>\<open>u16_t\<close> fields, with the wrap-around of every
  addition written out. Failed assertions are \<open>Stop Assert\<close>.
\<close>

datatype pbuf_layer = PBUF_TRANSPORT | PBUF_IP | PBUF_LINK | PBUF_RAW

datatype pbuf_type = PBUF_RAM | PBUF_ROM | PBUF_REF | PBUF_POOL

record pbuf =
  pb_mem :: bytes
  pb_off :: nat
  pb_tot_len :: nat
  pb_len :: nat
  pb_type :: pbuf_type
  pb_flags :: u8
  pb_ref :: nat

type_synonym chain = "pbuf list"

abbreviation (input) PBUF_POOL_BUFSIZE :: nat where "PBUF_POOL_BUFSIZE \<equiv> 2048"

definition LWIP_MEM_ALIGN_SIZE :: "nat \<Rightarrow> nat" where
  "LWIP_MEM_ALIGN_SIZE n = (n + 3) div 4 * 4"

definition u16_add :: "nat \<Rightarrow> nat \<Rightarrow> nat" where
  "u16_add a b = (a + b) mod 65536"

lemma u16_add_small [simp]: "a + b < 65536 \<Longrightarrow> u16_add a b = a + b"
  by (simp add: u16_add_def)

definition pb_payload :: "pbuf \<Rightarrow> bytes" where
  "pb_payload p = take (pb_len p) (drop (pb_off p) (pb_mem p))"

subsection \<open>Allocation\<close>

text \<open>
  What the allocators answer: how many further \<^verbatim>\<open>memp_malloc(MEMP_PBUF_POOL)\<close> calls
  succeed, whether \<^verbatim>\<open>mem_malloc\<close> and \<^verbatim>\<open>memp_malloc(MEMP_PBUF)\<close> succeed, and the bytes
  that happen to be in fresh memory.
\<close>

record alloc_env =
  ae_pool :: nat
  ae_ram :: bool
  ae_pbuf :: bool
  ae_junk :: "nat \<Rightarrow> u8"

definition junk_bytes :: "alloc_env \<Rightarrow> nat \<Rightarrow> bytes" where
  "junk_bytes e n = map (ae_junk e) [0..<n]"

fun layer_offset :: "pbuf_layer \<Rightarrow> nat" where
  "layer_offset PBUF_TRANSPORT = 16 + 20 + 20"
| "layer_offset PBUF_IP = 16 + 20"
| "layer_offset PBUF_LINK = 16"
| "layer_offset PBUF_RAW = 0"

text \<open>The \<^verbatim>\<open>while (rem_len > 0)\<close> loop: \<open>avail\<close> pool elements are left.\<close>

function pbuf_alloc_tail :: "alloc_env \<Rightarrow> nat \<Rightarrow> nat \<Rightarrow> chain option res" where
  "pbuf_alloc_tail e avail rem_len =
     (if rem_len = 0 then Ok (Some [])
      else if avail = 0 then Ok None
      else if \<not> rem_len < 65535 then Stop Assert
      else let len = min rem_len PBUF_POOL_BUFSIZE;
               q = \<lparr>pb_mem = junk_bytes e PBUF_POOL_BUFSIZE, pb_off = 0, pb_tot_len = rem_len,
                    pb_len = len, pb_type = PBUF_POOL, pb_flags = 0, pb_ref = 1\<rparr>
           in res_bind (pbuf_alloc_tail e (avail - 1) (rem_len - len))
                (\<lambda>t. Ok (map_option (\<lambda>qs. q # qs) t)))"
  by pat_completeness auto
termination
  by (relation "measure (\<lambda>(e, avail, rem_len). rem_len)") auto

declare pbuf_alloc_tail.simps [simp del]

definition pbuf_alloc :: "alloc_env \<Rightarrow> pbuf_layer \<Rightarrow> nat \<Rightarrow> pbuf_type \<Rightarrow> chain option res" where
  "pbuf_alloc e layer size_req type =
     (let offset = layer_offset layer in
      case type of
        PBUF_POOL \<Rightarrow>
          (if ae_pool e = 0 then Ok None
           else let len = min size_req (PBUF_POOL_BUFSIZE - LWIP_MEM_ALIGN_SIZE offset);
                    p = \<lparr>pb_mem = junk_bytes e PBUF_POOL_BUFSIZE, pb_off = LWIP_MEM_ALIGN_SIZE offset,
                         pb_tot_len = size_req, pb_len = len, pb_type = PBUF_POOL, pb_flags = 0, pb_ref = 1\<rparr>
                in if \<not> pb_off p + len \<le> PBUF_POOL_BUFSIZE then Stop Assert
                   else if \<not> PBUF_POOL_BUFSIZE - LWIP_MEM_ALIGN_SIZE offset > 0 then Stop Assert
                   else res_bind (pbuf_alloc_tail e (ae_pool e - 1) (size_req - len))
                          (\<lambda>t. Ok (map_option (\<lambda>qs. p # qs) t)))
      | PBUF_RAM \<Rightarrow>
          (if \<not> ae_ram e then Ok None
           else Ok (Some [\<lparr>pb_mem = junk_bytes e (LWIP_MEM_ALIGN_SIZE offset + LWIP_MEM_ALIGN_SIZE size_req),
                           pb_off = LWIP_MEM_ALIGN_SIZE offset, pb_tot_len = size_req, pb_len = size_req,
                           pb_type = PBUF_RAM, pb_flags = 0, pb_ref = 1\<rparr>]))
      | _ \<Rightarrow>
          (if \<not> ae_pbuf e then Ok None
           else Ok (Some [\<lparr>pb_mem = [], pb_off = 0, pb_tot_len = size_req, pb_len = size_req,
                           pb_type = type, pb_flags = 0, pb_ref = 1\<rparr>])))"

text \<open>
  \<^verbatim>\<open>pbuf_alloced_custom\<close> sets up a pbuf over memory of the caller: \<open>payload_mem\<close> is that
  memory (or None for a NULL pointer) and \<open>payload_mem_len\<close> its stated size.
\<close>

definition pbuf_alloced_custom ::
    "pbuf_layer \<Rightarrow> nat \<Rightarrow> pbuf_type \<Rightarrow> bytes option \<Rightarrow> nat \<Rightarrow> chain option" where
  "pbuf_alloced_custom l size_req type payload_mem payload_mem_len =
     (let offset = layer_offset l in
      if LWIP_MEM_ALIGN_SIZE offset + size_req > payload_mem_len then None
      else Some [\<lparr>pb_mem = (case payload_mem of Some m \<Rightarrow> m | None \<Rightarrow> []),
                  pb_off = (case payload_mem of Some m \<Rightarrow> LWIP_MEM_ALIGN_SIZE offset | None \<Rightarrow> 0),
                  pb_tot_len = size_req, pb_len = size_req, pb_type = type, pb_flags = 0x02, pb_ref = 1\<rparr>])"

subsection \<open>Reference counting\<close>

text \<open>
  \<^verbatim>\<open>pbuf_free\<close>: the number of pbufs given back, and the chain that is still referenced
  (empty when all of it was freed). The count is a \<^verbatim>\<open>u8_t\<close>.
\<close>

fun pbuf_free_loop :: "chain \<Rightarrow> nat \<Rightarrow> (nat \<times> chain) res" where
  "pbuf_free_loop [] count = Ok (count, [])"
| "pbuf_free_loop (p # ps) count =
     (if pb_ref p = 0 then Stop Assert
      else if pb_ref p - 1 = 0 then pbuf_free_loop ps ((count + 1) mod 256)
      else Ok (count, p\<lparr>pb_ref := pb_ref p - 1\<rparr> # ps))"

definition pbuf_free :: "chain \<Rightarrow> (nat \<times> chain) res" where
  "pbuf_free p = (if p = [] then Stop Assert else pbuf_free_loop p 0)"

fun pbuf_clen_loop :: "nat \<Rightarrow> chain \<Rightarrow> nat" where
  "pbuf_clen_loop len [] = len"
| "pbuf_clen_loop len (p # ps) = pbuf_clen_loop ((len + 1) mod 256) ps"

definition pbuf_clen :: "chain \<Rightarrow> nat" where
  "pbuf_clen p = pbuf_clen_loop 0 p"

fun pbuf_ref :: "chain \<Rightarrow> chain" where
  "pbuf_ref [] = []"
| "pbuf_ref (p # ps) = p\<lparr>pb_ref := u16_add (pb_ref p) 1\<rparr> # ps"

subsection \<open>Joining and splitting chains\<close>

fun pbuf_cat_loop :: "chain \<Rightarrow> chain \<Rightarrow> nat \<Rightarrow> chain res" where
  "pbuf_cat_loop [] t tot = Stop Fault"
| "pbuf_cat_loop [p] t tot =
     (if pb_tot_len p \<noteq> pb_len p then Stop Assert
      else Ok (p\<lparr>pb_tot_len := u16_add (pb_tot_len p) tot\<rparr> # t))"
| "pbuf_cat_loop (p # ps) t tot =
     res_bind (pbuf_cat_loop ps t tot) (\<lambda>r. Ok (p\<lparr>pb_tot_len := u16_add (pb_tot_len p) tot\<rparr> # r))"

definition pbuf_cat :: "chain \<Rightarrow> chain \<Rightarrow> chain res" where
  "pbuf_cat h t =
     (case t of [] \<Rightarrow> Stop Assert
      | q # _ \<Rightarrow> if h = [] then Stop Assert else pbuf_cat_loop h t (pb_tot_len q))"

text \<open>\<^verbatim>\<open>pbuf_chain\<close> returns the joined chain; its tail is \<open>t\<close> with one more reference.\<close>

definition pbuf_chain :: "chain \<Rightarrow> chain \<Rightarrow> chain res" where
  "pbuf_chain h t = pbuf_cat h (pbuf_ref t)"

text \<open>
  \<^verbatim>\<open>pbuf_dechain\<close>: the first pbuf and the rest of the chain, empty when it was freed. When a
  multiple of 256 pbufs is freed the \<^verbatim>\<open>u8_t\<close> count is 0 and the C code returns a dangling
  pointer, the \<open>Stop Fault\<close> branch.
\<close>

definition pbuf_dechain :: "chain \<Rightarrow> (chain \<times> chain) res" where
  "pbuf_dechain c =
     (case c of
        [] \<Rightarrow> Stop Fault
      | [p] \<Rightarrow> if pb_tot_len p \<noteq> pb_len p then Stop Assert else Ok ([p], [])
      | p # q # qs \<Rightarrow>
          if int (pb_tot_len q) \<noteq> int (pb_tot_len p) - int (pb_len p) then Stop Assert
          else res_bind (pbuf_free (q\<lparr>pb_tot_len := pb_tot_len p - pb_len p\<rparr> # qs))
             (\<lambda>(tail_gone, rest).
               if tail_gone = 0 \<and> rest = [] then Stop Fault
               else Ok ([p\<lparr>pb_tot_len := pb_len p\<rparr>], if tail_gone > 0 then [] else rest)))"

subsection \<open>Adjusting lengths\<close>

fun pbuf_realloc_loop :: "nat \<Rightarrow> nat \<Rightarrow> chain \<Rightarrow> chain res" where
  "pbuf_realloc_loop grow rem_len [] = Stop Assert"
| "pbuf_realloc_loop grow rem_len (q # qs) =
     (if rem_len > pb_len q then
        res_bind (pbuf_realloc_loop grow (rem_len - pb_len q) qs)
          (\<lambda>r. Ok (q\<lparr>pb_tot_len := u16_add (pb_tot_len q) grow\<rparr> # r))
      else let q1 = (if pb_type q = PBUF_RAM \<and> rem_len \<noteq> pb_len q
                     then q\<lparr>pb_mem := take (LWIP_MEM_ALIGN_SIZE (pb_off q + rem_len)) (pb_mem q)\<rparr> else q);
               q2 = q1\<lparr>pb_len := rem_len, pb_tot_len := rem_len\<rparr>
           in if qs = [] then Ok [q2]
              else res_bind (pbuf_free qs) (\<lambda>_. Ok [q2]))"

text \<open>\<open>grow\<close> is \<^verbatim>\<open>(u16_t)(new_len - p->tot_len)\<close>, a negative difference modulo \<open>2 ^ 16\<close>.\<close>

definition pbuf_realloc :: "chain \<Rightarrow> nat \<Rightarrow> chain res" where
  "pbuf_realloc c new_len =
     (case c of
        [] \<Rightarrow> Stop Assert
      | p # _ \<Rightarrow>
          if new_len \<ge> pb_tot_len p then Ok c
          else pbuf_realloc_loop (65536 + new_len - pb_tot_len p) new_len c)"

text \<open>\<^verbatim>\<open>pbuf_header\<close>: the result code and the chain.\<close>

definition pbuf_header :: "chain \<Rightarrow> int \<Rightarrow> (nat \<times> chain) res" where
  "pbuf_header c inc =
     (case c of
        [] \<Rightarrow> Stop Assert
      | p # ps \<Rightarrow>
          if inc = 0 then Ok (0, c)
          else if inc < 0 \<and> \<not> nat (- inc) \<le> pb_len p then Stop Assert
          else
            let adjusted = p\<lparr>pb_off := nat (int (pb_off p) - inc),
                             pb_len := nat ((int (pb_len p) + inc) mod 65536),
                             pb_tot_len := nat ((int (pb_tot_len p) + inc) mod 65536)\<rparr>
            in if pb_type p = PBUF_RAM \<or> pb_type p = PBUF_POOL then
                 (if int (pb_off p) - inc < 0 then Ok (1, c) else Ok (0, adjusted # ps))
               else (if inc < 0 \<and> nat (- inc) \<le> pb_len p then Ok (0, adjusted # ps) else Ok (1, c)))"

subsection \<open>Copying data in and out\<close>

definition pb_put :: "nat \<Rightarrow> bytes \<Rightarrow> pbuf \<Rightarrow> pbuf" where
  "pb_put off data p = p\<lparr>pb_mem := buf_put (pb_off p + off) data (pb_mem p)\<rparr>"

text \<open>The rest of a packet must not be followed by another packet.\<close>

definition packet_queue :: "chain \<Rightarrow> bool" where
  "packet_queue c = (case c of [] \<Rightarrow> False | p # ps \<Rightarrow> pb_len p = pb_tot_len p \<and> ps \<noteq> [])"

function pbuf_copy_loop :: "chain \<Rightarrow> chain \<Rightarrow> nat \<Rightarrow> nat \<Rightarrow> chain res" where
  "pbuf_copy_loop [] from offset_to offset_from = Stop Fault"
| "pbuf_copy_loop (t # ts) [] offset_to offset_from = Stop Fault"
| "pbuf_copy_loop (t # ts) (f # fs) offset_to offset_from =
     (let len = (if pb_len t - offset_to \<ge> pb_len f - offset_from
                 then pb_len f - offset_from else pb_len t - offset_to);
          t1 = pb_put offset_to (take len (drop (pb_off f + offset_from) (pb_mem f))) t;
          ot = offset_to + len; of1 = offset_from + len
      in if \<not> ot \<le> pb_len t \<or> \<not> of1 \<le> pb_len f then Stop Assert
         else let (from1, of2) = (if of1 \<ge> pb_len f then (fs, 0) else (f # fs, of1))
           in if ot = pb_len t then
                (if ts = [] \<and> from1 \<noteq> [] then Stop Assert
                 else if packet_queue from1 \<or> packet_queue ts then Stop Assert
                 else if from1 = [] then Ok (t1 # ts)
                 else res_bind (pbuf_copy_loop ts from1 0 of2) (\<lambda>r. Ok (t1 # r)))
              else (if packet_queue from1 \<or> packet_queue (t1 # ts) then Stop Assert
                    else if from1 = [] then Ok (t1 # ts)
                    else pbuf_copy_loop (t1 # ts) from1 ot of2))"
  by pat_completeness auto
termination
  by (relation "measure (\<lambda>(ts, fs, _, _). length ts + length fs)") (auto split: if_splits)

declare pbuf_copy_loop.simps(3) [simp del]

definition pbuf_copy :: "chain \<Rightarrow> chain \<Rightarrow> chain res" where
  "pbuf_copy p_to p_from =
     (if p_to \<noteq> [] \<and> p_from \<noteq> [] \<and> pb_tot_len (hd p_to) \<ge> pb_tot_len (hd p_from)
      then pbuf_copy_loop p_to p_from 0 0 else Stop Assert)"

text \<open>
  \<^verbatim>\<open>pbuf_copy_partial\<close> returns the bytes it stores at \<^verbatim>\<open>dataptr\<close>; the C result is their number.
\<close>

fun pbuf_copy_partial_loop :: "chain \<Rightarrow> nat \<Rightarrow> nat \<Rightarrow> bytes" where
  "pbuf_copy_partial_loop [] len offset = []"
| "pbuf_copy_partial_loop (p # ps) len offset =
     (if len = 0 then []
      else if offset \<noteq> 0 \<and> offset \<ge> pb_len p then pbuf_copy_partial_loop ps len (offset - pb_len p)
      else let buf_copy_len = (if pb_len p - offset > len then len else pb_len p - offset)
           in take buf_copy_len (drop offset (pb_payload p)) @
              pbuf_copy_partial_loop ps (len - buf_copy_len) 0)"

definition pbuf_copy_partial :: "chain \<Rightarrow> nat \<Rightarrow> nat \<Rightarrow> bytes res" where
  "pbuf_copy_partial buf len offset =
     (if buf = [] then Stop Assert else Ok (pbuf_copy_partial_loop buf len offset))"

fun pbuf_take_loop :: "chain \<Rightarrow> bytes \<Rightarrow> chain res" where
  "pbuf_take_loop c [] = Ok c"
| "pbuf_take_loop [] data = Stop Assert"
| "pbuf_take_loop (p # ps) data =
     (let buf_copy_len = (if length data > pb_len p then pb_len p else length data)
      in res_bind (pbuf_take_loop ps (drop buf_copy_len data))
           (\<lambda>r. Ok (pb_put 0 (take buf_copy_len data) p # r)))"

definition pbuf_take :: "chain \<Rightarrow> bytes \<Rightarrow> (err_t \<times> chain) res" where
  "pbuf_take buf data =
     (case buf of
        [] \<Rightarrow> Stop Assert
      | p # _ \<Rightarrow> if pb_tot_len p < length data then Ok (ERR_ARG, buf)
                else res_bind (pbuf_take_loop buf data) (\<lambda>c. Ok (ERR_OK, c)))"

definition pbuf_coalesce :: "alloc_env \<Rightarrow> chain \<Rightarrow> pbuf_layer \<Rightarrow> chain res" where
  "pbuf_coalesce e c layer =
     (case c of
        [] \<Rightarrow> Stop Fault
      | [p] \<Rightarrow> Ok c
      | p # _ \<Rightarrow>
          res_bind (pbuf_alloc e layer (pb_tot_len p) PBUF_RAM)
            (\<lambda>q. case q of
                None \<Rightarrow> Ok c
              | Some q \<Rightarrow> res_bind (pbuf_copy q c) (\<lambda>q'. res_bind (pbuf_free c) (\<lambda>_. Ok q'))))"

subsection \<open>Inspecting data\<close>

fun pbuf_get_at :: "chain \<Rightarrow> nat \<Rightarrow> u8" where
  "pbuf_get_at [] offset = 0"
| "pbuf_get_at (q # qs) offset =
     (if pb_len q \<le> offset then pbuf_get_at qs (offset - pb_len q) else pb_payload q ! offset)"

fun pbuf_skip :: "chain \<Rightarrow> nat \<Rightarrow> chain \<times> nat" where
  "pbuf_skip [] start = ([], start)"
| "pbuf_skip (q # qs) start =
     (if pb_len q \<le> start then pbuf_skip qs (start - pb_len q) else (q # qs, start))"

fun pbuf_memcmp_loop :: "chain \<Rightarrow> nat \<Rightarrow> nat \<Rightarrow> bytes \<Rightarrow> nat" where
  "pbuf_memcmp_loop q start i [] = 0"
| "pbuf_memcmp_loop q start i (b # bs) =
     (if pbuf_get_at q (u16_add start i) \<noteq> b then u16_add i 1 else pbuf_memcmp_loop q start (i + 1) bs)"

definition pbuf_memcmp :: "chain \<Rightarrow> nat \<Rightarrow> bytes \<Rightarrow> nat" where
  "pbuf_memcmp p offset s2 =
     (case pbuf_skip p offset of (q, start) \<Rightarrow>
        if q \<noteq> [] then pbuf_memcmp_loop q start 0 s2 else 0xffff)"

text \<open>The search loop from \<open>i\<close> up to \<open>last\<close>; chains are at most \<open>0xFFFE\<close> bytes long, so that \<open>i\<close> never wraps.\<close>

function pbuf_memfind_loop :: "chain \<Rightarrow> bytes \<Rightarrow> nat \<Rightarrow> nat \<Rightarrow> nat" where
  "pbuf_memfind_loop p data i max_i =
     (if i \<le> max_i then
        (if pbuf_memcmp p i data = 0 then i else pbuf_memfind_loop p data (i + 1) max_i)
      else 0xFFFF)"
  by pat_completeness auto
termination
  by (relation "measure (\<lambda>(p, data, i, m). Suc m - i)") auto

declare pbuf_memfind_loop.simps [simp del]

definition pbuf_memfind :: "chain \<Rightarrow> bytes \<Rightarrow> nat \<Rightarrow> nat res" where
  "pbuf_memfind p data start_offset =
     (case p of
        [] \<Rightarrow> Stop Fault
      | q # _ \<Rightarrow>
          if pb_tot_len q \<ge> length data + start_offset
          then Ok (pbuf_memfind_loop p data start_offset (pb_tot_len q - length data))
          else Ok 0xFFFF)"

definition pbuf_strstr :: "chain \<Rightarrow> cstr \<Rightarrow> nat res" where
  "pbuf_strstr p substr =
     (if substr = [] then Ok 0xFFFF
      else case p of
        [] \<Rightarrow> Stop Fault
      | q # _ \<Rightarrow>
          if pb_tot_len q = 0xFFFF then Ok 0xFFFF
          else if length substr \<ge> 0xFFFF then Ok 0xFFFF
          else pbuf_memfind p substr 0)"

end
