(* ===== verification/Pbuf_Props.thy ===== *)
theory Pbuf_Props
  imports Pbuf
begin

text \<open>
  Correctness of the pbuf operations: the length invariant that
  \<^verbatim>\<open>lwip/src/include/lwip/pbuf.h\<close> states for packet chains, that every operation keeps it, and
  what each operation does to the bytes the chain carries (\<open>chain_data\<close>).
\<close>

definition pbuf_wf :: "pbuf \<Rightarrow> bool" where
  "pbuf_wf p \<longleftrightarrow> pb_off p + pb_len p \<le> length (pb_mem p) \<and> 0 < pb_ref p"

definition chain_tot :: "chain \<Rightarrow> nat" where
  "chain_tot c = (case c of [] \<Rightarrow> 0 | p # _ \<Rightarrow> pb_tot_len p)"

fun chain_wf :: "chain \<Rightarrow> bool" where
  "chain_wf [] = True"
| "chain_wf (p # ps) \<longleftrightarrow>
     pbuf_wf p \<and> pb_tot_len p = pb_len p + chain_tot ps \<and> pb_tot_len p < 65536 \<and> chain_wf ps"

definition chain_data :: "chain \<Rightarrow> bytes" where
  "chain_data c = concat (map pb_payload c)"

lemma chain_tot_simps [simp]: "chain_tot [] = 0" "chain_tot (p # ps) = pb_tot_len p"
  by (simp_all add: chain_tot_def)

lemma chain_data_simps [simp]: "chain_data [] = []" "chain_data (p # ps) = pb_payload p @ chain_data ps"
  by (simp_all add: chain_data_def)

lemma length_pb_payload [simp]: "pbuf_wf p \<Longrightarrow> length (pb_payload p) = pb_len p"
  by (auto simp: pbuf_wf_def pb_payload_def)

lemma length_chain_data: "chain_wf c \<Longrightarrow> length (chain_data c) = chain_tot c"
  by (induction c) auto

lemma chain_tot_less: "chain_wf c \<Longrightarrow> chain_tot c < 65536"
  by (cases c) auto

lemma align_offsets [simp]: "LWIP_MEM_ALIGN_SIZE (layer_offset l) = layer_offset l"
  by (cases l) (simp_all add: LWIP_MEM_ALIGN_SIZE_def)

lemma align_ge: "n \<le> LWIP_MEM_ALIGN_SIZE n"
  by (simp add: LWIP_MEM_ALIGN_SIZE_def)

lemma layer_offset_small: "layer_offset l < 2048"
  by (cases l) auto

lemma length_junk_bytes [simp]: "length (junk_bytes e n) = n"
  by (simp add: junk_bytes_def)

subsection \<open>Allocation\<close>

lemma pbuf_alloc_tail_ok:
  "rem < 65535 \<Longrightarrow>
     pbuf_alloc_tail e avail rem = Ok None \<or>
     (\<exists>c. pbuf_alloc_tail e avail rem = Ok (Some c) \<and> chain_wf c \<and> chain_tot c = rem \<and>
          (\<forall>p\<in>set c. pb_type p = PBUF_POOL \<and> pb_ref p = 1))"
proof (induction e avail rem rule: pbuf_alloc_tail.induct)
  case (1 e avail rem)
  show ?case
  proof (cases "rem = 0 \<or> avail = 0")
    case True
    then show ?thesis by (auto simp: pbuf_alloc_tail.simps [of e avail rem])
  next
    case False
    define len where "len = min rem 2048"
    have "rem - len < 65535" using "1.prems" by simp
    then have ih: "pbuf_alloc_tail e (avail - 1) (rem - len) = Ok None \<or>
        (\<exists>c. pbuf_alloc_tail e (avail - 1) (rem - len) = Ok (Some c) \<and> chain_wf c \<and>
             chain_tot c = rem - len \<and> (\<forall>p\<in>set c. pb_type p = PBUF_POOL \<and> pb_ref p = 1))"
      using "1.IH" False "1.prems" by (simp add: len_def Let_def)
    have len: "len \<le> rem" "len \<le> 2048" by (simp_all add: len_def)
    from ih show ?thesis
      using False "1.prems" len
      by (auto simp: pbuf_alloc_tail.simps [of e avail rem] len_def [symmetric] pbuf_wf_def)
  qed
qed

lemma pbuf_alloc_tail_enough:
  "rem < 65535 \<Longrightarrow> rem \<le> 2048 * avail \<Longrightarrow> pbuf_alloc_tail e avail rem \<noteq> Ok None"
proof (induction e avail rem rule: pbuf_alloc_tail.induct)
  case (1 e avail rem)
  show ?case
  proof (cases "rem = 0")
    case True
    then show ?thesis by (simp add: pbuf_alloc_tail.simps)
  next
    case False
    then have "avail \<noteq> 0" using "1.prems" by auto
    moreover have "rem - min rem 2048 \<le> 2048 * (avail - 1)"
      using "1.prems"(2) by (cases avail) auto
    moreover have "rem - min rem 2048 < 65535" using "1.prems"(1) by simp
    ultimately have "pbuf_alloc_tail e (avail - 1) (rem - min rem 2048) \<noteq> Ok None"
      using "1.IH" False "1.prems"(1) by blast
    then show ?thesis
      using False \<open>avail \<noteq> 0\<close> "1.prems"(1) by (auto simp: pbuf_alloc_tail.simps [of e avail rem] Let_def)
  qed
qed

lemma pbuf_alloc_ok:
  assumes "n < 65536" and "type = PBUF_POOL \<or> type = PBUF_RAM"
  shows "pbuf_alloc e layer n type = Ok None \<or>
    (\<exists>c. pbuf_alloc e layer n type = Ok (Some c) \<and> c \<noteq> [] \<and> chain_wf c \<and> chain_tot c = n \<and>
         (\<forall>p\<in>set c. pb_type p = type \<and> pb_ref p = 1))"
proof (cases "type = PBUF_RAM")
  case True
  then show ?thesis
    using assms(1) align_ge [of n] by (auto simp: pbuf_alloc_def Let_def pbuf_wf_def)
next
  case False
  then have t: "type = PBUF_POOL" using assms(2) by simp
  define len where "len = min n (2048 - layer_offset layer)"
  have "0 < n \<Longrightarrow> 0 < len" using layer_offset_small [of layer] by (simp add: len_def)
  then have "n - len < 65535" using assms(1) by linarith
  note tail = pbuf_alloc_tail_ok [OF this, of e "ae_pool e - 1"]
  have "layer_offset layer + len \<le> 2048" "len \<le> n"
    using layer_offset_small [of layer] by (simp_all add: len_def)
  with tail assms(1) show ?thesis
    by (auto simp: t pbuf_alloc_def Let_def len_def [symmetric] pbuf_wf_def layer_offset_small)
qed

lemma pbuf_alloc_enough:
  assumes "n < 65536" and "n + layer_offset layer \<le> 2048 * ae_pool e" and "0 < ae_pool e"
  shows "pbuf_alloc e layer n PBUF_POOL \<noteq> Ok None"
proof -
  define len where "len = min n (2048 - layer_offset layer)"
  have "n - len < 65535" "n - len \<le> 2048 * (ae_pool e - 1)"
    using assms layer_offset_small [of layer] by (cases "ae_pool e"; auto simp: len_def min_def)+
  from pbuf_alloc_tail_enough [OF this, of e] show ?thesis
    using assms layer_offset_small [of layer] by (auto simp: pbuf_alloc_def Let_def len_def)
qed

subsection \<open>Reading\<close>

lemma pbuf_copy_partial_loop_data:
  "chain_wf c \<Longrightarrow> pbuf_copy_partial_loop c len off = take len (drop off (chain_data c))"
proof (induction c arbitrary: len off)
  case Nil
  then show ?case by simp
next
  case (Cons p ps)
  then show ?case by (auto simp: Let_def)
qed

lemma pbuf_get_at_data:
  "chain_wf c \<Longrightarrow> pbuf_get_at c off = (if off < chain_tot c then chain_data c ! off else 0)"
  by (induction c arbitrary: off) (auto simp: nth_append)

lemma pbuf_skip_data:
  "chain_wf c \<Longrightarrow> pbuf_skip c off = (q, s) \<Longrightarrow>
     chain_wf q \<and> (q = [] \<longleftrightarrow> chain_tot c \<le> off) \<and>
     (q \<noteq> [] \<longrightarrow> drop s (chain_data q) = drop off (chain_data c) \<and> s < chain_tot q \<and>
       chain_tot q - s = chain_tot c - off)"
  by (induction c arbitrary: off) (auto split: if_splits )

lemma pbuf_skip_le: "chain_wf c \<Longrightarrow> pbuf_skip c off = (q, s) \<Longrightarrow> chain_tot q \<le> chain_tot c"
  by (induction c arbitrary: off) (fastforce split: if_splits)+

lemma pbuf_memcmp_loop_0_iff:
  "chain_wf q \<Longrightarrow> s + i + length bs \<le> chain_tot q \<Longrightarrow>
     pbuf_memcmp_loop q s i bs = 0 \<longleftrightarrow> take (length bs) (drop (s + i) (chain_data q)) = bs"
proof (induction bs arbitrary: i)
  case Nil
  then show ?case by simp
next
  case (Cons b bs)
  have lt: "s + i < chain_tot q" using Cons.prems by simp
  with chain_tot_less [OF Cons.prems(1)] have "u16_add s i = s + i" "u16_add i 1 \<noteq> 0" by auto
  with lt Cons show ?case
    by (auto simp: pbuf_get_at_data length_chain_data Cons_nth_drop_Suc [symmetric])
qed

text \<open>Comparing inside the packet: 0 exactly when the bytes at \<open>off\<close> are \<open>bs\<close>.\<close>

lemma pbuf_memcmp_0_iff:
  assumes "chain_wf c" and "off + length bs \<le> chain_tot c" and "bs \<noteq> []"
  shows "pbuf_memcmp c off bs = 0 \<longleftrightarrow> take (length bs) (drop off (chain_data c)) = bs"
proof -
  obtain q s where qs: "pbuf_skip c off = (q, s)" by force
  have "off < chain_tot c" using assms(2,3) by (cases bs) auto
  with pbuf_skip_data [OF assms(1) qs]
  have q: "chain_wf q" "q \<noteq> []" "drop s (chain_data q) = drop off (chain_data c)"
      "s + length bs \<le> chain_tot q"
    using assms(2) by auto
  then show ?thesis
    by (simp add: pbuf_memcmp_def qs pbuf_memcmp_loop_0_iff)
qed

definition occurs_at :: "bytes \<Rightarrow> bytes \<Rightarrow> nat \<Rightarrow> bool" where
  "occurs_at data pat i \<longleftrightarrow> i + length pat \<le> length data \<and> take (length pat) (drop i data) = pat"

lemma pbuf_memfind_loop_spec:
  assumes wf: "chain_wf c" and tot: "chain_tot c < 65535" and "pat \<noteq> []"
    and "m + length pat = chain_tot c" and "i \<le> Suc m"
  shows "(pbuf_memfind_loop c pat i m = 0xFFFF \<and> (\<forall>j. i \<le> j \<and> j \<le> m \<longrightarrow> \<not> occurs_at (chain_data c) pat j)) \<or>
    (\<exists>k. pbuf_memfind_loop c pat i m = k \<and> i \<le> k \<and> k \<le> m \<and> occurs_at (chain_data c) pat k \<and>
         (\<forall>j. i \<le> j \<and> j < k \<longrightarrow> \<not> occurs_at (chain_data c) pat j))"
  using assms(5)
proof (induction "Suc m - i" arbitrary: i)
  case 0
  then show ?case by (auto simp: pbuf_memfind_loop.simps)
next
  case (Suc n)
  then have im: "i \<le> m" by simp
  have here: "pbuf_memcmp c i pat = 0 \<longleftrightarrow> occurs_at (chain_data c) pat i"
    using im assms by (simp add: pbuf_memcmp_0_iff occurs_at_def length_chain_data)
  show ?case
  proof (cases "pbuf_memcmp c i pat = 0")
    case True
    with im here show ?thesis by (auto simp: pbuf_memfind_loop.simps [of c pat i])
  next
    case False
    then have step: "pbuf_memfind_loop c pat i m = pbuf_memfind_loop c pat (Suc i) m"
      using im by (simp add: pbuf_memfind_loop.simps [of c pat i])
    have "n = Suc m - Suc i" "Suc i \<le> Suc m" using Suc im by auto
    have split: "i \<le> j \<longleftrightarrow> j = i \<or> Suc i \<le> j" for j by auto
    from Suc.hyps(1) [OF \<open>n = Suc m - Suc i\<close> \<open>Suc i \<le> Suc m\<close>] show ?thesis
      unfolding step using False here by (auto simp: split)
  qed
qed

subsection \<open>Writing\<close>

lemma pb_put_simps [simp]:
  "pb_len (pb_put o1 d p) = pb_len p" "pb_tot_len (pb_put o1 d p) = pb_tot_len p"
  "pb_off (pb_put o1 d p) = pb_off p" "pb_ref (pb_put o1 d p) = pb_ref p"
  "pb_type (pb_put o1 d p) = pb_type p"
  by (simp_all add: pb_put_def)

lemma pbuf_wf_put: "pbuf_wf p \<Longrightarrow> o1 + length d \<le> pb_len p \<Longrightarrow> pbuf_wf (pb_put o1 d p)"
  by (simp add: pbuf_wf_def pb_put_def)

lemma payload_put:
  assumes "pbuf_wf p" and "o1 + length d \<le> pb_len p"
  shows "pb_payload (pb_put o1 d p) = buf_put o1 d (pb_payload p)"
proof -
  let ?m = "pb_mem p" and ?off = "pb_off p" and ?len = "pb_len p"
  have "?off + ?len \<le> length ?m" using assms(1) by (simp add: pbuf_wf_def)
  with assms(2) have "drop ?off (buf_put (?off + o1) d ?m) = buf_put o1 d (drop ?off ?m)"
    by (simp add: buf_put_def drop_take ac_simps)
  moreover have "take ?len (buf_put o1 d (drop ?off ?m)) = buf_put o1 d (take ?len (drop ?off ?m))"
    using assms(2) \<open>?off + ?len \<le> length ?m\<close>
    by (simp add: buf_put_def drop_take min_absorb2 ac_simps)
  ultimately show ?thesis by (simp add: pb_payload_def pb_put_def)
qed

lemma pbuf_take_loop_Cons:
  "pbuf_take_loop (p # ps) data =
     (if data = [] then Ok (p # ps)
      else let n = min (pb_len p) (length data)
           in res_bind (pbuf_take_loop ps (drop n data)) (\<lambda>r. Ok (pb_put 0 (take n data) p # r)))"
  by (cases data) (auto simp: Let_def min_def)

lemma pbuf_take_loop_ok:
  "chain_wf c \<Longrightarrow> length data \<le> chain_tot c \<Longrightarrow>
     \<exists>c'. pbuf_take_loop c data = Ok c' \<and> chain_wf c' \<and> chain_tot c' = chain_tot c \<and>
       length c' = length c \<and> map pb_ref c' = map pb_ref c \<and>
       chain_data c' = data @ drop (length data) (chain_data c)"
proof (induction c arbitrary: data)
  case Nil
  then show ?case by simp
next
  case (Cons p ps)
  show ?case
  proof (cases "data = []")
    case True
    with Cons.prems show ?thesis by simp
  next
    case False
    define n where "n = min (pb_len p) (length data)"
    have wf: "pbuf_wf p" "chain_wf ps" and tot: "pb_tot_len p = pb_len p + chain_tot ps"
      using Cons.prems by auto
    have "length (drop n data) \<le> chain_tot ps" using Cons.prems tot by (auto simp: n_def)
    then obtain r where r: "pbuf_take_loop ps (drop n data) = Ok r" "chain_wf r" "chain_tot r = chain_tot ps"
        "length r = length ps" "map pb_ref r = map pb_ref ps"
        "chain_data r = drop n data @ drop (length (drop n data)) (chain_data ps)"
      using Cons.IH [OF wf(2)] by blast
    let ?p = "pb_put 0 (take n data) p"
    have put: "pbuf_wf ?p" "pb_payload ?p = take n data @ drop n (pb_payload p)"
      using wf(1) by (simp_all add: pbuf_wf_put payload_put n_def buf_put_def)
    have "pbuf_take_loop (p # ps) data = Ok (?p # r)"
      using False r(1) by (simp add: pbuf_take_loop_Cons n_def [symmetric])
    moreover have "chain_data (?p # r) = data @ drop (length data) (chain_data (p # ps))"
      using put(2) r(6) wf(1) by (cases "length data \<le> pb_len p") (simp_all add: n_def)
    ultimately show ?thesis
      using put r tot Cons.prems by (intro exI [of _ "?p # r"]) simp
  qed
qed

subsection \<open>Reference counting\<close>

text \<open>\<^verbatim>\<open>pbuf_free\<close> gives back the longest prefix whose reference counts are 1.\<close>

definition free_prefix :: "chain \<Rightarrow> chain" where
  "free_prefix c = takeWhile (\<lambda>p. pb_ref p = 1) c"

lemma pbuf_free_loop_spec:
  "\<forall>p\<in>set c. 0 < pb_ref p \<Longrightarrow>
     pbuf_free_loop c n =
       Ok (if free_prefix c = [] then n else (n + length (free_prefix c)) mod 256,
           case drop (length (free_prefix c)) c of
             [] \<Rightarrow> [] | p # ps \<Rightarrow> p\<lparr>pb_ref := pb_ref p - 1\<rparr> # ps)"
  by (induction c n rule: pbuf_free_loop.induct)
    (auto simp: free_prefix_def mod_simps split: if_splits)

lemma chain_wf_refs: "chain_wf c \<Longrightarrow> p \<in> set c \<Longrightarrow> 0 < pb_ref p"
  by (induction c) (auto simp: pbuf_wf_def)

lemma pbuf_free_ok: "chain_wf c \<Longrightarrow> c \<noteq> [] \<Longrightarrow> \<exists>r. pbuf_free c = Ok r"
  by (auto simp: pbuf_free_def pbuf_free_loop_spec chain_wf_refs)

lemma pbuf_free_all:
  assumes "chain_wf c" and "c \<noteq> []" and "\<forall>p\<in>set c. pb_ref p = 1"
  shows "pbuf_free c = Ok (length c mod 256, [])"
proof -
  have "free_prefix c = c" using assms(3) by (simp add: free_prefix_def)
  with assms show ?thesis by (simp add: pbuf_free_def pbuf_free_loop_spec)
qed

lemma pbuf_clen_loop_spec: "n < 256 \<Longrightarrow> pbuf_clen_loop n c = (n + length c) mod 256"
  by (induction c arbitrary: n) (auto simp: mod_simps)

subsection \<open>Joining chains\<close>

lemma pbuf_cat_loop_ok:
  "chain_wf h \<Longrightarrow> chain_wf t \<Longrightarrow> h \<noteq> [] \<Longrightarrow> chain_tot h + chain_tot t < 65536 \<Longrightarrow> tot = chain_tot t \<Longrightarrow>
     \<exists>c. pbuf_cat_loop h t tot = Ok c \<and> chain_wf c \<and> chain_tot c = chain_tot h + chain_tot t \<and>
         c \<noteq> [] \<and> chain_data c = chain_data h @ chain_data t"
proof (induction h t tot rule: pbuf_cat_loop.induct)
  case (3 p q qs t tot)
  then obtain c where c: "pbuf_cat_loop (q # qs) t tot = Ok c" "chain_wf c" "c \<noteq> []"
      "chain_tot c = chain_tot (q # qs) + chain_tot t" "chain_data c = chain_data (q # qs) @ chain_data t"
    by auto
  let ?p = "p\<lparr>pb_tot_len := u16_add (pb_tot_len p) tot\<rparr>"
  have "pb_payload ?p = pb_payload p" "pbuf_wf ?p = pbuf_wf p"
    by (simp_all add: pb_payload_def pbuf_wf_def)
  with 3 c show ?case by (intro exI [of _ "?p # c"]) simp
qed (auto simp: pb_payload_def pbuf_wf_def)

lemma pbuf_cat_ok:
  assumes "chain_wf h" and "chain_wf t" and "h \<noteq> []" and "t \<noteq> []"
    and "chain_tot h + chain_tot t < 65536"
  shows "\<exists>c. pbuf_cat h t = Ok c \<and> chain_wf c \<and> chain_tot c = chain_tot h + chain_tot t \<and>
    c \<noteq> [] \<and> chain_data c = chain_data h @ chain_data t"
proof (cases t)
  case Nil
  with assms show ?thesis by simp
next
  case (Cons q qs)
  with assms pbuf_cat_loop_ok [OF assms(1,2,3,5) refl] show ?thesis
    by (simp add: pbuf_cat_def)
qed

subsection \<open>Shrinking chains and moving headers\<close>

lemma pb_trim:
  assumes "pbuf_wf q" and "r \<le> pb_len q"
  shows "pbuf_wf ((if b then q\<lparr>pb_mem := take (LWIP_MEM_ALIGN_SIZE (pb_off q + r)) (pb_mem q)\<rparr> else q)
             \<lparr>pb_len := r, pb_tot_len := r\<rparr>)"
    and "pb_payload ((if b then q\<lparr>pb_mem := take (LWIP_MEM_ALIGN_SIZE (pb_off q + r)) (pb_mem q)\<rparr> else q)
             \<lparr>pb_len := r, pb_tot_len := r\<rparr>) = take r (pb_payload q)"
  using assms align_ge [of "pb_off q + r"]
  by (auto simp: pbuf_wf_def pb_payload_def drop_take min_def)

lemma pbuf_realloc_loop_ok:
  "chain_wf c \<Longrightarrow> r < chain_tot c \<Longrightarrow> g = 65536 + r - chain_tot c \<Longrightarrow>
     \<exists>c'. pbuf_realloc_loop g r c = Ok c' \<and> c' \<noteq> [] \<and> chain_wf c' \<and> chain_tot c' = r \<and>
          chain_data c' = take r (chain_data c)"
proof (induction c arbitrary: r)
  case Nil
  then show ?case by simp
next
  case (Cons q qs)
  have wf: "pbuf_wf q" "chain_wf qs" "pb_tot_len q = pb_len q + chain_tot qs" "pb_tot_len q < 65536"
    using Cons.prems by auto
  show ?case
  proof (cases "r > pb_len q")
    case True
    have "r - pb_len q < chain_tot qs" "g = 65536 + (r - pb_len q) - chain_tot qs"
      using True Cons.prems wf by auto
    then obtain c where c: "pbuf_realloc_loop g (r - pb_len q) qs = Ok c" "c \<noteq> []"
        "chain_wf c" "chain_tot c = r - pb_len q" "chain_data c = take (r - pb_len q) (chain_data qs)"
      using Cons.IH [OF wf(2)] by blast
    have u: "u16_add (pb_tot_len q) g = r"
      using Cons.prems wf(4) by (simp add: u16_add_def)
    let ?q = "q\<lparr>pb_tot_len := r\<rparr>"
    have "pb_payload ?q = pb_payload q" "pbuf_wf ?q = pbuf_wf q"
      by (simp_all add: pb_payload_def pbuf_wf_def)
    with True c u wf Cons.prems show ?thesis
      by (intro exI [of _ "?q # c"]) simp
  next
    case False
    then have r: "r \<le> pb_len q" by simp
    note trim = pb_trim [OF wf(1) r, where b = "pb_type q = PBUF_RAM \<and> r \<noteq> pb_len q"]
    show ?thesis
    proof (cases "qs = []")
      case True
      with trim r wf Cons.prems show ?thesis by (simp add: Let_def)
    next
      case qs: False
      then obtain x where "pbuf_free qs = Ok x" using pbuf_free_ok wf(2) by blast
      with qs trim r wf Cons.prems show ?thesis by (simp add: Let_def)
    qed
  qed
qed

lemma pbuf_realloc_ok:
  assumes "chain_wf c" and "c \<noteq> []"
  shows "\<exists>c'. pbuf_realloc c n = Ok c' \<and> c' \<noteq> [] \<and> chain_wf c' \<and>
    chain_tot c' = min n (chain_tot c) \<and> chain_data c' = take n (chain_data c)"
proof (cases "n < chain_tot c")
  case True
  obtain c' where "pbuf_realloc_loop (65536 + n - chain_tot c) n c = Ok c' \<and> c' \<noteq> [] \<and> chain_wf c' \<and>
      chain_tot c' = n \<and> chain_data c' = take n (chain_data c)"
    using pbuf_realloc_loop_ok [OF assms(1) True refl] by blast
  with True assms(2) show ?thesis
    by (cases c) (auto simp: pbuf_realloc_def)
next
  case False
  with assms length_chain_data [OF assms(1)] show ?thesis
    by (cases c) (auto simp: pbuf_realloc_def)
qed

text \<open>Hiding \<open>n\<close> header bytes drops them from the data; revealing them again restores the chain.\<close>

lemma pbuf_header_hide:
  assumes "chain_wf (p # ps)" and "0 < n" and "n \<le> pb_len p"
  shows "\<exists>p'. pbuf_header (p # ps) (- int n) = Ok (0, p' # ps) \<and> chain_wf (p' # ps) \<and>
    chain_data (p' # ps) = drop n (chain_data (p # ps)) \<and>
    (pb_type p = PBUF_RAM \<or> pb_type p = PBUF_POOL \<longrightarrow> pbuf_header (p' # ps) (int n) = Ok (0, p # ps))"
proof -
  let ?p = "p\<lparr>pb_off := pb_off p + n, pb_len := pb_len p - n, pb_tot_len := pb_tot_len p - n\<rparr>"
  have wf: "pbuf_wf p" "pb_tot_len p = pb_len p + chain_tot ps" "pb_tot_len p < 65536" "chain_wf ps"
    using assms(1) by auto
  have m: "nat ((int (pb_len p) - int n) mod 65536) = pb_len p - n"
    "nat ((int (pb_tot_len p) - int n) mod 65536) = pb_tot_len p - n"
    using assms(3) wf(2,3) by (simp_all add: of_nat_diff [symmetric] nat_mod_as_int del: of_nat_diff)
  have "pbuf_header (p # ps) (- int n) = Ok (0, ?p # ps)"
    using assms(2,3) by (cases "pb_type p") (simp_all add: pbuf_header_def Let_def m nat_int_add)
  moreover have "pb_payload ?p = drop n (pb_payload p)"
    by (simp add: pb_payload_def drop_take add.commute)
  moreover have "pbuf_wf ?p" using wf(1) assms(3) by (auto simp: pbuf_wf_def)
  moreover have "pbuf_header (?p # ps) (int n) = Ok (0, p # ps)"
    if "pb_type p = PBUF_RAM \<or> pb_type p = PBUF_POOL"
    using that assms(2,3) wf(2,3) by (auto simp: pbuf_header_def Let_def)
  ultimately show ?thesis
    using wf assms(3) by (intro exI [of _ ?p]) auto
qed

subsection \<open>Coalescing\<close>

lemma pbuf_copy_single:
  "chain_wf from \<Longrightarrow> from \<noteq> [] \<Longrightarrow> \<forall>p\<in>set (tl from). 0 < pb_len p \<Longrightarrow> pbuf_wf t \<Longrightarrow>
     pb_tot_len t = pb_len t \<Longrightarrow> ot + chain_tot from \<le> pb_len t \<Longrightarrow>
     \<exists>t'. pbuf_copy_loop [t] from ot 0 = Ok [t'] \<and> pbuf_wf t' \<and> pb_len t' = pb_len t \<and>
          pb_tot_len t' = pb_len t \<and> pb_payload t' = buf_put ot (chain_data from) (pb_payload t)"
proof (induction "from" arbitrary: t ot)
  case Nil
  then show ?case by simp
next
  case (Cons f fs)
  have wf: "pbuf_wf f" "chain_wf fs" "pb_tot_len f = pb_len f + chain_tot fs" using Cons.prems by auto
  let ?t = "pb_put ot (pb_payload f) t"
  have fit: "ot + pb_len f \<le> pb_len t" using Cons.prems wf(3) by simp
  have t: "pbuf_wf ?t" "pb_payload ?t = buf_put ot (pb_payload f) (pb_payload t)"
    using Cons.prems(4) fit wf(1) by (simp_all add: pbuf_wf_put payload_put)
  have lent: "length (pb_payload t) = pb_len t" using Cons.prems(4) by simp
  have q: "\<not> packet_queue fs"
    using Cons.prems(3) wf(2) by (cases fs; cases "tl fs") (auto simp: packet_queue_def)
  have q1: "\<not> packet_queue [?t]" "\<not> packet_queue []" by (simp_all add: packet_queue_def)
  have step: "pbuf_copy_loop [t] (f # fs) ot 0 =
      (if fs = [] then Ok [?t] else pbuf_copy_loop [?t] fs (ot + pb_len f) 0)"
  proof -
    have "ot + pb_len f = pb_len t \<Longrightarrow> fs = []"
      using Cons.prems(3,6) wf(2,3) by (cases fs) auto
    then show ?thesis
      using fit q q1 by (subst pbuf_copy_loop.simps) (auto simp: Let_def pb_payload_def)
  qed
  show ?case
  proof (cases "fs = []")
    case True
    with step t Cons.prems(5) show ?thesis by simp
  next
    case False
    have "\<forall>p\<in>set (tl fs). 0 < pb_len p" using Cons.prems(3) by (cases fs) auto
    then obtain t' where "pbuf_copy_loop [?t] fs (ot + pb_len f) 0 = Ok [t']" "pbuf_wf t'"
        "pb_len t' = pb_len t" "pb_tot_len t' = pb_len t"
        "pb_payload t' = buf_put (ot + pb_len f) (chain_data fs) (pb_payload ?t)"
      using Cons.IH [of ?t "ot + pb_len f"] False wf t Cons.prems by auto
    moreover have "buf_put (ot + pb_len f) (chain_data fs) (buf_put ot (pb_payload f) (pb_payload t)) =
        buf_put ot (pb_payload f @ chain_data fs) (pb_payload t)"
      using fit wf(1) lent by (simp add: buf_put_def drop_take ac_simps)
    ultimately show ?thesis using step False t(2) by simp
  qed
qed

lemma pbuf_coalesce_ok:
  assumes wf: "chain_wf c" and "c \<noteq> []" and pos: "\<forall>p\<in>set (tl c). 0 < pb_len p"
  shows "pbuf_coalesce e c l = Ok c \<or>
    (\<exists>q. pbuf_coalesce e c l = Ok [q] \<and> chain_wf [q] \<and> chain_data [q] = chain_data c)"
proof (cases "length c = 1 \<or> pbuf_alloc e l (chain_tot c) PBUF_RAM = Ok None")
  case True
  with assms(2) show ?thesis by (auto simp: pbuf_coalesce_def length_Suc_conv split: list.splits)
next
  case False
  have tot: "chain_tot c < 65536" using chain_tot_less [OF wf] .
  from False have ram: "ae_ram e" by (auto simp: pbuf_alloc_def Let_def split: if_splits)
  obtain p p2 ps where c: "c = p # p2 # ps"
    using False assms(2) by (cases c; cases "tl c") auto
  let ?q = "\<lparr>pb_mem = junk_bytes e (layer_offset l + LWIP_MEM_ALIGN_SIZE (pb_tot_len p)),
     pb_off = layer_offset l, pb_tot_len = pb_tot_len p, pb_len = pb_tot_len p,
     pb_type = PBUF_RAM, pb_flags = 0, pb_ref = 1\<rparr>"
  have al: "pbuf_alloc e l (pb_tot_len p) PBUF_RAM = Ok (Some [?q])"
    using ram by (simp add: pbuf_alloc_def Let_def)
  have wq: "pbuf_wf ?q" using align_ge [of "pb_tot_len p"] by (simp add: pbuf_wf_def)
  obtain t where t: "pbuf_copy_loop [?q] c 0 0 = Ok [t]" "pbuf_wf t" "pb_len t = pb_tot_len p"
      "pb_tot_len t = pb_tot_len p" "pb_payload t = buf_put 0 (chain_data c) (pb_payload ?q)"
    using pbuf_copy_single [OF wf assms(2) pos wq, of 0] c by auto
  obtain x where x: "pbuf_free c = Ok x" using pbuf_free_ok wf assms(2) by blast
  have "pbuf_coalesce e c l = Ok [t]"
    using al t(1) x by (simp add: pbuf_coalesce_def pbuf_copy_def c)
  moreover have "pb_payload t = chain_data c"
    using t(5) length_chain_data [OF wf] length_pb_payload [OF wq] c by (simp add: buf_put_def)
  ultimately show ?thesis using t tot c by simp
qed

subsection \<open>Main properties\<close>

text \<open>A two-element chain carrying the bytes 1 to 5, for the concrete instances below.\<close>

definition demo_chain :: chain where
  "demo_chain =
     [\<lparr>pb_mem = [9, 1, 2, 3], pb_off = 1, pb_tot_len = 5, pb_len = 3, pb_type = PBUF_RAM, pb_flags = 0, pb_ref = 1\<rparr>,
      \<lparr>pb_mem = [4, 5, 9, 9], pb_off = 0, pb_tot_len = 2, pb_len = 2, pb_type = PBUF_POOL, pb_flags = 0, pb_ref = 1\<rparr>]"

lemma demo_chain_facts [simp]:
  "chain_wf demo_chain" "demo_chain \<noteq> []" "chain_tot demo_chain = 5" "chain_data demo_chain = [1, 2, 3, 4, 5]"
  by (simp_all add: demo_chain_def pbuf_wf_def pb_payload_def)

text \<open>
  \<^verbatim>\<open>pbuf_alloc\<close> of a pool or RAM pbuf never trips an assertion; when it does not run out of
  memory, the chain it returns satisfies the length invariant, has exactly the requested total
  length and every pbuf is referenced once, whatever the fresh memory holds; and with enough pool
  elements an allocation from the pool succeeds.
\<close>

lemma pbuf_alloc_correct:
  assumes "n < 65536" and "type = PBUF_POOL \<or> type = PBUF_RAM"
  shows "(pbuf_alloc e layer n type = Ok None \<or>
     (\<exists>c. pbuf_alloc e layer n type = Ok (Some c) \<and> c \<noteq> [] \<and> chain_wf c \<and> chain_tot c = n \<and>
         length (chain_data c) = n \<and> (\<forall>p\<in>set c. pb_type p = type \<and> pb_ref p = 1))) \<and>
    (type = PBUF_POOL \<and> n + layer_offset layer \<le> 2048 * ae_pool e \<and> 0 < ae_pool e \<longrightarrow>
      pbuf_alloc e layer n type \<noteq> Ok None)"
  using pbuf_alloc_ok [OF assms, of e layer] pbuf_alloc_enough [OF assms(1), of layer e]
  by (auto simp: length_chain_data)

text \<open>
  C34: what \<^verbatim>\<open>pbuf_take\<close> stores in a chain is what \<^verbatim>\<open>pbuf_copy_partial\<close> reads back, at every
  offset and for every length, and the bytes of the chain behind the stored data are untouched.
\<close>

theorem pbuf_take_copy_partial:
  assumes "chain_wf c" and "c \<noteq> []" and "length data \<le> chain_tot c"
  shows "\<exists>c'. pbuf_take c data = Ok (ERR_OK, c') \<and> chain_wf c' \<and>
    pbuf_copy_partial c' len off = Ok (take len (drop off (data @ drop (length data) (chain_data c))))"
proof -
  obtain c' where c': "pbuf_take_loop c data = Ok c'" "chain_wf c'" "length c' = length c"
      "chain_data c' = data @ drop (length data) (chain_data c)"
    using pbuf_take_loop_ok [OF assms(1,3)] by blast
  have "c' \<noteq> []" using c'(3) assms(2) by auto
  with c' assms show ?thesis
    by (cases c) (auto simp: pbuf_take_def pbuf_copy_partial_def pbuf_copy_partial_loop_data)
qed

theorem pbuf_take_copy_partial_witness:
  "\<exists>c'. pbuf_take demo_chain [10, 11, 12, 13] = Ok (ERR_OK, c') \<and> pbuf_copy_partial c' 3 2 = Ok [12, 13, 5]"
  using pbuf_take_copy_partial [of demo_chain "[10, 11, 12, 13]" 3 2] by (auto simp: numeral_eq_Suc)

text \<open>
  \<^verbatim>\<open>pbuf_realloc\<close> truncates: on every well-formed chain it returns (no assertion fails, the
  walk never runs off the chain), keeps the length invariant and leaves exactly the first
  \<open>new_len\<close> bytes of the packet.
\<close>

lemma pbuf_realloc_truncates:
  assumes "chain_wf c" and "c \<noteq> []"
  shows "\<exists>c'. pbuf_realloc c new_len = Ok c' \<and> chain_wf c' \<and>
    chain_tot c' = min new_len (chain_tot c) \<and> chain_data c' = take new_len (chain_data c)"
  using pbuf_realloc_ok [OF assms, of new_len] by blast

text \<open>
  \<^verbatim>\<open>pbuf_cat\<close> concatenates: the joined chain carries the bytes of the head followed by those
  of the tail and satisfies the length invariant, as long as the total fits a \<^verbatim>\<open>u16_t\<close>.
\<close>

lemma pbuf_cat_concatenates:
  assumes "chain_wf h" and "chain_wf t" and "h \<noteq> []" and "t \<noteq> []"
    and "chain_tot h + chain_tot t < 65536"
  shows "\<exists>c. pbuf_cat h t = Ok c \<and> chain_wf c \<and> chain_data c = chain_data h @ chain_data t"
  using pbuf_cat_ok [OF assms] by blast

text \<open>
  Hiding \<open>n\<close> bytes of header with \<^verbatim>\<open>pbuf_header\<close> removes exactly the first \<open>n\<close> bytes of the
  packet and keeps the length invariant; revealing them again gives back the original pbuf.
\<close>

lemma pbuf_header_roundtrip:
  assumes "chain_wf (p # ps)" and "0 < n" and "n \<le> pb_len p" and "pb_type p = PBUF_RAM \<or> pb_type p = PBUF_POOL"
  shows "\<exists>c'. pbuf_header (p # ps) (- int n) = Ok (0, c') \<and> chain_wf c' \<and>
    chain_data c' = drop n (chain_data (p # ps)) \<and> pbuf_header c' (int n) = Ok (0, p # ps)"
  using pbuf_header_hide [OF assms(1-3)] assms(4) by blast

text \<open>
  Searching a chain with \<^verbatim>\<open>pbuf_memfind\<close> returns the least offset from \<open>start\<close> on at which
  the pattern occurs in the packet, across pbuf boundaries, and \<open>0xFFFF\<close> when there is none.
\<close>

lemma pbuf_memfind_least:
  assumes "chain_wf c" and "c \<noteq> []" and "chain_tot c < 65535" and "pat \<noteq> []"
  shows "\<exists>r. pbuf_memfind c pat start = Ok r \<and>
    (r = 0xFFFF \<and> (\<forall>j\<ge>start. \<not> occurs_at (chain_data c) pat j) \<or>
     r \<noteq> 0xFFFF \<and> start \<le> r \<and> occurs_at (chain_data c) pat r \<and>
       (\<forall>j. start \<le> j \<and> j < r \<longrightarrow> \<not> occurs_at (chain_data c) pat j))"
proof (cases "length pat + start \<le> chain_tot c")
  case True
  define m where "m = chain_tot c - length pat"
  have m: "m + length pat = chain_tot c" "start \<le> Suc m" "m < 65535"
    using True assms(3) by (auto simp: m_def)
  have far: "\<not> occurs_at (chain_data c) pat j" if "m < j" for j
    using that m(1) by (simp add: occurs_at_def length_chain_data [OF assms(1)])
  have "pbuf_memfind c pat start = Ok (pbuf_memfind_loop c pat start m)"
    using True assms(2) by (cases c) (auto simp: pbuf_memfind_def m_def)
  moreover note pbuf_memfind_loop_spec [OF assms(1,3,4) m(1,2)]
  ultimately show ?thesis using far m(3) by (smt (verit) leI less_irrefl order_le_less_trans)
next
  case False
  then have "pbuf_memfind c pat start = Ok 0xFFFF"
    using assms(2) by (cases c) (auto simp: pbuf_memfind_def)
  moreover have "\<not> occurs_at (chain_data c) pat j" if "start \<le> j" for j
    using that False by (simp add: occurs_at_def length_chain_data [OF assms(1)])
  ultimately show ?thesis by blast
qed

text \<open>
  \<^verbatim>\<open>pbuf_memcmp\<close> is documented to return \<open>0xffff\<close> when the pbuf is too short. It does not:
  bytes behind the end of the packet read as 0, so a comparison that runs off the end succeeds when
  the missing bytes are compared with zeros.
\<close>

lemma pbuf_memcmp_past_end:
  assumes "chain_wf c" and "off < chain_tot c" and "chain_tot c + k < 65536"
  shows "pbuf_memcmp c off (drop off (chain_data c) @ replicate k 0) = 0"
proof -
  obtain q s where qs: "pbuf_skip c off = (q, s)" by force
  have q: "chain_wf q" "q \<noteq> []" "drop s (chain_data q) = drop off (chain_data c)"
      "chain_tot q - s = chain_tot c - off" "s < chain_tot q"
    using pbuf_skip_data [OF assms(1) qs] assms(2) by auto
  have loop: "pbuf_memcmp_loop q s i (drop (s + i) (chain_data q) @ replicate k 0) = 0"
    if "s + i \<le> chain_tot q" "chain_tot q + k < 65536" for i k
    using that
  proof (induction "chain_tot q - (s + i)" arbitrary: i)
    case 0
    have "pbuf_memcmp_loop q s i (replicate k 0) = 0" if "chain_tot q \<le> s + i" "s + i + k < 65536" for i
      using that
      by (induction k arbitrary: i) (auto simp: pbuf_get_at_data [OF q(1)])
    with 0 show ?case by (simp add: length_chain_data [OF q(1)])
  next
    case (Suc n)
    have "drop (s + i) (chain_data q) = chain_data q ! (s + i) # drop (s + Suc i) (chain_data q)"
      using Suc by (simp add: Cons_nth_drop_Suc length_chain_data [OF q(1)])
    moreover have "u16_add s i = s + i" using Suc by simp
    ultimately show ?case
      using Suc.hyps(1) [of "Suc i"] Suc.prems Suc.hyps(2)
      by (auto simp: pbuf_get_at_data [OF q(1)])
  qed
  have "chain_tot q \<le> chain_tot c"
    using pbuf_skip_le [OF assms(1) qs] .
  then show ?thesis
    using loop [of 0 k] q assms(3) by (simp add: pbuf_memcmp_def qs)
qed

subsection \<open>The chains a program can build\<close>

text \<open>
  The chains that the operations of the file produce, while the lengths fit their \<^verbatim>\<open>u16_t\<close>
  fields and the references their counter.
\<close>

inductive pbuf_built :: "chain \<Rightarrow> bool" where
  built_alloc: "pbuf_alloc e layer n type = Ok (Some c) \<Longrightarrow> n < 65536 \<Longrightarrow>
    type = PBUF_POOL \<or> type = PBUF_RAM \<Longrightarrow> pbuf_built c"
| built_realloc: "pbuf_built c \<Longrightarrow> pbuf_realloc c n = Ok c' \<Longrightarrow> pbuf_built c'"
| built_header: "pbuf_built c \<Longrightarrow> int (chain_tot c) + k < 65536 \<Longrightarrow> pbuf_header c k = Ok (r, c') \<Longrightarrow>
    pbuf_built c'"
| built_cat: "pbuf_built h \<Longrightarrow> pbuf_built t \<Longrightarrow> chain_tot h + chain_tot t < 65536 \<Longrightarrow>
    pbuf_cat h t = Ok c \<Longrightarrow> pbuf_built c"
| built_chain: "pbuf_built h \<Longrightarrow> pbuf_built t \<Longrightarrow> chain_tot h + chain_tot t < 65536 \<Longrightarrow>
    pb_ref (hd t) < 65535 \<Longrightarrow> pbuf_chain h t = Ok c \<Longrightarrow> pbuf_built c"
| built_take: "pbuf_built c \<Longrightarrow> pbuf_take c data = Ok (err, c') \<Longrightarrow> pbuf_built c'"
| built_coalesce: "pbuf_built c \<Longrightarrow> \<forall>p\<in>set (tl c). 0 < pb_len p \<Longrightarrow> pbuf_coalesce e c layer = Ok c' \<Longrightarrow>
    pbuf_built c'"
| built_free: "pbuf_built c \<Longrightarrow> pbuf_free c = Ok (n, rest) \<Longrightarrow> rest \<noteq> [] \<Longrightarrow> pbuf_built rest"

lemma pbuf_header_wf:
  assumes "chain_wf c" and "int (chain_tot c) + k < 65536" and "pbuf_header c k = Ok (r, c')"
  shows "chain_wf c' \<and> c' \<noteq> []"
proof (cases c)
  case Nil
  then show ?thesis using assms(3) by (simp add: pbuf_header_def)
next
  case (Cons p ps)
  have w: "pbuf_wf p" "pb_tot_len p = pb_len p + chain_tot ps" "pb_tot_len p < 65536" "chain_wf ps"
    using assms(1) Cons by auto
  define q where "q = p\<lparr>pb_off := nat (int (pb_off p) - k), pb_len := nat ((int (pb_len p) + k) mod 65536),
    pb_tot_len := nat ((int (pb_tot_len p) + k) mod 65536)\<rparr>"
  have adj: "chain_wf (q # ps)" if "k \<le> int (pb_off p)" "- k \<le> int (pb_len p)"
  proof -
    have "(int (pb_len p) + k) mod 65536 = int (pb_len p) + k"
      "(int (pb_tot_len p) + k) mod 65536 = int (pb_tot_len p) + k"
      using that(2) w(2,3) assms(2) Cons by simp_all
    then show ?thesis using that w assms(2) Cons by (auto simp: q_def pbuf_wf_def)
  qed
  have "c' = c \<or> c' = q # ps \<and> k \<le> int (pb_off p) \<and> - k \<le> int (pb_len p)"
    using assms(3) by (auto simp: pbuf_header_def Cons Let_def q_def [symmetric] split: if_splits)
  with adj assms(1) Cons show ?thesis by auto
qed

lemma pbuf_ref_wf:
  "chain_wf t \<Longrightarrow> t \<noteq> [] \<Longrightarrow> pb_ref (hd t) < 65535 \<Longrightarrow>
     chain_wf (pbuf_ref t) \<and> chain_tot (pbuf_ref t) = chain_tot t \<and> pbuf_ref t \<noteq> []"
  by (cases t) (auto simp: pbuf_wf_def u16_add_def)

lemma pbuf_free_wf: "chain_wf c \<Longrightarrow> pbuf_free_loop c k = Ok (n, r) \<Longrightarrow> chain_wf r"
  by (induction c k rule: pbuf_free_loop.induct) (auto simp: pbuf_wf_def split: if_splits)

lemma pbuf_take_ok:
  assumes "chain_wf c" and "c \<noteq> []"
  shows "\<exists>err c'. pbuf_take c data = Ok (err, c') \<and> chain_wf c' \<and> c' \<noteq> []"
proof (cases "length data \<le> chain_tot c")
  case True
  then obtain c' where "pbuf_take_loop c data = Ok c'" "chain_wf c'" "length c' = length c"
    using pbuf_take_loop_ok [OF assms(1)] by blast
  with True assms(2) show ?thesis by (auto simp: pbuf_take_def split: list.split)
next
  case False
  with assms show ?thesis by (auto simp: pbuf_take_def split: list.split)
qed

lemma pbuf_built_wf: "pbuf_built c \<Longrightarrow> chain_wf c \<and> c \<noteq> []"
proof (induction rule: pbuf_built.induct)
  case (built_alloc e layer n type c)
  then show ?case using pbuf_alloc_ok [of n type e layer] by auto
next
  case (built_realloc c n c')
  then show ?case using pbuf_realloc_ok [of c n] by auto
next
  case (built_header c k r c')
  then show ?case using pbuf_header_wf by blast
next
  case (built_cat h t c)
  then show ?case using pbuf_cat_ok [of h t] by auto
next
  case (built_chain h t c)
  then show ?case using pbuf_ref_wf [of t] pbuf_cat_ok [of h "pbuf_ref t"] by (auto simp: pbuf_chain_def)
next
  case (built_take c data err c')
  then show ?case using pbuf_take_ok [of c data] by auto
next
  case (built_coalesce c e layer c')
  then show ?case using pbuf_coalesce_ok [of c e layer] by auto
next
  case (built_free c n rest)
  then show ?case using pbuf_free_wf [of c 0 n rest] by (simp add: pbuf_free_def)
qed



end
