(* ===== verification/Dns.thy ===== *)
theory Dns
  imports Lwip_Addr Pbuf_Props
begin

text \<open>
  The DNS client of lwIP, \<^verbatim>\<open>lwip/src/core/dns.c\<close>, as \<^verbatim>\<open>src/lwipopts.h\<close> configures it:
  a table of 128 entries, names of at most 255 characters, two servers, the name check on, no local
  host list.

  The globals of the file are the record \<open>dns\<close>; the client program extends that record with its
  own state, so that a callback can change both. \<open>'f\<close> is the type of callback functions and \<open>'a\<close>
  that of their arguments; \<open>cb f name addr arg\<close> is the effect of calling \<open>f\<close>. Reads outside a
  buffer are \<open>Stop Fault\<close>, failed assertions \<open>Stop Assert\<close>.
\<close>

datatype dns_state = DNS_STATE_UNUSED | DNS_STATE_NEW | DNS_STATE_ASKING | DNS_STATE_DONE

abbreviation (input) DNS_TABLE_SIZE :: nat where "DNS_TABLE_SIZE \<equiv> 128"
abbreviation (input) DNS_MAX_SERVERS :: nat where "DNS_MAX_SERVERS \<equiv> 2"
abbreviation (input) DNS_MAX_NAME_LENGTH :: nat where "DNS_MAX_NAME_LENGTH \<equiv> 256"
abbreviation (input) DNS_MSG_SIZE :: nat where "DNS_MSG_SIZE \<equiv> 512"
abbreviation (input) DNS_MAX_RETRIES :: u8 where "DNS_MAX_RETRIES \<equiv> 4"
abbreviation (input) DNS_MAX_TTL :: u32 where "DNS_MAX_TTL \<equiv> 604800"
abbreviation (input) SIZEOF_DNS_HDR :: nat where "SIZEOF_DNS_HDR \<equiv> 12"
abbreviation (input) SIZEOF_DNS_QUERY :: nat where "SIZEOF_DNS_QUERY \<equiv> 4"
abbreviation (input) SIZEOF_DNS_ANSWER :: nat where "SIZEOF_DNS_ANSWER \<equiv> 10"

text \<open>\<open>dn_name\<close> is the whole 256-byte array, with whatever follows its NUL.\<close>

record ('f, 'a) dns_table_entry =
  dn_state :: dns_state
  dn_numdns :: u8
  dn_tmr :: u8
  dn_retries :: u8
  dn_seqno :: u8
  dn_err :: u8
  dn_ttl :: u32
  dn_name :: bytes
  dn_ipaddr :: ip_addr
  dn_found :: "'f option"
  dn_arg :: "'a option"

text \<open>
  \<open>dns_pcb\<close> says whether the UDP pcb exists, \<open>dns_remote\<close> is the server it was last connected
  to; \<open>dns_payload\<close> is the memory from \<^verbatim>\<open>dns_payload\<close> to the end of the static buffer, 512 to
  515 bytes depending on its alignment; \<open>dns_sent\<close> records the datagrams handed to
  \<^verbatim>\<open>udp_sendto\<close>, oldest first.
\<close>

record ('f, 'a) dns =
  dns_pcb :: bool
  dns_remote :: ip_addr
  dns_seqno :: u8
  dns_table :: "nat \<Rightarrow> ('f, 'a) dns_table_entry"
  dns_servers :: "nat \<Rightarrow> ip_addr"
  dns_payload :: bytes
  dns_sent :: "(ip_addr \<times> bytes) list"

type_synonym ('f, 'a, 'z) dns_cb =
  "'f \<Rightarrow> bytes \<Rightarrow> ip_addr option \<Rightarrow> 'a option \<Rightarrow> ('f, 'a, 'z) dns_scheme \<Rightarrow> ('f, 'a, 'z) dns_scheme res"

text \<open>What the world answers: the memory for the query of entry \<open>i\<close>, and \<^verbatim>\<open>udp_sendto\<close>'s result.\<close>

record dns_env =
  dv_alloc :: "nat \<Rightarrow> alloc_env"
  dv_sendto :: "ip_addr \<Rightarrow> bytes \<Rightarrow> err_t"

definition upd_entry ::
    "nat \<Rightarrow> (('f, 'a) dns_table_entry \<Rightarrow> ('f, 'a) dns_table_entry) \<Rightarrow>
     ('f, 'a, 'z) dns_scheme \<Rightarrow> ('f, 'a, 'z) dns_scheme" where
  "upd_entry i f st = st\<lparr>dns_table := (dns_table st)(i := f (dns_table st i))\<rparr>"

subsection \<open>Servers\<close>

definition dns_setserver :: "nat \<Rightarrow> ip_addr option \<Rightarrow> ('f, 'a, 'z) dns_scheme \<Rightarrow> ('f, 'a, 'z) dns_scheme" where
  "dns_setserver numdns dnsserver st =
     (case dnsserver of
        None \<Rightarrow> st
      | Some a \<Rightarrow> if numdns < DNS_MAX_SERVERS \<and> dns_pcb st \<and> a \<noteq> IPADDR_ANY
                 then st\<lparr>dns_servers := (dns_servers st)(numdns := a)\<rparr> else st)"

definition dns_getserver :: "nat \<Rightarrow> ('f, 'a, 'z) dns_scheme \<Rightarrow> ip_addr" where
  "dns_getserver numdns st = (if numdns < DNS_MAX_SERVERS then dns_servers st numdns else IPADDR_ANY)"

text \<open>\<open>got_pcb\<close>: whether \<^verbatim>\<open>udp_new\<close> returns a pcb.\<close>

definition dns_init :: "bool \<Rightarrow> ('f, 'a, 'z) dns_scheme \<Rightarrow> ('f, 'a, 'z) dns_scheme" where
  "dns_init got_pcb st =
     (let dnsserver = ipaddr_addr (lit ''208.67.222.222'') in
      if \<not> dns_pcb st \<and> got_pcb then dns_setserver 0 (Some dnsserver) (st\<lparr>dns_pcb := True\<rparr>) else st)"

subsection \<open>Names\<close>

definition dns_lookup :: "cstr \<Rightarrow> ('f, 'a, 'z) dns_scheme \<Rightarrow> ip_addr" where
  "dns_lookup name st =
     (case List.find (\<lambda>i. dn_state (dns_table st i) = DNS_STATE_DONE \<and>
                          name = cstr_at (dn_name (dns_table st i))) [0..<DNS_TABLE_SIZE] of
        Some i \<Rightarrow> dn_ipaddr (dns_table st i)
      | None \<Rightarrow> IPADDR_NONE)"

text \<open>The inner loop of \<^verbatim>\<open>dns_compare_name\<close>: None when a byte differs, else the new positions.\<close>

fun dns_compare_label :: "bytes \<Rightarrow> nat \<Rightarrow> bytes \<Rightarrow> nat \<Rightarrow> nat \<Rightarrow> (nat \<times> nat) option res" where
  "dns_compare_label query qi response ri 0 = Ok (Some (qi, ri))"
| "dns_compare_label query qi response ri (Suc n) =
     res_bind (rd query qi) (\<lambda>a. res_bind (rd response ri) (\<lambda>b.
       if a \<noteq> b then Ok None else dns_compare_label query (qi + 1) response (ri + 1) n))"

lemma dns_compare_label_pos:
  "dns_compare_label query qi response ri n = Ok (Some (qi', ri')) \<Longrightarrow> qi' = qi + n \<and> ri' = ri + n"
  by (induction n arbitrary: qi ri) (fastforce split: if_splits)+

function dns_compare_name :: "bytes \<Rightarrow> nat \<Rightarrow> bytes \<Rightarrow> nat \<Rightarrow> nat res" where
  "dns_compare_name query qi response ri =
     res_bind (rd response ri) (\<lambda>n.
       if n AND 0xc0 = 0xc0 then Ok 0
       else res_bind (dns_compare_label query qi response (ri + 1) (unat n)) (\<lambda>r.
         case r of
           None \<Rightarrow> Ok 1
         | Some (qi', ri') \<Rightarrow>
             res_bind (rd response ri') (\<lambda>e.
               if e \<noteq> 0 then dns_compare_name query (qi' + 1) response ri' else Ok 0)))"
  by pat_completeness auto
termination
  by (relation "measure (\<lambda>(query, qi, response, ri). length response - ri)")
    (auto dest!: dns_compare_label_pos simp: rd_Ok_iff)

function dns_parse_name :: "bytes \<Rightarrow> nat \<Rightarrow> nat res" where
  "dns_parse_name query qi =
     res_bind (rd query qi) (\<lambda>n.
       if n AND 0xc0 = 0xc0 then Ok (qi + 1 + 1)
       else res_bind (rd query (qi + 1 + unat n)) (\<lambda>e.
         if e \<noteq> 0 then dns_parse_name query (qi + 1 + unat n) else Ok (qi + 1 + unat n + 1)))"
  by pat_completeness auto
termination
  by (relation "measure (\<lambda>(query, qi). length query - qi)") (auto simp: rd_Ok_iff)

declare dns_compare_name.simps [simp del] dns_parse_name.simps [simp del]

text \<open>The \<^verbatim>\<open>do ... while\<close> loop of \<^verbatim>\<open>dns_send\<close> that writes the name; \<open>46\<close> is the dot.\<close>

function dns_encode :: "cstr \<Rightarrow> bytes" where
  "dns_encode pHostname =
     (let lab = takeWhile (\<lambda>c. c \<noteq> 46) pHostname
      in of_nat (length lab) # lab @
         (case dropWhile (\<lambda>c. c \<noteq> 46) pHostname of [] \<Rightarrow> [0] | _ # s \<Rightarrow> dns_encode s))"
  by pat_completeness auto
termination
proof (relation "measure length")
  fix h x21 and x22 :: cstr
  assume "dropWhile (\<lambda>c. c \<noteq> 46) h = x21 # x22"
  then have "length (x21 # x22) \<le> length h" by (metis length_dropWhile_le)
  then show "(x22, h) \<in> measure length" by simp
qed simp

declare dns_encode.simps [simp del]

subsection \<open>Queries\<close>

definition dns_query_msg :: "nat \<Rightarrow> cstr \<Rightarrow> bytes" where
  "dns_query_msg qid name =
     le16 (lwip_htons (of_nat qid)) @ [0x01, 0] @ le16 (lwip_htons 1) @ replicate 6 0 @
     dns_encode name @ le16 (lwip_htons 1) @ le16 (lwip_htons 1)"

definition dns_send ::
    "dns_env \<Rightarrow> u8 \<Rightarrow> bytes \<Rightarrow> nat \<Rightarrow> ('f, 'a, 'z) dns_scheme \<Rightarrow> (err_t \<times> ('f, 'a, 'z) dns_scheme) res" where
  "dns_send env numdns name qid st =
     (if \<not> unat numdns < DNS_MAX_SERVERS then Stop Assert
      else if dns_servers st (unat numdns) = IPADDR_ANY then Stop Assert
      else res_bind (pbuf_alloc (dv_alloc env qid) PBUF_TRANSPORT
                       (SIZEOF_DNS_HDR + DNS_MAX_NAME_LENGTH + 1 + SIZEOF_DNS_QUERY) PBUF_RAM) (\<lambda>p.
        case p of
          None \<Rightarrow> Ok (ERR_MEM, st)
        | Some [q] \<Rightarrow>
            res_bind (rd_cstr name) (\<lambda>name.
              let msg = dns_query_msg qid name; server = dns_servers st (unat numdns) in
              if pb_off q + length msg > length (pb_mem q) then Stop Fault
              else if length msg > pb_tot_len q then Stop Assert
              else res_bind (pbuf_realloc [pb_put 0 msg q] (length msg)) (\<lambda>c.
                res_bind (pbuf_free c) (\<lambda>_.
                  Ok (dv_sendto env server (chain_data c),
                      st\<lparr>dns_remote := server, dns_sent := dns_sent st @ [(server, chain_data c)]\<rparr>))))
        | Some _ \<Rightarrow> Stop Assert))"

subsection \<open>The table\<close>

definition call_found ::
    "('f, 'a, 'z) dns_cb \<Rightarrow>
     nat \<Rightarrow> ip_addr option \<Rightarrow> ('f, 'a, 'z) dns_scheme \<Rightarrow> ('f, 'a, 'z) dns_scheme res" where
  "call_found cb i addr st =
     (let pEntry = dns_table st i in
      case dn_found pEntry of None \<Rightarrow> Ok st | Some f \<Rightarrow> cb f (dn_name pEntry) addr (dn_arg pEntry) st)"

definition flush_entry :: "nat \<Rightarrow> ('f, 'a, 'z) dns_scheme \<Rightarrow> ('f, 'a, 'z) dns_scheme" where
  "flush_entry i = upd_entry i (\<lambda>e. e\<lparr>dn_state := DNS_STATE_UNUSED, dn_found := None\<rparr>)"

definition dns_check_entry ::
    "('f, 'a, 'z) dns_cb \<Rightarrow>
     dns_env \<Rightarrow> nat \<Rightarrow> ('f, 'a, 'z) dns_scheme \<Rightarrow> ('f, 'a, 'z) dns_scheme res" where
  "dns_check_entry cb env i st =
     (if \<not> i < DNS_TABLE_SIZE then Stop Assert
      else let pEntry = dns_table st i in
      case dn_state pEntry of
        DNS_STATE_NEW \<Rightarrow>
          let st1 = upd_entry i (\<lambda>e. e\<lparr>dn_state := DNS_STATE_ASKING, dn_numdns := 0, dn_tmr := 1, dn_retries := 0\<rparr>) st
          in res_bind (dns_send env 0 (dn_name pEntry) i st1) (\<lambda>(err, st2). Ok st2)
      | DNS_STATE_ASKING \<Rightarrow>
          let st1 = upd_entry i (\<lambda>e. e\<lparr>dn_tmr := dn_tmr e - 1\<rparr>) st in
          if dn_tmr pEntry - 1 \<noteq> 0 then Ok st1
          else
            let st2 = upd_entry i (\<lambda>e. e\<lparr>dn_retries := dn_retries e + 1\<rparr>) st1 in
            if dn_retries pEntry + 1 = DNS_MAX_RETRIES then
              (if unat (dn_numdns pEntry) + 1 < DNS_MAX_SERVERS \<and>
                  dns_servers st (unat (dn_numdns pEntry) + 1) \<noteq> IPADDR_ANY
               then Ok (upd_entry i (\<lambda>e. e\<lparr>dn_numdns := dn_numdns e + 1, dn_tmr := 1, dn_retries := 0\<rparr>) st2)
               else res_bind (call_found cb i None st2) (\<lambda>st3. Ok (flush_entry i st3)))
            else
              let st3 = upd_entry i (\<lambda>e. e\<lparr>dn_tmr := dn_retries e\<rparr>) st2
              in res_bind (dns_send env (dn_numdns pEntry) (dn_name pEntry) i st3) (\<lambda>(err, st4). Ok st4)
      | DNS_STATE_DONE \<Rightarrow>
          if dn_ttl pEntry = 0 then Ok (flush_entry i st)
          else let st1 = upd_entry i (\<lambda>e. e\<lparr>dn_ttl := dn_ttl e - 1\<rparr>) st
               in if dn_ttl pEntry - 1 = 0 then Ok (flush_entry i st1) else Ok st1
      | DNS_STATE_UNUSED \<Rightarrow> Ok st)"

definition dns_check_entries ::
    "('f, 'a, 'z) dns_cb \<Rightarrow>
     dns_env \<Rightarrow> ('f, 'a, 'z) dns_scheme \<Rightarrow> ('f, 'a, 'z) dns_scheme res" where
  "dns_check_entries cb env st = res_fold (dns_check_entry cb env) [0..<DNS_TABLE_SIZE] st"

definition dns_tmr ::
    "('f, 'a, 'z) dns_cb \<Rightarrow>
     dns_env \<Rightarrow> ('f, 'a, 'z) dns_scheme \<Rightarrow> ('f, 'a, 'z) dns_scheme res" where
  "dns_tmr cb env st = (if dns_pcb st then dns_check_entries cb env st else Ok st)"

subsection \<open>Responses\<close>

text \<open>Where \<^verbatim>\<open>dns_recv\<close> jumps to when it has looked at the answers.\<close>

datatype dns_goto = Responseerr | Flushentry | Memerr

text \<open>The \<^verbatim>\<open>while (nanswers > 0)\<close> loop for entry \<open>i\<close>, at position \<open>pos\<close> of the payload.\<close>

fun dns_answers ::
    "('f, 'a, 'z) dns_cb \<Rightarrow>
     nat \<Rightarrow> nat \<Rightarrow> nat \<Rightarrow> ('f, 'a, 'z) dns_scheme \<Rightarrow> (dns_goto \<times> ('f, 'a, 'z) dns_scheme) res" where
  "dns_answers cb i pos 0 st = Ok (Responseerr, st)"
| "dns_answers cb i pos (Suc nanswers) st =
     res_bind (dns_parse_name (dns_payload st) pos) (\<lambda>h.
     res_bind (rdn (dns_payload st) h SIZEOF_DNS_ANSWER) (\<lambda>ans.
       let typ = u16_of (ans ! 0) (ans ! 1); cls = u16_of (ans ! 2) (ans ! 3);
           ttl = u32_of (ans ! 4) (ans ! 5) (ans ! 6) (ans ! 7); len = u16_of (ans ! 8) (ans ! 9)
       in if typ = lwip_htons 1 \<and> cls = lwip_htons 1 \<and> len = lwip_htons 4 then
            res_bind (rdn (dns_payload st) (h + SIZEOF_DNS_ANSWER) 4) (\<lambda>ip.
              let addr = u32_of (ip ! 0) (ip ! 1) (ip ! 2) (ip ! 3);
                  st1 = upd_entry i (\<lambda>e. e\<lparr>dn_ttl := (if lwip_ntohl ttl > DNS_MAX_TTL then DNS_MAX_TTL
                                                       else lwip_ntohl ttl),
                                           dn_ipaddr := addr\<rparr>) st
              in res_bind (call_found cb i (Some addr) st1) (\<lambda>st2.
                   Ok (if dn_ttl (dns_table st2 i) = 0 then Flushentry else Memerr, st2)))
          else dns_answers cb i (h + SIZEOF_DNS_ANSWER + unat (lwip_htons len)) nanswers st))"

definition dns_response ::
    "('f, 'a, 'z) dns_cb \<Rightarrow>
     nat \<Rightarrow> ('f, 'a, 'z) dns_scheme \<Rightarrow> (dns_goto \<times> ('f, 'a, 'z) dns_scheme) res" where
  "dns_response cb i st =
     (let b = dns_payload st; err = b ! 3 AND 0x0f;
          st1 = upd_entry i (\<lambda>e. e\<lparr>dn_state := DNS_STATE_DONE, dn_err := err\<rparr>) st;
          nquestions = lwip_htons (u16_of (b ! 4) (b ! 5));
          nanswers = lwip_htons (u16_of (b ! 6) (b ! 7))
      in if b ! 2 AND 0x80 = 0 \<or> err \<noteq> 0 \<or> nquestions \<noteq> 1 then Ok (Responseerr, st1)
         else res_bind (dns_compare_name (dn_name (dns_table st i)) 0 b SIZEOF_DNS_HDR) (\<lambda>c.
           if c \<noteq> 0 then Ok (Responseerr, st1)
           else res_bind (dns_parse_name b SIZEOF_DNS_HDR) (\<lambda>h.
             dns_answers cb i (h + SIZEOF_DNS_QUERY) (unat nanswers) st1)))"

text \<open>The code behind the labels \<^verbatim>\<open>responseerr\<close> and \<^verbatim>\<open>flushentry\<close>.\<close>

fun dns_finish ::
    "('f, 'a, 'z) dns_cb \<Rightarrow> nat \<Rightarrow> dns_goto \<times> ('f, 'a, 'z) dns_scheme \<Rightarrow> ('f, 'a, 'z) dns_scheme res" where
  "dns_finish cb i (Memerr, st) = Ok st"
| "dns_finish cb i (Flushentry, st) = Ok (flush_entry i st)"
| "dns_finish cb i (Responseerr, st) = res_bind (call_found cb i None st) (\<lambda>st1. Ok (flush_entry i st1))"

definition dns_recv ::
    "('f, 'a, 'z) dns_cb \<Rightarrow>
     chain \<Rightarrow> ('f, 'a, 'z) dns_scheme \<Rightarrow> ('f, 'a, 'z) dns_scheme res" where
  "dns_recv cb p st =
     res_bind
      (if chain_tot p > DNS_MSG_SIZE then Ok st
       else if chain_tot p < SIZEOF_DNS_HDR + SIZEOF_DNS_QUERY + SIZEOF_DNS_ANSWER then Ok st
       else res_bind (pbuf_copy_partial p (chain_tot p) 0) (\<lambda>data.
         let st0 = st\<lparr>dns_payload := buf_put 0 data (dns_payload st)\<rparr>;
             i = unat (lwip_htons (u16_of (dns_payload st0 ! 0) (dns_payload st0 ! 1)))
         in if length data = chain_tot p \<and> i < DNS_TABLE_SIZE \<and>
               dn_state (dns_table st0 i) = DNS_STATE_ASKING
            then res_bind (dns_response cb i st0) (dns_finish cb i)
            else Ok st0))
      (\<lambda>st'. res_bind (pbuf_free p) (\<lambda>_. Ok st'))"

subsection \<open>Resolving a name\<close>

text \<open>
  The search for an unused entry or the oldest completed one; \<open>n\<close> entries from \<open>128 - n\<close> on are
  left. The result is the index the loop stopped at and \<^verbatim>\<open>lseqi\<close>.
\<close>

fun dns_search :: "('f, 'a, 'z) dns_scheme \<Rightarrow> nat \<Rightarrow> u8 \<Rightarrow> nat \<Rightarrow> nat \<times> nat" where
  "dns_search st 0 lseq lseqi = (DNS_TABLE_SIZE, lseqi)"
| "dns_search st (Suc n) lseq lseqi =
     (let i = DNS_TABLE_SIZE - Suc n; pEntry = dns_table st i in
      if dn_state pEntry = DNS_STATE_UNUSED then (i, lseqi)
      else if dn_state pEntry = DNS_STATE_DONE \<and> dns_seqno st - dn_seqno pEntry > lseq
      then dns_search st n (dns_seqno st - dn_seqno pEntry) i
      else dns_search st n lseq lseqi)"

text \<open>The entry is filled in; \<^verbatim>\<open>MEMCPY\<close> and the NUL overwrite the start of the old name.\<close>

definition dns_enqueue ::
    "('f, 'a, 'z) dns_cb \<Rightarrow>
     dns_env \<Rightarrow> cstr \<Rightarrow> 'f option \<Rightarrow> 'a option \<Rightarrow> ('f, 'a, 'z) dns_scheme \<Rightarrow>
     (err_t \<times> ('f, 'a, 'z) dns_scheme) res" where
  "dns_enqueue cb env name found callback_arg st =
     (let (i, lseqi) = dns_search st DNS_TABLE_SIZE 0 0 in
      if i = DNS_TABLE_SIZE \<and> (lseqi \<ge> DNS_TABLE_SIZE \<or> dn_state (dns_table st lseqi) \<noteq> DNS_STATE_DONE)
      then Ok (ERR_MEM, st)
      else
        let i = (if i = DNS_TABLE_SIZE then lseqi else i);
            namelen = min (length name) (DNS_MAX_NAME_LENGTH - 1);
            st1 = upd_entry i (\<lambda>e. e\<lparr>dn_state := DNS_STATE_NEW, dn_seqno := dns_seqno st,
                                     dn_found := found, dn_arg := callback_arg,
                                     dn_name := buf_put 0 (take namelen name @ [0]) (dn_name e)\<rparr>) st;
            st2 = st1\<lparr>dns_seqno := dns_seqno st + 1\<rparr>
        in res_bind (dns_check_entry cb env i st2) (\<lambda>st3. Ok (ERR_INPROGRESS, st3)))"

text \<open>
  The result is the error code, the address stored at \<^verbatim>\<open>addr\<close> if any, and the new state; every
  caller passes the address of a variable as \<^verbatim>\<open>addr\<close>. A NULL \<open>hostname\<close> is None.
\<close>

definition dns_gethostbyname ::
    "('f, 'a, 'z) dns_cb \<Rightarrow>
     dns_env \<Rightarrow> cstr option \<Rightarrow> 'f option \<Rightarrow> 'a option \<Rightarrow> ('f, 'a, 'z) dns_scheme \<Rightarrow>
     (err_t \<times> ip_addr option \<times> ('f, 'a, 'z) dns_scheme) res" where
  "dns_gethostbyname cb env hostname found callback_arg st =
     (case hostname of
        None \<Rightarrow> Ok (ERR_ARG, None, st)
      | Some h \<Rightarrow>
          if \<not> dns_pcb st \<or> h = [] then Ok (ERR_ARG, None, st)
          else if length h \<ge> DNS_MAX_NAME_LENGTH then Ok (ERR_ARG, None, st)
          else
            let ipaddr = ipaddr_addr h;
                ipaddr = (if ipaddr = IPADDR_NONE then dns_lookup h st else ipaddr)
            in if ipaddr \<noteq> IPADDR_NONE then Ok (ERR_OK, Some ipaddr, st)
               else res_bind (dns_enqueue cb env h found callback_arg st) (\<lambda>(err, st1). Ok (err, None, st1)))"

end
