(* ===== verification/Dns_Names.thy ===== *)
theory Dns_Names
  imports Dns
begin

text \<open>
  Encoded host names: what \<^verbatim>\<open>dns_send\<close> writes for a dotted name, and how
  \<^verbatim>\<open>dns_parse_name\<close> and \<^verbatim>\<open>dns_compare_name\<close> read it back.
\<close>

text \<open>The labels of a dotted name.\<close>

fun dns_labels :: "cstr \<Rightarrow> cstr list" where
  "dns_labels [] = [[]]"
| "dns_labels (c # s) =
     (if c = 46 then [] # dns_labels s else (c # hd (dns_labels s)) # tl (dns_labels s))"

definition enc_label :: "cstr \<Rightarrow> bytes" where
  "enc_label l = of_nat (length l) # l"

definition enc_labels :: "cstr list \<Rightarrow> bytes" where
  "enc_labels ls = concat (map enc_label ls) @ [0]"

text \<open>Labels whose length byte does not look like a compression pointer and is not the end mark.\<close>

definition label_ok :: "cstr \<Rightarrow> bool" where
  "label_ok l \<longleftrightarrow> l \<noteq> [] \<and> length l < 192"

lemma dns_labels_neq [simp]: "dns_labels s \<noteq> []"
  by (cases s) auto

lemma dns_labels_unfold:
  "dns_labels s = takeWhile (\<lambda>c. c \<noteq> 46) s #
     (case dropWhile (\<lambda>c. c \<noteq> 46) s of [] \<Rightarrow> [] | _ # t \<Rightarrow> dns_labels t)"
  by (induction s) auto

lemma dns_encode_labels: "dns_encode s = enc_labels (dns_labels s)"
proof (induction s rule: dns_encode.induct)
  case (1 s)
  then show ?case
    by (subst dns_encode.simps, subst dns_labels_unfold, cases "dropWhile (\<lambda>c. c \<noteq> 46) s")
      (simp_all add: Let_def enc_labels_def enc_label_def del: dropWhile_eq_Nil_conv)
qed

lemma sum_dns_labels: "(\<Sum>l\<leftarrow>dns_labels s. Suc (length l)) = Suc (length s)"
proof (induction s)
  case Nil
  then show ?case by simp
next
  case (Cons c s)
  then show ?case by (cases "dns_labels s") auto
qed

lemma length_dns_encode: "length (dns_encode s) = length s + 2"
proof -
  have "map (length \<circ> enc_label) ls = map (\<lambda>l. Suc (length l)) ls" for ls
    by (simp add: enc_label_def)
  then have "sum_list (map (length \<circ> enc_label) (dns_labels s)) = Suc (length s)"
    by (simp only: sum_dns_labels)
  then show ?thesis
    by (simp add: dns_encode_labels enc_labels_def length_concat)
qed

subsection \<open>Length bytes\<close>

lemma pointer_iff: "(n :: u8) AND 0xc0 = 0xc0 \<longleftrightarrow> 192 \<le> unat n"
proof -
  have all: "list_all (\<lambda>k. ((of_nat k :: u8) AND 0xc0 = 0xc0) = (192 \<le> k)) [0..<256]"
    by code_simp
  have "unat n \<in> set [0..<256]" by simp
  with all have "((of_nat (unat n) :: u8) AND 0xc0 = 0xc0) = (192 \<le> unat n)"
    unfolding list_all_iff by (rule bspec)
  then show ?thesis by simp
qed

lemma label_byte:
  assumes "label_ok l"
  shows "unat (of_nat (length l) :: u8) = length l" and "(of_nat (length l) :: u8) AND 0xc0 \<noteq> 0xc0"
    and "(of_nat (length l) :: u8) \<noteq> 0"
proof -
  show u: "unat (of_nat (length l) :: u8) = length l"
    using assms by (simp add: label_ok_def unat_of_nat take_bit_nat_eq_self)
  show "(of_nat (length l) :: u8) AND 0xc0 \<noteq> 0xc0" "(of_nat (length l) :: u8) \<noteq> 0"
    using assms u by (auto simp: pointer_iff label_ok_def unat_eq_0 [symmetric])
qed

text \<open>The byte behind a label is the next length byte or the end mark.\<close>

lemma enc_labels_Cons: "enc_labels (l # ls) = of_nat (length l) # l @ enc_labels ls"
  by (simp add: enc_labels_def enc_label_def)

lemma enc_labels_Nil [simp]: "enc_labels [] = [0]"
  by (simp add: enc_labels_def)

lemma length_enc_labels: "length (enc_labels ls) = Suc (\<Sum>l\<leftarrow>ls. Suc (length l))"
  by (induction ls) (simp_all add: enc_labels_Cons)

lemma hd_enc_labels: "rd (enc_labels ls @ r) 0 = Ok (case ls of [] \<Rightarrow> 0 | l # _ \<Rightarrow> of_nat (length l))"
  by (cases ls) (simp_all add: enc_labels_Cons)

subsection \<open>Skipping a name\<close>

lemma dns_parse_name_labels:
  "ls \<noteq> [] \<Longrightarrow> list_all label_ok ls \<Longrightarrow>
     dns_parse_name (pre @ enc_labels ls @ post) (length pre) = Ok (length pre + length (enc_labels ls))"
proof (induction ls arbitrary: pre)
  case Nil
  then show ?case by simp
next
  case (Cons l ls)
  let ?q = "pre @ of_nat (length l) # l @ enc_labels ls @ post"
  have l: "label_ok l" using Cons.prems by simp
  have "rd ?q (length (pre @ of_nat (length l) # l)) = rd (enc_labels ls @ post) 0"
    using rd_append(2) [of "pre @ of_nat (length l) # l" "enc_labels ls @ post"] by simp
  then have nextb: "rd ?q (Suc (length pre + length l)) = Ok (case ls of [] \<Rightarrow> 0 | l # _ \<Rightarrow> of_nat (length l))"
    by (simp add: hd_enc_labels)
  have here: "rd ?q (length pre) = Ok (of_nat (length l))"
    by simp
  have unf: "dns_parse_name ?q (length pre) =
      (if ls = [] then Ok (length pre + length l + 2)
       else dns_parse_name ?q (length pre + 1 + length l))"
    using label_byte [OF l] Cons.prems(2)
    by (subst dns_parse_name.simps)
      (auto simp: here nextb unsigned_of_nat [symmetric] split: list.splits dest: label_byte(3))
  show ?case
  proof (cases "ls = []")
    case True
    then show ?thesis using unf by (simp add: enc_labels_Cons)
  next
    case False
    have "dns_parse_name ((pre @ of_nat (length l) # l) @ enc_labels ls @ post) (length (pre @ of_nat (length l) # l)) =
        Ok (length (pre @ of_nat (length l) # l) + length (enc_labels ls))"
      by (rule Cons.IH) (use False Cons.prems(2) in simp_all)
    then show ?thesis using unf False by (simp add: enc_labels_Cons)
  qed
qed

lemma dns_parse_name_pointer:
  "192 \<le> unat n \<Longrightarrow> dns_parse_name (pre @ n # post) (length pre) = Ok (length pre + 2)"
  by (subst dns_parse_name.simps) (simp add: pointer_iff)

subsection \<open>Comparing names\<close>

text \<open>
  \<open>label_match q ls\<close>: \<open>q\<close> starts with the labels \<open>ls\<close>, one byte of any value between two labels,
  anything behind the last one.
\<close>

fun label_match :: "bytes \<Rightarrow> cstr list \<Rightarrow> bool" where
  "label_match q [] \<longleftrightarrow> True"
| "label_match q (l # ls) \<longleftrightarrow> take (length l) q = l \<and> label_match (drop (Suc (length l)) q) ls"

lemma dns_compare_label_spec:
  "qi + length l \<le> length q \<Longrightarrow>
     dns_compare_label q qi (pre @ l @ post) (length pre) (length l) =
       Ok (if take (length l) (drop qi q) = l then Some (qi + length l, length pre + length l) else None)"
proof (induction l arbitrary: qi pre)
  case Nil
  then show ?case by simp
next
  case (Cons c l)
  have q: "rd q qi = Ok (q ! qi)" "drop qi q = q ! qi # drop (Suc qi) q"
    using Cons.prems by (simp_all add: rd_def Cons_nth_drop_Suc)
  have "dns_compare_label q (Suc qi) ((pre @ [c]) @ l @ post) (length (pre @ [c])) (length l) =
      Ok (if take (length l) (drop (Suc qi) q) = l then Some (Suc qi + length l, length (pre @ [c]) + length l) else None)"
    using Cons.IH [of "Suc qi" "pre @ [c]"] Cons.prems by simp
  then show ?case using q by simp
qed

lemma dns_compare_name_labels:
  "ls \<noteq> [] \<Longrightarrow> list_all label_ok ls \<Longrightarrow> qi + (\<Sum>l\<leftarrow>ls. Suc (length l)) \<le> Suc (length q) \<Longrightarrow>
     dns_compare_name q qi (pre @ enc_labels ls @ post) (length pre) =
       Ok (if label_match (drop qi q) ls then 0 else 1)"
proof (induction ls arbitrary: qi pre)
  case Nil
  then show ?case by simp
next
  case (Cons l ls)
  let ?r = "pre @ of_nat (length l) # l @ enc_labels ls @ post"
  have l: "label_ok l" using Cons.prems by simp
  have "rd ?r (length (pre @ of_nat (length l) # l)) = rd (enc_labels ls @ post) 0"
    using rd_append(2) [of "pre @ of_nat (length l) # l" "enc_labels ls @ post"] by simp
  then have nextb: "rd ?r (Suc (length pre + length l)) = Ok (case ls of [] \<Rightarrow> 0 | l # _ \<Rightarrow> of_nat (length l))"
    by (simp add: hd_enc_labels)
  have here: "rd ?r (length pre) = Ok (of_nat (length l))"
    by simp
  have lab: "dns_compare_label q qi ?r (Suc (length pre)) (length l) =
      Ok (if take (length l) (drop qi q) = l then Some (qi + length l, Suc (length pre + length l)) else None)"
    using dns_compare_label_spec [of qi l q "pre @ [of_nat (length l)]" "enc_labels ls @ post"] Cons.prems(3)
    by simp
  have unf: "dns_compare_name q qi ?r (length pre) =
      (if take (length l) (drop qi q) \<noteq> l then Ok 1
       else if ls = [] then Ok 0
       else dns_compare_name q (qi + length l + 1) ?r (Suc (length pre + length l)))"
    using label_byte [OF l] Cons.prems(2)
    by (subst dns_compare_name.simps)
      (auto simp: here lab nextb unsigned_of_nat [symmetric] split: list.splits dest: label_byte(3))
  show ?case
  proof (cases "ls = []")
    case True
    then show ?thesis using unf by (simp add: enc_labels_Cons)
  next
    case False
    have "dns_compare_name q (Suc (qi + length l)) ((pre @ of_nat (length l) # l) @ enc_labels ls @ post)
        (length (pre @ of_nat (length l) # l)) = Ok (if label_match (drop (Suc (qi + length l)) q) ls then 0 else 1)"
      by (rule Cons.IH) (use False Cons.prems in simp_all)
    then show ?thesis using unf False by (simp add: enc_labels_Cons add.commute)
  qed
qed

text \<open>A name matches its own labels, whatever follows it in the array.\<close>

lemma label_match_self: "label_match (s @ tail) (dns_labels s)"
proof (induction s rule: dns_encode.induct)
  case (1 s)
  show ?case
  proof (cases "dropWhile (\<lambda>c. c \<noteq> 46) s")
    case Nil
    then have "takeWhile (\<lambda>c. c \<noteq> 46) s = s" by (metis append.right_neutral takeWhile_dropWhile_id)
    with dns_labels_unfold [of s] Nil have "dns_labels s = [s]" by (simp del: dropWhile_eq_Nil_conv)
    then show ?thesis by simp
  next
    case (Cons d t)
    obtain l where l: "takeWhile (\<lambda>c. c \<noteq> 46) s = l" by simp
    have s: "s = l @ d # t" by (metis Cons l takeWhile_dropWhile_id)
    have "dns_labels s = l # dns_labels t" by (subst dns_labels_unfold) (simp add: Cons l)
    moreover have "label_match (t @ tail) (dns_labels t)" using "1" Cons by blast
    ultimately show ?thesis by (simp add: s)
  qed
qed

subsection \<open>Main properties\<close>

text \<open>
  C18: the resolver reads back what it writes. For a host name whose labels are non-empty and
  shorter than 192 bytes, the encoding produced by \<^verbatim>\<open>dns_send\<close> compares equal to the name kept in
  the table, and \<^verbatim>\<open>dns_parse_name\<close> stops exactly behind it, wherever the encoding lies in a
  message; no read leaves the two buffers.
\<close>

theorem dns_name_roundtrip:
  assumes "list_all label_ok (dns_labels name)"
  shows "dns_compare_name (name @ 0 # junk) 0 (pre @ dns_encode name @ post) (length pre) = Ok 0 \<and>
    dns_parse_name (pre @ dns_encode name @ post) (length pre) = Ok (length pre + length name + 2)"
  using dns_compare_name_labels [of "dns_labels name" 0 "name @ 0 # junk" pre post]
    dns_parse_name_labels [of "dns_labels name" pre post] assms label_match_self [of name "0 # junk"]
    length_dns_encode [of name]
  by (simp add: dns_encode_labels sum_dns_labels)

theorem dns_name_roundtrip_witness:
  "dns_compare_name (lit ''vpn.io'' @ 0 # [1, 2]) 0 ([9] @ dns_encode (lit ''vpn.io'') @ [5]) (length [9 :: u8]) = Ok 0 \<and>
   dns_parse_name ([9] @ dns_encode (lit ''vpn.io'') @ [5]) (length [9 :: u8]) = Ok 9"
  using dns_name_roundtrip [of "lit ''vpn.io''" "[1, 2]" "[9]" "[5]"]
  by (simp add: lit_def label_ok_def)

text \<open>
  C20: what \<^verbatim>\<open>dns_compare_name\<close> decides. It answers 0 exactly when the table's name starts with the
  labels of the response, with any byte where a dot should be and anything behind them. Names that
  only begin with the response's labels therefore count as equal, against the comment, which
  promises 1 for names that differ.
\<close>

theorem dns_compare_name_decides:
  assumes "ls \<noteq> []" and "list_all label_ok ls" and "length (enc_labels ls) \<le> length query + 2"
  shows "dns_compare_name query 0 (pre @ enc_labels ls @ post) (length pre) =
    Ok (if label_match query ls then 0 else 1)"
  using dns_compare_name_labels [of ls 0 query pre post] assms by (simp add: length_enc_labels)

theorem dns_compare_name_decides_witness:
  "dns_compare_name (lit ''vpn.example.com'' @ [0]) 0 ([] @ enc_labels [lit ''vpn'', lit ''ex''] @ []) (length ([] :: bytes)) = Ok 0 \<and>
   dns_compare_name (lit ''vpn.example.com'' @ [0]) 0 ([] @ enc_labels [lit ''www''] @ []) (length ([] :: bytes)) = Ok 1"
  using dns_compare_name_decides [of "[lit ''vpn'', lit ''ex'']" "lit ''vpn.example.com'' @ [0]" "[]" "[]"]
    dns_compare_name_decides [of "[lit ''www'']" "lit ''vpn.example.com'' @ [0]" "[]" "[]"]
  by (simp add: lit_def label_ok_def length_enc_labels)

end
