(* ===== verification/Dns_Props.thy ===== *)
theory Dns_Props
  imports Dns_Names
begin

text \<open>
  The resolver's table: its invariant, what a query datagram contains, how answers and timeouts
  reach the callback, and the contract \<open>dns_client\<close> between the resolver and the program that
  registers callbacks with it.
\<close>

subsection \<open>Invariant\<close>

definition entry_wf :: "(nat \<Rightarrow> ip_addr) \<Rightarrow> ('f, 'a) dns_table_entry \<Rightarrow> bool" where
  "entry_wf servers e \<longleftrightarrow>
     length (dn_name e) = 256 \<and> 0 \<in> set (dn_name e) \<and> dn_state e \<noteq> DNS_STATE_NEW \<and>
     (dn_state e = DNS_STATE_ASKING \<longrightarrow> unat (dn_numdns e) < 2 \<and> servers (unat (dn_numdns e)) \<noteq> 0)"

text \<open>The invariant of an initialised resolver.\<close>

definition dns_wf :: "('f, 'a, 'z) dns_scheme \<Rightarrow> bool" where
  "dns_wf st \<longleftrightarrow> dns_pcb st \<and> dns_servers st 0 \<noteq> 0 \<and> 512 \<le> length (dns_payload st) \<and>
     (\<forall>i<128. entry_wf (dns_servers st) (dns_table st i))"

text \<open>The callback and argument an entry will be answered to.\<close>

definition waiter :: "('f, 'a, 'z) dns_scheme \<Rightarrow> nat \<Rightarrow> ('f \<times> 'a option) option" where
  "waiter st i =
     (if i < 128 \<and> dn_state (dns_table st i) = DNS_STATE_ASKING
      then map_option (\<lambda>f. (f, dn_arg (dns_table st i))) (dn_found (dns_table st i)) else None)"

lemma upd_entry_simps [simp]:
  "dns_table (upd_entry i f st) = (dns_table st)(i := f (dns_table st i))"
  "dns_pcb (upd_entry i f st) = dns_pcb st" "dns_servers (upd_entry i f st) = dns_servers st"
  "dns_payload (upd_entry i f st) = dns_payload st" "dns_seqno (upd_entry i f st) = dns_seqno st"
  "dns_sent (upd_entry i f st) = dns_sent st" "dns_remote (upd_entry i f st) = dns_remote st"
  "dns.more (upd_entry i f st) = dns.more st"
  by (simp_all add: upd_entry_def)

lemma flush_entry_simps [simp]:
  "dns_table (flush_entry i st) =
     (dns_table st)(i := (dns_table st i)\<lparr>dn_state := DNS_STATE_UNUSED, dn_found := None\<rparr>)"
  "dns_pcb (flush_entry i st) = dns_pcb st" "dns_servers (flush_entry i st) = dns_servers st"
  "dns_payload (flush_entry i st) = dns_payload st" "dns.more (flush_entry i st) = dns.more st"
  "dns_sent (flush_entry i st) = dns_sent st"
  by (simp_all add: flush_entry_def)

lemma upd_entry_upd [simp]: "upd_entry i g (upd_entry i f st) = upd_entry i (\<lambda>e. g (f e)) st"
  by (simp add: upd_entry_def)

lemma dns_wf_upd:
  "dns_wf st \<Longrightarrow> (i < 128 \<Longrightarrow> entry_wf (dns_servers st) (f (dns_table st i))) \<Longrightarrow> dns_wf (upd_entry i f st)"
  by (auto simp: dns_wf_def)

lemma dns_wf_flush: "dns_wf st \<Longrightarrow> dns_wf (flush_entry i st)"
  by (auto simp: dns_wf_def entry_wf_def)

lemma waiter_upd:
  "waiter (upd_entry i f st) j =
     (if j = i then (if i < 128 \<and> dn_state (f (dns_table st i)) = DNS_STATE_ASKING
        then map_option (\<lambda>g. (g, dn_arg (f (dns_table st i)))) (dn_found (f (dns_table st i))) else None)
      else waiter st j)"
  by (auto simp: waiter_def)

lemma waiter_flush: "waiter (flush_entry i st) = (waiter st)(i := None)"
  by (auto simp: fun_eq_iff waiter_def)

subsection \<open>Queries\<close>

lemma length_le16 [simp]: "length (le16 w) = 2"
  by (simp add: le16_def)

lemma length_le32 [simp]: "length (le32 w) = 4"
  by (simp add: le32_def)

lemma length_dns_query_msg: "length (dns_query_msg qid name) = length name + 18"
  by (simp add: dns_query_msg_def length_dns_encode)

lemma length_cstr_at: "0 \<in> set b \<Longrightarrow> length (cstr_at b) < length b"
proof (induction b)
  case (Cons x b)
  then show ?case by (cases "x = 0") (auto simp: cstr_at_def)
qed simp

lemma dns_send_ok:
  assumes "unat n < 2" and "dns_servers st (unat n) \<noteq> 0" and "length b = 256" and "0 \<in> set b"
  shows "dns_send env n b i st =
    (if ae_ram (dv_alloc env i)
     then Ok (dv_sendto env (dns_servers st (unat n)) (dns_query_msg i (cstr_at b)),
              st\<lparr>dns_remote := dns_servers st (unat n),
                 dns_sent := dns_sent st @ [(dns_servers st (unat n), dns_query_msg i (cstr_at b))]\<rparr>)
     else Ok (ERR_MEM, st))"
proof (cases "ae_ram (dv_alloc env i)")
  case True
  let ?m = "dns_query_msg i (cstr_at b)"
  let ?q = "\<lparr>pb_mem = junk_bytes (dv_alloc env i) (56 + LWIP_MEM_ALIGN_SIZE 273), pb_off = 56,
     pb_tot_len = 273, pb_len = 273, pb_type = PBUF_RAM, pb_flags = 0, pb_ref = 1\<rparr>"
  have al: "pbuf_alloc (dv_alloc env i) PBUF_TRANSPORT 273 PBUF_RAM = Ok (Some [?q])"
    using True by (simp add: pbuf_alloc_def Let_def LWIP_MEM_ALIGN_SIZE_def)
  have len: "length ?m \<le> 273"
    using length_cstr_at [OF assms(4)] assms(3) by (simp add: length_dns_query_msg)
  have wq: "pbuf_wf ?q" by (simp add: pbuf_wf_def LWIP_MEM_ALIGN_SIZE_def)
  have wf: "chain_wf [pb_put 0 ?m ?q]" using pbuf_wf_put [OF wq, of 0 ?m] len by simp
  obtain c where c: "pbuf_realloc [pb_put 0 ?m ?q] (length ?m) = Ok c" "c \<noteq> []" "chain_wf c"
      "chain_data c = take (length ?m) (chain_data [pb_put 0 ?m ?q])"
    using pbuf_realloc_ok [OF wf, of "length ?m"] by auto
  obtain r where r: "pbuf_free c = Ok r" using pbuf_free_ok c by blast
  have "chain_data c = ?m"
    using c(4) payload_put [OF wq, of 0 ?m] len by (simp add: buf_put_def)
  then show ?thesis
    using True assms al c r len
    by (simp add: dns_send_def rd_cstr_def Let_def LWIP_MEM_ALIGN_SIZE_def)
next
  case False
  then show ?thesis using assms by (simp add: dns_send_def pbuf_alloc_def Let_def)
qed

text \<open>Sending keeps the invariant and all entries.\<close>

lemma dns_send_safe:
  assumes "dns_wf st" and "unat n < 2" and "dns_servers st (unat n) \<noteq> 0" and "length b = 256" and "0 \<in> set b"
  shows "\<exists>err st'. dns_send env n b i st = Ok (err, st') \<and> dns_table st' = dns_table st \<and>
    dns_servers st' = dns_servers st \<and> dns_pcb st' = dns_pcb st \<and> dns_payload st' = dns_payload st \<and>
    dns.more st' = dns.more st \<and> dns_wf st' \<and> waiter st' = waiter st"
  using assms(1) by (auto simp: dns_send_ok [OF assms(2-)] dns_wf_def waiter_def fun_eq_iff)

lemma dns_check_entry_new:
  assumes wf: "dns_wf (upd_entry i (\<lambda>e. e\<lparr>dn_state := DNS_STATE_UNUSED\<rparr>) st)" and "i < 128"
    and "dn_state (dns_table st i) = DNS_STATE_NEW"
  shows "\<exists>st'. dns_check_entry cb env i st = Ok st' \<and> dns_wf st' \<and> dns.more st' = dns.more st \<and>
    waiter st' = (waiter st)(i := map_option (\<lambda>f. (f, dn_arg (dns_table st i))) (dn_found (dns_table st i)))"
proof -
  let ?s = "upd_entry i (\<lambda>e. e\<lparr>dn_state := DNS_STATE_ASKING, dn_numdns := 0, dn_tmr := 1, dn_retries := 0\<rparr>) st"
  have nm: "length (dn_name (dns_table st i)) = 256" "0 \<in> set (dn_name (dns_table st i))"
    and srv: "dns_servers st 0 \<noteq> 0"
    using wf assms(2) by (auto simp: dns_wf_def entry_wf_def)
  have "dns_wf ?s"
    using wf assms(2) by (auto simp: dns_wf_def entry_wf_def)
  from dns_send_safe [OF this, of 0 "dn_name (dns_table st i)" env i] nm srv
  obtain err st' where "dns_send env 0 (dn_name (dns_table st i)) i ?s = Ok (err, st')"
      "dns_wf st'" "dns.more st' = dns.more st" "waiter st' = waiter ?s"
    by auto
  moreover have "waiter ?s = (waiter st)(i := map_option (\<lambda>f. (f, dn_arg (dns_table st i))) (dn_found (dns_table st i)))"
    using assms(2) by (auto simp: fun_eq_iff waiter_upd)
  ultimately show ?thesis
    using assms(2,3) by (simp add: dns_check_entry_def Let_def)
qed

subsection \<open>Enqueueing\<close>

lemma dns_search_spec:
  "n \<le> 128 \<Longrightarrow> lseqi < 128 \<Longrightarrow> dns_search st n lseq lseqi = (i, l) \<Longrightarrow>
     i \<le> 128 \<and> l < 128 \<and> (i < 128 \<longrightarrow> dn_state (dns_table st i) = DNS_STATE_UNUSED)"
  by (induction st n lseq lseqi rule: dns_search.induct) (auto simp: Let_def split: if_splits)

lemma dns_enqueue_cases:
  assumes wf: "dns_wf st" and "length name < 256"
  shows "dns_enqueue cb env name found arg st = Ok (ERR_MEM, st) \<or>
    (\<exists>j st'. dns_enqueue cb env name found arg st = Ok (ERR_INPROGRESS, st') \<and> j < 128 \<and>
       waiter st j = None \<and> dns_wf st' \<and> dns.more st' = dns.more st \<and>
       waiter st' = (waiter st)(j := map_option (\<lambda>f. (f, arg)) found))"
proof -
  obtain i0 l where s: "dns_search st 128 0 0 = (i0, l)" by force
  have b: "i0 \<le> 128" "l < 128" "i0 < 128 \<longrightarrow> dn_state (dns_table st i0) = DNS_STATE_UNUSED"
    using dns_search_spec [OF _ _ s] by auto
  show ?thesis
  proof (cases "i0 = 128 \<and> dn_state (dns_table st l) \<noteq> DNS_STATE_DONE")
    case True
    then show ?thesis by (simp add: dns_enqueue_def s)
  next
    case False
    define j where "j = (if i0 = 128 then l else i0)"
    have j: "j < 128" "dn_state (dns_table st j) \<noteq> DNS_STATE_ASKING"
      using b False by (auto simp: j_def)
    let ?s = "(upd_entry j (\<lambda>e. e\<lparr>dn_state := DNS_STATE_NEW, dn_seqno := dns_seqno st,
        dn_found := found, dn_arg := arg, dn_name := buf_put 0 (name @ [0]) (dn_name e)\<rparr>) st)
        \<lparr>dns_seqno := dns_seqno st + 1\<rparr>"
    have "length (dn_name (dns_table st j)) = 256" using wf j(1) by (simp add: dns_wf_def entry_wf_def)
    then have "dns_wf (upd_entry j (\<lambda>e. e\<lparr>dn_state := DNS_STATE_UNUSED\<rparr>) ?s)"
      using wf assms(2) by (auto simp: dns_wf_def entry_wf_def upd_entry_def buf_put_def)
    from dns_check_entry_new [OF this j(1)]
    obtain st' where st': "dns_check_entry cb env j ?s = Ok st'" "dns_wf st'" "dns.more st' = dns.more st"
        "waiter st' = (waiter ?s)(j := map_option (\<lambda>f. (f, arg)) found)"
      by (auto simp: upd_entry_def)
    have "(waiter ?s)(j := x) = (waiter st)(j := x)" for x
      by (auto simp: fun_eq_iff waiter_def upd_entry_def)
    moreover have "dns_enqueue cb env name found arg st = Ok (ERR_INPROGRESS, st')"
      using st'(1) False assms(2) b(2) by (auto simp: dns_enqueue_def s Let_def j_def [symmetric])
    ultimately show ?thesis
      using st' j by (auto simp: waiter_def)
  qed
qed

lemma dns_gethostbyname_cases:
  assumes wf: "dns_wf st"
  shows "(\<exists>err. err \<noteq> ERR_OK \<and> err \<noteq> ERR_INPROGRESS \<and>
      dns_gethostbyname cb env h found arg st = Ok (err, None, st)) \<or>
    (\<exists>a. dns_gethostbyname cb env h found arg st = Ok (ERR_OK, Some a, st)) \<or>
    (\<exists>j st'. dns_gethostbyname cb env h found arg st = Ok (ERR_INPROGRESS, None, st') \<and> j < 128 \<and>
       waiter st j = None \<and> dns_wf st' \<and> dns.more st' = dns.more st \<and>
       waiter st' = (waiter st)(j := map_option (\<lambda>f. (f, arg)) found))"
proof (cases h)
  case None
  then show ?thesis by (auto simp: dns_gethostbyname_def)
next
  case (Some n)
  show ?thesis
  proof (cases "length n < 256")
    case True
    from dns_enqueue_cases [OF wf True, of cb env found arg] show ?thesis
      unfolding dns_gethostbyname_def by (auto simp: Some Let_def split: if_splits)
  qed (auto simp: dns_gethostbyname_def Some)
qed

subsection \<open>The contract with the client\<close>

text \<open>
  A client keeps an invariant \<open>cinv w st\<close> of its own state, given the callbacks \<open>w\<close> that are still
  to come. It may not depend on the resolver's fields, it survives when a callback is forgotten, and
  every callback the resolver makes, on a resolver that satisfies its own invariant, re-establishes
  both invariants. On failure the resolver drops entry \<open>i\<close> after the call.
\<close>

definition client_ok ::
    "((nat \<Rightarrow> ('f \<times> 'a option) option) \<Rightarrow> ('f, 'a, 'z) dns_scheme \<Rightarrow> bool) \<Rightarrow> ('f, 'a, 'z) dns_scheme \<Rightarrow> bool" where
  "client_ok cinv st \<longleftrightarrow> dns_wf st \<and> cinv (waiter st) st"

locale dns_client =
  fixes cb :: "('f, 'a, 'z) dns_cb"
    and cinv :: "(nat \<Rightarrow> ('f \<times> 'a option) option) \<Rightarrow> ('f, 'a, 'z) dns_scheme \<Rightarrow> bool"
  assumes cinv_frame: "cinv w st \<Longrightarrow> dns.more st' = dns.more st \<Longrightarrow> cinv w st'"
    and cinv_forget: "cinv w st \<Longrightarrow> (\<And>i. w' i = None \<or> w' i = w i) \<Longrightarrow> cinv w' st"
    and cb_safe: "dns_wf st \<Longrightarrow> i < 128 \<Longrightarrow> cinv ((waiter st)(i := Some (f, a))) st \<Longrightarrow>
      addr = None \<or> waiter st i = None \<Longrightarrow>
      res_safe (\<lambda>st'. dns_wf st' \<and> cinv (if addr = None then (waiter st')(i := None) else waiter st') st')
        (cb f name addr a st)"
begin

abbreviation ok :: "('f, 'a, 'z) dns_scheme \<Rightarrow> bool" where
  "ok \<equiv> client_ok cinv"

lemma okI: "dns_wf st' \<Longrightarrow> cinv w st \<Longrightarrow> dns.more st' = dns.more st \<Longrightarrow>
    (\<And>i. waiter st' i = None \<or> waiter st' i = w i) \<Longrightarrow> ok st'"
  unfolding client_ok_def using cinv_frame cinv_forget by blast

lemma flush_ok: "dns_wf st \<Longrightarrow> cinv ((waiter st)(i := None)) st \<Longrightarrow> ok (flush_entry i st)"
  by (rule okI [of _ "(waiter st)(i := None)" st]) (auto simp: dns_wf_flush waiter_flush)

lemma forget_ok: "ok st \<Longrightarrow> ok (flush_entry i st)"
  by (rule flush_ok) (auto simp: client_ok_def elim!: cinv_forget)

text \<open>A failed lookup: the callback, then the entry is dropped.\<close>

lemma fail_ok:
  assumes "dns_wf st" and "i < 128"
    and "\<And>f. dn_found (dns_table st i) = Some f \<Longrightarrow> cinv ((waiter st)(i := Some (f, dn_arg (dns_table st i)))) st"
    and "dn_found (dns_table st i) = None \<Longrightarrow> cinv (waiter st) st"
  shows "res_safe ok (res_bind (call_found cb i None st) (\<lambda>st'. Ok (flush_entry i st')))"
proof (cases "dn_found (dns_table st i)")
  case None
  have "cinv ((waiter st)(i := None)) st" using assms(4) [OF None] by (rule cinv_forget) simp
  then show ?thesis using None assms(1) by (simp add: call_found_def flush_ok)
next
  case (Some f)
  have "res_safe (\<lambda>st'. dns_wf st' \<and> cinv ((waiter st')(i := None)) st')
      (cb f (dn_name (dns_table st i)) None (dn_arg (dns_table st i)) st)"
    using cb_safe [OF assms(1,2) assms(3) [OF Some], of None] by simp
  then show ?thesis
    using Some by (auto simp: call_found_def Let_def intro: flush_ok elim!: res_safe_mono)
qed

lemma send_ok:
  assumes "dns_wf st" and "cinv (waiter st) st" and "unat n < 2" and "dns_servers st (unat n) \<noteq> 0"
    and "length b = 256" and "0 \<in> set b"
  shows "res_safe ok (res_bind (dns_send env n b i st) (\<lambda>(err, st'). Ok st'))"
  using dns_send_safe [OF assms(1,3-), of env i] assms(2) cinv_frame [of "waiter st" st]
  by (fastforce simp: client_ok_def)

lemma check_entry_ok:
  assumes ok: "ok st" and i: "i < 128"
  shows "res_safe ok (dns_check_entry cb env i st)"
proof -
  let ?e = "dns_table st i"
  have wf: "dns_wf st" and cinv: "cinv (waiter st) st" using ok by (auto simp: client_ok_def)
  have e: "entry_wf (dns_servers st) ?e" using wf i by (simp add: dns_wf_def)
  have upd: "ok (upd_entry i g st)"
    if "entry_wf (dns_servers st) (g ?e)" "dn_found (g ?e) = dn_found ?e" "dn_arg (g ?e) = dn_arg ?e"
      "dn_state (g ?e) = dn_state ?e" for g
    by (rule okI [OF _ cinv]) (use that wf i in \<open>auto simp: waiter_upd dns_wf_upd waiter_def\<close>)
  show ?thesis
  proof (cases "dn_state ?e")
    case DNS_STATE_ASKING
    then have srv: "unat (dn_numdns ?e) < 2" "dns_servers st (unat (dn_numdns ?e)) \<noteq> 0"
      and nm: "length (dn_name ?e) = 256" "0 \<in> set (dn_name ?e)"
      using e by (auto simp: entry_wf_def)
    let ?tick = "\<lambda>e. e\<lparr>dn_tmr := dn_tmr e - 1, dn_retries := dn_retries e + 1\<rparr>"
    have wait: "waiter (upd_entry i ?tick st) = waiter st"
      using DNS_STATE_ASKING by (auto simp: fun_eq_iff waiter_upd) (auto simp: waiter_def)
    have tick: "dns_wf (upd_entry i ?tick st)" "cinv (waiter st) (upd_entry i ?tick st)"
      using wf e cinv_frame [OF cinv] by (auto simp: dns_wf_upd entry_wf_def)
    have fail: "res_safe ok (res_bind (call_found cb i None (upd_entry i ?tick st)) (\<lambda>st'. Ok (flush_entry i st')))"
    proof (rule fail_ok [OF tick(1) i])
      fix f assume "dn_found (dns_table (upd_entry i ?tick st) i) = Some f"
      then have "(waiter st)(i := Some (f, dn_arg ?e)) = waiter st"
        using DNS_STATE_ASKING i by (auto simp: fun_eq_iff waiter_def)
      then show "cinv ((waiter (upd_entry i ?tick st))(i := Some (f, dn_arg (dns_table (upd_entry i ?tick st) i)))) (upd_entry i ?tick st)"
        using tick(2) by (simp add: wait)
    qed (use tick(2) wait in simp)
    have "res_safe ok (res_bind (dns_send env (dn_numdns ?e) (dn_name ?e) i
        (upd_entry i (\<lambda>e. e\<lparr>dn_retries := dn_retries e + 1, dn_tmr := dn_retries e + 1\<rparr>) st)) (\<lambda>(err, st'). Ok st'))"
      (is "res_safe ok (res_bind (dns_send _ _ _ _ ?s) _)")
    proof (rule send_ok)
      have "ok ?s" by (rule upd) (use e in \<open>auto simp: entry_wf_def\<close>)
      then show "dns_wf ?s" "cinv (waiter ?s) ?s" by (auto simp: client_ok_def)
    qed (use srv nm in auto)
    moreover have "ok (upd_entry i (\<lambda>e. e\<lparr>dn_tmr := dn_tmr e - 1\<rparr>) st)"
      by (rule upd) (use e in \<open>auto simp: entry_wf_def\<close>)
    moreover have "ok (upd_entry i (\<lambda>e. e\<lparr>dn_numdns := dn_numdns e + 1, dn_tmr := 1, dn_retries := 0\<rparr>) st)"
      if "unat (dn_numdns ?e) = 0" "dns_servers st 1 \<noteq> 0"
      by (rule upd) (use e that in \<open>auto simp: entry_wf_def unat_eq_0\<close>)
    ultimately show ?thesis
      using fail i DNS_STATE_ASKING by (auto simp: dns_check_entry_def Let_def)
  next
    case DNS_STATE_DONE
    have "ok (upd_entry i (\<lambda>e. e\<lparr>dn_ttl := dn_ttl e - 1\<rparr>) st)"
      by (rule upd) (use e in \<open>auto simp: entry_wf_def\<close>)
    then show ?thesis
      using DNS_STATE_DONE ok i by (auto simp: dns_check_entry_def Let_def forget_ok)
  qed (use e ok i in \<open>auto simp: dns_check_entry_def entry_wf_def\<close>)
qed

lemma tmr_ok: "ok st \<Longrightarrow> res_safe ok (dns_tmr cb env st)"
  unfolding dns_tmr_def dns_check_entries_def
  by (auto intro!: res_fold_safe check_entry_ok)

text \<open>An answer: the entry is completed before the callback is made.\<close>

lemma answers_ok:
  assumes "dns_wf st" and "i < 128" and "waiter st i = None"
    and "\<And>f. dn_found (dns_table st i) = Some f \<Longrightarrow> cinv ((waiter st)(i := Some (f, dn_arg (dns_table st i)))) st"
    and "cinv (waiter st) st" and "dn_state (dns_table st i) = DNS_STATE_DONE"
  shows "res_all (\<lambda>(go, st').
      case go of Responseerr \<Rightarrow> st' = st | _ \<Rightarrow> ok st') (dns_answers cb i pos n st)"
proof (induction n arbitrary: pos)
  case 0
  then show ?case by simp
next
  case (Suc n)
  have "res_all (\<lambda>st2. ok st2) (call_found cb i (Some addr)
      (upd_entry i (\<lambda>e. e\<lparr>dn_ttl := ttl, dn_ipaddr := addr\<rparr>) st))" (is "res_all _ (call_found _ _ _ ?s)") for addr ttl
  proof -
    have wf: "dns_wf ?s" using assms(1,6) by (auto simp: dns_wf_def entry_wf_def)
    have w: "waiter ?s = waiter st" using assms(6) by (auto simp: fun_eq_iff waiter_upd waiter_def)
    show ?thesis
    proof (cases "dn_found (dns_table st i)")
      case None
      then show ?thesis using wf w cinv_frame [OF assms(5)] by (simp add: call_found_def client_ok_def)
    next
      case (Some f)
      have "cinv ((waiter ?s)(i := Some (f, dn_arg (dns_table st i)))) ?s"
        using cinv_frame [OF assms(4) [OF Some]] by (simp add: w)
      from cb_safe [OF wf assms(2) this, of "Some addr"] show ?thesis
        using Some w assms(3) by (auto simp: call_found_def Let_def client_ok_def intro: res_safe_all)
    qed
  qed
  then have hit: "res_all (\<lambda>st2. case (if dn_ttl (dns_table st2 i) = 0 then Flushentry else Memerr, st2) of
        (go, st') \<Rightarrow> (case go of Responseerr \<Rightarrow> st' = st | _ \<Rightarrow> ok st'))
      (call_found cb i (Some addr) (upd_entry i (\<lambda>e. e\<lparr>dn_ttl := ttl, dn_ipaddr := addr\<rparr>) st))" for addr ttl
    by (rule res_all_mono) simp
  show ?case
    unfolding dns_answers.simps Let_def res_all_bind
    by (rule res_allI, rule res_allI, split if_split, intro conjI impI)
      (simp only: res_all_bind res_all.simps, rule res_allI, rule hit, rule Suc)
qed

lemma recv_ok:
  assumes ok: "ok st" and p: "chain_wf p" "p \<noteq> []"
  shows "res_all ok (dns_recv cb p st)"
proof -
  let ?s0 = "st\<lparr>dns_payload := buf_put 0 (chain_data p) (dns_payload st)\<rparr>"
  have done_ok: "ok ?s0" if "chain_tot p \<le> 512"
    by (rule okI [of _ "waiter st" st])
      (use ok that length_chain_data [OF p(1)] in \<open>auto simp: client_ok_def dns_wf_def waiter_def\<close>)
  have resp: "res_all ok (res_bind (dns_response cb i s0) (dns_finish cb i))"
    if s0: "ok s0" and i: "i < 128" "dn_state (dns_table s0 i) = DNS_STATE_ASKING" for s0 i
  proof -
    let ?s1 = "\<lambda>x. upd_entry i (\<lambda>e. e\<lparr>dn_state := DNS_STATE_DONE, dn_err := x\<rparr>) s0"
    let ?post = "\<lambda>x. res_all ok (dns_finish cb i x)"
    have wf: "dns_wf s0" and cinv: "cinv (waiter s0) s0" using s0 by (auto simp: client_ok_def)
    have wf1: "dns_wf (?s1 x)" for x using wf by (auto simp: dns_wf_def entry_wf_def)
    have w1: "waiter (?s1 x) = (waiter s0)(i := None)" for x by (auto simp: fun_eq_iff waiter_upd)
    have none1: "waiter (?s1 x) i = None" for x by (simp add: w1)
    have cinv1: "cinv (waiter (?s1 x)) (?s1 x)" for x
      using cinv_forget [OF cinv_frame [OF cinv]] by (simp add: w1)
    have found1: "cinv ((waiter (?s1 x))(i := Some (f, dn_arg (dns_table (?s1 x) i)))) (?s1 x)"
      if "dn_found (dns_table (?s1 x) i) = Some f" for x f
    proof -
      have "(waiter (?s1 x))(i := Some (f, dn_arg (dns_table (?s1 x) i))) = waiter s0"
        using that i by (auto simp: w1 fun_eq_iff waiter_def)
      then show ?thesis using cinv_frame [OF cinv] by simp
    qed
    have fail: "?post (Responseerr, ?s1 x)" for x
      using res_safe_all [OF fail_ok [OF wf1 i(1) found1 cinv1]] by simp
    have "res_all ?post (dns_answers cb i pos n (?s1 x))" for pos n x
    proof (rule res_all_mono [OF answers_ok [OF wf1 i(1) none1 found1 cinv1]])
      fix y assume "case y of (go, st') \<Rightarrow> (case go of Responseerr \<Rightarrow> st' = ?s1 x | _ \<Rightarrow> ok st')"
      then show "?post y"
        using fail [of x] by (cases y; cases "fst y") (auto simp: forget_ok)
    qed simp_all
    then show ?thesis using fail by (simp add: dns_response_def Let_def)
  qed
  show ?thesis
    unfolding dns_recv_def
  proof (subst res_all_bind, rule res_all_mono [of ok])
    fix st' assume "ok st'"
    then show "res_all ok (res_bind (pbuf_free p) (\<lambda>_. Ok st'))" by simp
  qed (use ok done_ok resp p in \<open>auto simp: Let_def pbuf_copy_partial_def
        pbuf_copy_partial_loop_data length_chain_data simp del: res_all_bind\<close>)
qed

end

end
