(* ===== verification/Dns_Answers.thy ===== *)
theory Dns_Answers
  imports Dns_Props
begin

text \<open>
  What the resolver does with complete messages: an answer with an address record reaches the
  callback and the cache, a query without answers is retried and given up after seven seconds per
  server, and a malformed answer makes it read behind its buffer.
\<close>

subsection \<open>Messages\<close>

text \<open>A response header with one question and \<open>n\<close> answers, and a resource record for the question's name.\<close>

definition reply_hdr :: "nat \<Rightarrow> nat \<Rightarrow> bytes" where
  "reply_hdr i n = le16 (lwip_htons (of_nat i)) @ [0x81, 0x80] @ le16 (lwip_htons 1) @
     le16 (lwip_htons (of_nat n)) @ [0, 0, 0, 0]"

definition rr_hdr :: "u16 \<Rightarrow> u16 \<Rightarrow> u32 \<Rightarrow> u16 \<Rightarrow> bytes" where
  "rr_hdr typ cls ttl len =
     le16 (lwip_htons typ) @ le16 (lwip_htons cls) @ le32 (lwip_htonl ttl) @ le16 (lwip_htons len)"

fun rr :: "u16 \<times> u16 \<times> u32 \<times> bytes \<Rightarrow> bytes" where
  "rr (typ, cls, ttl, rdata) = [0xc0, 0x0c] @ rr_hdr typ cls ttl (of_nat (length rdata)) @ rdata"

fun is_addr_rr :: "u16 \<times> u16 \<times> u32 \<times> bytes \<Rightarrow> bool" where
  "is_addr_rr (typ, cls, ttl, rdata) \<longleftrightarrow> typ = 1 \<and> cls = 1 \<and> length rdata = 4"

lemma length_rr_hdr [simp]: "length (rr_hdr t c ttl len) = 10"
  by (simp add: rr_hdr_def)

lemma length_reply_hdr [simp]: "length (reply_hdr i n) = 12"
  by (simp add: reply_hdr_def)

lemma htons_eq_iff: "lwip_htons a = lwip_htons b \<longleftrightarrow> a = b"
  by (metis lwip_htons_invol)

lemma rr_hdr_fields:
  "u16_of (rr_hdr t c ttl len ! 0) (rr_hdr t c ttl len ! Suc 0) = lwip_htons t"
  "u16_of (rr_hdr t c ttl len ! 2) (rr_hdr t c ttl len ! 3) = lwip_htons c"
  "u32_of (rr_hdr t c ttl len ! 4) (rr_hdr t c ttl len ! 5) (rr_hdr t c ttl len ! 6) (rr_hdr t c ttl len ! 7) = lwip_htonl ttl"
  "u16_of (rr_hdr t c ttl len ! 8) (rr_hdr t c ttl len ! 9) = lwip_htons len"
  by (simp_all add: rr_hdr_def le16_def le32_def)

subsection \<open>Walking the answers\<close>

declare dns_answers.simps(2) [simp del]

lemma dns_answers_rr:
  assumes "dns_payload st = pre @ [0xc0, 0x0c] @ rr_hdr t c ttl len @ post"
  shows "dns_answers cb i (length pre) (Suc n) st =
    (if t = 1 \<and> c = 1 \<and> len = 4 then
       res_bind (rdn post 0 4) (\<lambda>ip.
         let addr = u32_of (ip ! 0) (ip ! 1) (ip ! 2) (ip ! 3)
         in res_bind (call_found cb i (Some addr)
                (upd_entry i (\<lambda>e. e\<lparr>dn_ttl := (if ttl > 604800 then 604800 else ttl), dn_ipaddr := addr\<rparr>) st))
              (\<lambda>st2. Ok (if dn_ttl (dns_table st2 i) = 0 then Flushentry else Memerr, st2)))
     else dns_answers cb i (length pre + 12 + unat len) n st)"
proof -
  have p: "dns_parse_name (dns_payload st) (length pre) = Ok (length pre + 2)"
    using dns_parse_name_pointer [of "0xc0" pre "0x0c # rr_hdr t c ttl len @ post"] assms by simp
  have h: "rdn (dns_payload st) (length pre + 2) 10 = Ok (rr_hdr t c ttl len)"
    by (simp add: assms rdn_def)
  have d: "rdn (dns_payload st) (length pre + 2 + 10) k = rdn post 0 k" for k
    by (simp add: assms rdn_def)
  show ?thesis
    by (simp only: dns_answers.simps p h d res_bind.simps Let_def One_nat_def rr_hdr_fields htons_eq_iff
        lwip_htons_invol lwip_ntohl_def lwip_htonl_invol)
      (simp add: ac_simps)
qed

lemma dns_answers_skip:
  "list_all (\<lambda>r. \<not> is_addr_rr r) rs \<Longrightarrow> dns_payload st = pre @ concat (map rr rs) @ post \<Longrightarrow>
     length (concat (map rr rs)) < 65536 \<Longrightarrow>
     dns_answers cb i (length pre) (length rs + n) st =
       dns_answers cb i (length pre + length (concat (map rr rs))) n st"
proof (induction rs arbitrary: pre)
  case Nil
  then show ?case by simp
next
  case (Cons r rs)
  obtain t c ttl d where r: "r = (t, c, ttl, d)" by (cases r)
  have len: "length d < 65536" using Cons.prems(3) by (simp add: r)
  then have u: "unat (of_nat (length d) :: u16) = length d"
    by (simp add: unat_of_nat take_bit_nat_eq_self)
  then have four: "of_nat (length d) = (4 :: u16) \<longleftrightarrow> length d = 4"
    by (auto simp: word_unat_eq_iff simp del: unsigned_of_nat)
  have "dns_payload st = pre @ [0xc0, 0x0c] @ rr_hdr t c ttl (of_nat (length d)) @
      (d @ concat (map rr rs) @ post)"
    using Cons.prems(2) by (simp add: r)
  note pay = this
  have no: "\<not> (t = 1 \<and> c = 1 \<and> (of_nat (length d) :: u16) = 4)"
    using Cons.prems(1) four by (auto simp: r)
  have "dns_answers cb i (length pre) (Suc (length rs + n)) st =
      dns_answers cb i (length pre + 12 + length d) (length rs + n) st"
    unfolding dns_answers_rr [OF pay] if_not_P [OF no] u ..
  moreover have "dns_answers cb i (length (pre @ rr r)) (length rs + n) st =
      dns_answers cb i (length (pre @ rr r) + length (concat (map rr rs))) n st"
    by (rule Cons.IH) (use Cons.prems in simp_all)
  ultimately show ?case by (simp add: r ac_simps)
qed

lemma reply_hdr_fields:
  assumes "b = reply_hdr i n @ r" and "i < 128" and "n < 65536"
  shows "unat (lwip_htons (u16_of (b ! 0) (b ! 1))) = i" "b ! 2 = 0x81" "b ! 3 = 0x80"
    "lwip_htons (u16_of (b ! 4) (b ! 5)) = 1" "unat (lwip_htons (u16_of (b ! 6) (b ! 7))) = n"
proof -
  have "b ! 0 = byte_of 0 (lwip_htons (of_nat i))" "b ! 1 = byte_of (Suc 0) (lwip_htons (of_nat i))"
    "b ! 4 = byte_of 0 (lwip_htons 1)" "b ! 5 = byte_of (Suc 0) (lwip_htons 1)"
    "b ! 6 = byte_of 0 (lwip_htons (of_nat n))" "b ! 7 = byte_of (Suc 0) (lwip_htons (of_nat n))"
    by (simp_all add: assms(1) reply_hdr_def le16_def)
  then show "unat (lwip_htons (u16_of (b ! 0) (b ! 1))) = i" "b ! 2 = 0x81" "b ! 3 = 0x80"
    "lwip_htons (u16_of (b ! 4) (b ! 5)) = 1" "unat (lwip_htons (u16_of (b ! 6) (b ! 7))) = n"
    using assms(2,3) by (simp_all add: assms(1) reply_hdr_def le16_def unat_of_nat take_bit_nat_eq_self)
qed

text \<open>
  The common part of every response for a pending entry \<open>i\<close>: size checks, header, question. The
  answers \<open>as\<close> start behind the question.
\<close>

lemma dns_recv_question:
  assumes "dns_wf st" and "i < 128" and "n < 65536"
    and "dn_state (dns_table st i) = DNS_STATE_ASKING" and "dn_name (dns_table st i) = name @ 0 # junk"
    and "list_all label_ok (dns_labels name)"
    and "chain_wf p" and "p \<noteq> []" and "chain_tot p \<le> 512" and "26 \<le> chain_tot p"
    and data: "chain_data p = reply_hdr i n @ dns_encode name @ [0, 1, 0, 1] @ as"
  shows "\<exists>pre. dns_recv cb p st = res_bind (dns_answers cb i (length pre) n
      (upd_entry i (\<lambda>e. e\<lparr>dn_state := DNS_STATE_DONE, dn_err := 0\<rparr>)
        (st\<lparr>dns_payload := pre @ as @ drop (chain_tot p) (dns_payload st)\<rparr>))) (dns_finish cb i)"
proof -
  let ?pre = "reply_hdr i n @ dns_encode name @ [0, 1, 0, 1]"
  let ?post = "[0, 1, 0, 1] @ as @ drop (chain_tot p) (dns_payload st)"
  obtain b where b: "buf_put 0 (chain_data p) (dns_payload st) = b" by simp
  have bb: "b = reply_hdr i n @ dns_encode name @ ?post"
    using length_chain_data [OF assms(7)] b by (simp add: buf_put_def data)
  have f: "dns_compare_name (name @ 0 # junk) 0 b 12 = Ok 0" "dns_parse_name b 12 = Ok (12 + length name + 2)"
    using dns_compare_name_labels [of "dns_labels name" 0 "name @ 0 # junk" "reply_hdr i n" ?post]
      dns_parse_name_labels [of "dns_labels name" "reply_hdr i n" ?post] assms(6) label_match_self [of name "0 # junk"]
      length_dns_encode [of name]
    by (simp_all add: bb dns_encode_labels sum_dns_labels)
  note hdr = reply_hdr_fields [OF bb assms(2,3), simplified]
  have len: "12 + length name + 2 + 4 = length ?pre" by (simp add: length_dns_encode)
  have resp: "dns_response cb i (st\<lparr>dns_payload := b\<rparr>) = dns_answers cb i (length ?pre) n
      (upd_entry i (\<lambda>e. e\<lparr>dn_state := DNS_STATE_DONE, dn_err := 0\<rparr>) (st\<lparr>dns_payload := b\<rparr>))"
    unfolding dns_response_def len [symmetric] by (simp add: Let_def hdr f assms(5))
  have "dns_recv cb p st = res_bind (dns_response cb i (st\<lparr>dns_payload := b\<rparr>)) (dns_finish cb i)"
    using assms(2,4,7-10) b hdr(1) pbuf_free_ok [OF assms(7,8)]
    by (auto simp: dns_recv_def pbuf_copy_partial_def pbuf_copy_partial_loop_data length_chain_data
        Let_def res_bind_assoc)
  then show ?thesis using bb resp by (intro exI [of _ ?pre]) simp
qed

subsection \<open>Retries\<close>

lemma dns_check_entry_wait:
  assumes "i < 128" and "dn_state (dns_table st i) = DNS_STATE_ASKING" and "dn_tmr (dns_table st i) \<noteq> 1"
  shows "dns_check_entry cb env i st = Ok (upd_entry i (\<lambda>e. e\<lparr>dn_tmr := dn_tmr e - 1\<rparr>) st)"
  using assms by (simp add: dns_check_entry_def Let_def)

text \<open>A query is repeated: one more datagram, if there is memory for it.\<close>

definition resent :: "dns_env \<Rightarrow> nat \<Rightarrow> ('f, 'a, 'z) dns_scheme \<Rightarrow> ('f, 'a, 'z) dns_scheme" where
  "resent env i st =
     (let e = dns_table st i; server = dns_servers st (unat (dn_numdns e)) in
      if ae_ram (dv_alloc env i)
      then st\<lparr>dns_remote := server, dns_sent := dns_sent st @ [(server, dns_query_msg i (cstr_at (dn_name e)))]\<rparr>
      else st)"

lemma dns_check_entry_retry:
  assumes "dns_wf st" and "i < 128" and "dn_state (dns_table st i) = DNS_STATE_ASKING"
    and "dn_tmr (dns_table st i) = 1" and "dn_retries (dns_table st i) \<noteq> 3"
  shows "dns_check_entry cb env i st =
    Ok (resent env i (upd_entry i (\<lambda>e. e\<lparr>dn_retries := dn_retries e + 1, dn_tmr := dn_retries e + 1\<rparr>) st))"
proof -
  have "unat (dn_numdns (dns_table st i)) < 2" "dns_servers st (unat (dn_numdns (dns_table st i))) \<noteq> 0"
    "length (dn_name (dns_table st i)) = 256" "0 \<in> set (dn_name (dns_table st i))"
    using assms by (auto simp: dns_wf_def entry_wf_def)
  then show ?thesis
    using assms(2-) by (simp add: dns_check_entry_def Let_def dns_send_ok resent_def)
qed

lemma dns_check_entry_give_up:
  assumes "i < 128" and "dn_state (dns_table st i) = DNS_STATE_ASKING" and "dn_tmr (dns_table st i) = 1"
    and "dn_retries (dns_table st i) = 3"
    and "unat (dn_numdns (dns_table st i)) \<noteq> 0 \<or> dns_servers st 1 = 0"
  shows "dns_check_entry cb env i st =
    res_bind (call_found cb i None (upd_entry i (\<lambda>e. e\<lparr>dn_tmr := 0, dn_retries := 4\<rparr>) st))
      (\<lambda>st'. Ok (flush_entry i st'))"
  using assms by (auto simp: dns_check_entry_def Let_def upd_entry_def)

lemma dns_check_entry_next_server:
  assumes "i < 128" and "dn_state (dns_table st i) = DNS_STATE_ASKING" and "dn_tmr (dns_table st i) = 1"
    and "dn_retries (dns_table st i) = 3"
    and "unat (dn_numdns (dns_table st i)) = 0" and "dns_servers st 1 \<noteq> 0"
  shows "dns_check_entry cb env i st =
    Ok (upd_entry i (\<lambda>e. e\<lparr>dn_numdns := dn_numdns e + 1, dn_tmr := 1, dn_retries := 0\<rparr>) st)"
  using assms by (auto simp: dns_check_entry_def Let_def)

text \<open>\<open>st\<close> with the counters of entry \<open>i\<close> at \<open>t\<close> and \<open>r\<close> after \<open>k\<close> repetitions.\<close>

definition asked ::
    "dns_env \<Rightarrow> nat \<Rightarrow> ('f, 'a, 'z) dns_scheme \<Rightarrow> nat \<Rightarrow> u8 \<Rightarrow> u8 \<Rightarrow> ('f, 'a, 'z) dns_scheme \<Rightarrow> bool" where
  "asked env i st k t r s \<longleftrightarrow>
     dns_table s = (dns_table st)(i := (dns_table st i)\<lparr>dn_tmr := t, dn_retries := r\<rparr>) \<and>
     dns_servers s = dns_servers st \<and> dns_pcb s = dns_pcb st \<and> dns_payload s = dns_payload st \<and>
     dns.more s = dns.more st \<and>
     dns_sent s = dns_sent st @ (if ae_ram (dv_alloc env i)
       then replicate k (dns_servers st (unat (dn_numdns (dns_table st i))), dns_query_msg i (cstr_at (dn_name (dns_table st i))))
       else [])"

lemma asked_wf: "asked env i st k t r s \<Longrightarrow> dns_wf st \<Longrightarrow> dns_wf s"
  by (auto simp: asked_def dns_wf_def entry_wf_def)

lemma asked_retry:
  assumes "asked env i st k 1 r s" and "dns_wf st" and "i < 128"
    and "dn_state (dns_table st i) = DNS_STATE_ASKING" and "r \<noteq> 3"
  shows "\<exists>s'. dns_check_entry cb env i s = Ok s' \<and> asked env i st (Suc k) (r + 1) (r + 1) s'"
proof -
  have "dns_check_entry cb env i s =
      Ok (resent env i (upd_entry i (\<lambda>e. e\<lparr>dn_retries := dn_retries e + 1, dn_tmr := dn_retries e + 1\<rparr>) s))"
    by (rule dns_check_entry_retry) (use asked_wf [OF assms(1,2)] assms in \<open>auto simp: asked_def\<close>)
  then show ?thesis
    using assms(1) by (auto simp: asked_def resent_def Let_def replicate_append_same)
qed

lemma asked_wait:
  assumes "asked env i st k t r s" and "i < 128"
    and "dn_state (dns_table st i) = DNS_STATE_ASKING" and "t \<noteq> 1"
  shows "\<exists>s'. dns_check_entry cb env i s = Ok s' \<and> asked env i st k (t - 1) r s'"
  using assms by (subst dns_check_entry_wait) (auto simp: asked_def)

subsection \<open>A concrete resolver\<close>

text \<open>Entry 0 has just asked server \<open>10.0.0.1\<close> for \<^verbatim>\<open>vpn.io\<close>; the other entries are unused.\<close>

definition idle_entry :: "('f, 'a) dns_table_entry" where
  "idle_entry = \<lparr>dn_state = DNS_STATE_UNUSED, dn_numdns = 0, dn_tmr = 0, dn_retries = 0, dn_seqno = 0, dn_err = 0,
     dn_ttl = 0, dn_name = replicate 256 0, dn_ipaddr = 0, dn_found = None, dn_arg = None\<rparr>"

definition demo_dns :: "(unit, nat) dns" where
  "demo_dns = \<lparr>dns_pcb = True, dns_remote = 0, dns_seqno = 1,
     dns_table = (\<lambda>i. idle_entry)(0 := idle_entry\<lparr>dn_state := DNS_STATE_ASKING, dn_tmr := 1,
       dn_name := lit ''vpn.io'' @ 0 # replicate 249 0, dn_found := Some (), dn_arg := Some 7\<rparr>),
     dns_servers = (\<lambda>i. 0)(0 := u32_of 10 0 0 1), dns_payload = replicate 512 0, dns_sent = []\<rparr>"

definition demo_env :: dns_env where
  "demo_env = \<lparr>dv_alloc = (\<lambda>i. \<lparr>ae_pool = 8, ae_ram = True, ae_pbuf = True, ae_junk = (\<lambda>_. 0)\<rparr>),
     dv_sendto = (\<lambda>_ _. ERR_OK)\<rparr>"

lemma demo_dns_facts:
  "dns_wf demo_dns" "dn_state (dns_table demo_dns 0) = DNS_STATE_ASKING" "dn_tmr (dns_table demo_dns 0) = 1"
  "dn_retries (dns_table demo_dns 0) = 0" "dns_servers demo_dns (Suc 0) = 0" "length (dns_payload demo_dns) = 512"
  "dn_name (dns_table demo_dns 0) = lit ''vpn.io'' @ 0 # replicate 249 0"
  "dn_found (dns_table demo_dns 0) = Some ()" "dn_arg (dns_table demo_dns 0) = Some 7"
  "dns_servers demo_dns 0 = u32_of 10 0 0 1" "dn_numdns (dns_table demo_dns 0) = 0"
  by (simp_all add: demo_dns_def dns_wf_def entry_wf_def idle_entry_def u32_of_eq_0 lit_def)

lemma demo_name: "list_all label_ok (dns_labels (lit ''vpn.io''))"
  by (simp add: lit_def label_ok_def)

subsection \<open>Main properties\<close>

text \<open>
  C17: a query that is not answered ends. From the moment it was sent, seven calls of
  \<^verbatim>\<open>dns_check_entry\<close> (one a second) repeat it three times and then, when there is no further server
  to ask, call the callback with a NULL address and free the entry.
\<close>

theorem dns_query_gives_up:
  assumes "dns_wf st" and "i < 128" and "dn_state (dns_table st i) = DNS_STATE_ASKING"
    and "dn_tmr (dns_table st i) = 1" and "dn_retries (dns_table st i) = 0"
    and "unat (dn_numdns (dns_table st i)) \<noteq> 0 \<or> dns_servers st 1 = 0"
  shows "\<exists>st'. asked env i st 3 0 4 st' \<and>
    res_fold (dns_check_entry cb env) [i, i, i, i, i, i, i] st =
      res_bind (call_found cb i None st') (\<lambda>s. Ok (flush_entry i s))"
proof -
  note retry = asked_retry [OF _ assms(1-3)] and wait = asked_wait [OF _ assms(2,3)]
  have "(dns_table st i)\<lparr>dn_tmr := 1, dn_retries := 0\<rparr> = dns_table st i"
    using assms(4,5) by (cases "dns_table st i") simp
  then have "asked env i st 0 1 0 st" by (simp add: asked_def)
  from retry [OF this] obtain s1 where 1: "dns_check_entry cb env i st = Ok s1" "asked env i st 1 1 1 s1" by auto
  from retry [OF 1(2)] obtain s2 where 2: "dns_check_entry cb env i s1 = Ok s2" "asked env i st 2 2 2 s2"
    by (auto simp: numeral_2_eq_2)
  from wait [OF 2(2)] obtain s3 where 3: "dns_check_entry cb env i s2 = Ok s3" "asked env i st 2 1 2 s3" by auto
  from retry [OF 3(2)] obtain s4 where 4: "dns_check_entry cb env i s3 = Ok s4" "asked env i st 3 3 3 s4"
    by (auto simp: numeral_3_eq_3)
  from wait [OF 4(2)] obtain s5 where 5: "dns_check_entry cb env i s4 = Ok s5" "asked env i st 3 2 3 s5" by auto
  from wait [OF 5(2)] obtain s6 where 6: "dns_check_entry cb env i s5 = Ok s6" "asked env i st 3 1 3 s6" by auto
  let ?s = "upd_entry i (\<lambda>e. e\<lparr>dn_tmr := 0, dn_retries := 4\<rparr>) s6"
  have "dns_check_entry cb env i s6 = res_bind (call_found cb i None ?s) (\<lambda>s. Ok (flush_entry i s))"
    by (rule dns_check_entry_give_up) (use assms 6(2) in \<open>auto simp: asked_def\<close>)
  moreover have "asked env i st 3 0 4 ?s" using 6(2) by (simp add: asked_def)
  ultimately show ?thesis using 1 2 3 4 5 6 by (intro exI [of _ ?s]) (simp add: res_bind_assoc)
qed

theorem dns_query_gives_up_witness:
  "\<exists>st'. asked demo_env 0 demo_dns 3 0 4 st' \<and>
    res_fold (dns_check_entry (\<lambda>f name addr arg st. Ok (st\<lparr>dns_seqno := 99\<rparr>)) demo_env) [0, 0, 0, 0, 0, 0, 0] demo_dns =
      Ok (flush_entry 0 (st'\<lparr>dns_seqno := 99\<rparr>))"
proof -
  let ?cb = "\<lambda>f name addr arg st. Ok (st\<lparr>dns_seqno := 99\<rparr>)"
  obtain st' where st': "asked demo_env 0 demo_dns 3 0 4 st'"
      "res_fold (dns_check_entry ?cb demo_env) [0, 0, 0, 0, 0, 0, 0] demo_dns =
        res_bind (call_found ?cb 0 None st') (\<lambda>s. Ok (flush_entry 0 s))"
    using dns_query_gives_up [of demo_dns 0 demo_env ?cb] by (auto simp: demo_dns_facts)
  then have "dn_found (dns_table st' 0) = Some ()" by (simp add: asked_def demo_dns_facts)
  with st' show ?thesis by (auto simp: call_found_def)
qed

text \<open>
  C16: an answer reaches the program that asked. A response to the query of a pending entry \<open>i\<close> that
  repeats the question and has an address record for it, behind any number of records of other
  kinds, calls the entry's callback with exactly that address, after the entry was completed with
  the address and the record's TTL (at most a week); the entry is dropped at once when its TTL is 0.
\<close>

theorem dns_recv_answer:
  assumes "dns_wf st" and "i < 128"
    and "dn_state (dns_table st i) = DNS_STATE_ASKING" and "dn_name (dns_table st i) = name @ 0 # junk"
    and "list_all label_ok (dns_labels name)"
    and "chain_wf p" and "p \<noteq> []" and "chain_tot p \<le> 512"
    and data: "chain_data p = reply_hdr i (Suc (length rs)) @ dns_encode name @ [0, 1, 0, 1] @
      concat (map rr rs) @ rr (1, 1, ttl, le32 addr) @ post"
    and "list_all (\<lambda>r. \<not> is_addr_rr r) rs"
  shows "\<exists>st1. dns_recv cb p st = res_bind (call_found cb i (Some addr) st1)
        (\<lambda>st2. Ok (if dn_ttl (dns_table st2 i) = 0 then flush_entry i st2 else st2)) \<and>
      dns.more st1 = dns.more st \<and>
      dns_table st1 = (dns_table st)(i := (dns_table st i)\<lparr>dn_state := DNS_STATE_DONE, dn_err := 0,
        dn_ttl := (if ttl > 604800 then 604800 else ttl), dn_ipaddr := addr\<rparr>)"
proof -
  let ?as = "concat (map rr rs) @ rr (1, 1, ttl, le32 addr) @ post"
  have len: "length (concat (map rr rs)) + 34 \<le> chain_tot p"
    using arg_cong [OF data, of length] length_chain_data [OF assms(6)] by (simp add: length_dns_encode)
  have "length rs \<le> length (concat (map rr rs))" by (induction rs) auto
  then have n: "Suc (length rs) < 65536" using len assms(8) by simp
  obtain pre where pre: "dns_recv cb p st = res_bind (dns_answers cb i (length pre) (Suc (length rs))
      (upd_entry i (\<lambda>e. e\<lparr>dn_state := DNS_STATE_DONE, dn_err := 0\<rparr>)
        (st\<lparr>dns_payload := pre @ ?as @ drop (chain_tot p) (dns_payload st)\<rparr>))) (dns_finish cb i)"
      (is "_ = res_bind (dns_answers cb i _ _ ?s) _")
    using dns_recv_question [OF assms(1,2) n assms(3-8) _ data] len by auto
  have "dns_answers cb i (length pre) (length rs + 1) ?s =
      dns_answers cb i (length pre + length (concat (map rr rs))) 1 ?s"
    by (rule dns_answers_skip) (use assms(8,10) len in simp_all)
  also have "\<dots> = res_bind (call_found cb i (Some addr)
      (upd_entry i (\<lambda>e. e\<lparr>dn_ttl := (if ttl > 604800 then 604800 else ttl), dn_ipaddr := addr\<rparr>) ?s))
      (\<lambda>st2. Ok (if dn_ttl (dns_table st2 i) = 0 then Flushentry else Memerr, st2))"
    using dns_answers_rr [of ?s "pre @ concat (map rr rs)" 1 1 ttl 4 "le32 addr @ post @ drop (chain_tot p) (dns_payload st)" cb i 0]
    by (simp add: rdn_def le32_def)
  finally show ?thesis
    using pre by (intro exI [of _ "upd_entry i (\<lambda>e. e\<lparr>dn_ttl := (if ttl > 604800 then 604800 else ttl), dn_ipaddr := addr\<rparr>) ?s"])
      (auto simp: res_bind_assoc intro!: arg_cong2 [of _ _ _ _ res_bind])
qed

text \<open>A packet in one pbuf.\<close>

definition packet :: "bytes \<Rightarrow> chain" where
  "packet d = [\<lparr>pb_mem = d, pb_off = 0, pb_tot_len = length d, pb_len = length d, pb_type = PBUF_POOL, pb_flags = 0, pb_ref = 1\<rparr>]"

lemma packet_facts [simp]:
  "packet d \<noteq> []" "chain_tot (packet d) = length d" "chain_data (packet d) = d"
  "length d < 65536 \<Longrightarrow> chain_wf (packet d)"
  by (simp_all add: packet_def pbuf_wf_def pb_payload_def)

theorem dns_recv_answer_witness:
  "\<exists>st1. dns_recv (\<lambda>f name addr arg st. Ok (st\<lparr>dns_remote := the addr\<rparr>))
       (packet (reply_hdr 0 2 @ dns_encode (lit ''vpn.io'') @ [0, 1, 0, 1] @ rr (5, 1, 60, [1, 2]) @
          rr (1, 1, 60, le32 0x01020304))) demo_dns = Ok st1 \<and>
     dns_remote st1 = 0x01020304 \<and> dn_state (dns_table st1 0) = DNS_STATE_DONE"
proof -
  let ?cb = "\<lambda>f name addr arg st. Ok (st\<lparr>dns_remote := the addr\<rparr>)"
  let ?p = "packet (reply_hdr 0 (Suc (length [(5 :: u16, 1 :: u16, 60 :: u32, [1, 2 :: u8])])) @
    dns_encode (lit ''vpn.io'') @ [0, 1, 0, 1] @ concat (map rr [(5, 1, 60, [1, 2])]) @ rr (1, 1, 60, le32 0x01020304) @ [])"
  have len: "chain_tot ?p \<le> 512" by (simp add: length_dns_encode lit_def)
  then have wf: "chain_wf ?p" by simp
  obtain st1 where st1: "dns_recv ?cb ?p demo_dns = res_bind (call_found ?cb 0 (Some 0x01020304) st1)
        (\<lambda>st2. Ok (if dn_ttl (dns_table st2 0) = 0 then flush_entry 0 st2 else st2))"
      "dns_table st1 = (dns_table demo_dns)(0 := (dns_table demo_dns 0)\<lparr>dn_state := DNS_STATE_DONE, dn_err := 0,
        dn_ttl := (if (60 :: u32) > 604800 then 604800 else 60), dn_ipaddr := 0x01020304\<rparr>)"
    using dns_recv_answer [OF demo_dns_facts(1) _ demo_dns_facts(2,7) demo_name wf _ len packet_facts(3), of ?cb]
    by auto
  then show ?thesis by (simp add: call_found_def demo_dns_facts numeral_2_eq_2 [symmetric])
qed

text \<open>
  C19: the answers are walked without looking at the end of the message. A response of the right
  entry whose first record claims 65535 bytes of data and that announces a second record makes
  \<^verbatim>\<open>dns_recv\<close> read behind the static receive buffer.
\<close>

theorem dns_recv_overread:
  assumes "dns_wf st" and "i < 128" and "length (dns_payload st) \<le> 515"
    and "dn_state (dns_table st i) = DNS_STATE_ASKING" and "dn_name (dns_table st i) = name @ 0 # junk"
    and "list_all label_ok (dns_labels name)"
    and "chain_wf p" and "p \<noteq> []" and "chain_tot p \<le> 512"
    and data: "chain_data p = reply_hdr i 2 @ dns_encode name @ [0, 1, 0, 1] @ [0xc0, 0x0c] @ rr_hdr typ cls ttl 0xffff"
  shows "dns_recv cb p st = Stop Fault"
proof -
  let ?as = "[0xc0, 0x0c] @ rr_hdr typ cls ttl 0xffff"
  have len: "chain_tot p = length name + 30"
    using arg_cong [OF data, of length] length_chain_data [OF assms(7)] by (simp add: length_dns_encode)
  obtain pre where pre: "dns_recv cb p st = res_bind (dns_answers cb i (length pre) 2
      (upd_entry i (\<lambda>e. e\<lparr>dn_state := DNS_STATE_DONE, dn_err := 0\<rparr>)
        (st\<lparr>dns_payload := pre @ ?as @ drop (chain_tot p) (dns_payload st)\<rparr>))) (dns_finish cb i)"
      (is "_ = res_bind (dns_answers cb i _ _ ?s) _")
    using dns_recv_question [OF assms(1,2) _ assms(4-9) _ data] len by auto
  have far: "rd (dns_payload ?s) (length pre + 12 + unat (0xffff :: u16)) = Stop Fault"
    using assms(3) len by (simp add: rd_def)
  have "dns_answers cb i (length pre) (Suc 1) ?s = dns_answers cb i (length pre + 12 + unat (0xffff :: u16)) 1 ?s"
    by (subst dns_answers_rr [of ?s pre "typ" cls ttl "0xffff"]) simp_all
  also have "\<dots> = Stop Fault"
    unfolding One_nat_def dns_answers.simps(2) by (subst dns_parse_name.simps, subst far) simp
  finally show ?thesis using pre by (simp add: numeral_2_eq_2)
qed

theorem dns_recv_overread_witness:
  "dns_recv (\<lambda>f name addr arg st. Ok st) (packet (reply_hdr 0 2 @ dns_encode (lit ''vpn.io'') @ [0, 1, 0, 1] @
      [0xc0, 0x0c] @ rr_hdr 16 1 0 0xffff)) demo_dns = Stop Fault"
proof -
  let ?p = "packet (reply_hdr 0 2 @ dns_encode (lit ''vpn.io'') @ [0, 1, 0, 1] @ [0xc0, 0x0c] @ rr_hdr 16 1 0 0xffff)"
  have len: "chain_tot ?p \<le> 512" by (simp add: length_dns_encode lit_def)
  then have wf: "chain_wf ?p" by simp
  show ?thesis
    using dns_recv_overread [OF demo_dns_facts(1) _ _ demo_dns_facts(2,7) demo_name wf _ len packet_facts(3)]
    by (simp add: demo_dns_facts)
qed

end
