(* ===== verification/Mem.thy ===== *)
theory Mem
  imports Pbuf
begin

text \<open>
  The heap of lwIP, \<^verbatim>\<open>lwip/src/core/mem.c\<close>, which also stands behind the pools of \<^verbatim>\<open>memp.h\<close>, because
  \<^verbatim>\<open>src/lwipopts.h\<close> sets \<^verbatim>\<open>MEMP_MEM_MALLOC\<close>. The heap is its bytes: a \<^verbatim>\<open>struct mem\<close> is read from and
  written to them at an offset, and an access behind the array is a \<open>Fault\<close>. A pointer is its
  distance from \<^verbatim>\<open>ram\<close>; \<^verbatim>\<open>mem_size_t\<close> has 32 bits and its arithmetic wraps around. The mutex is
  left out, because the program has one thread.
\<close>

unbundle bit_operations_syntax

subsection \<open>Sizes\<close>

definition u32_add :: "nat \<Rightarrow> nat \<Rightarrow> nat" where "u32_add a b = (a + b) mod 2 ^ 32"

definition u32_sub :: "nat \<Rightarrow> nat \<Rightarrow> nat" where "u32_sub a b = (a + 2 ^ 32 - b mod 2 ^ 32) mod 2 ^ 32"

text \<open>\<^verbatim>\<open>LWIP_MEM_ALIGN_SIZE\<close> on a \<^verbatim>\<open>mem_size_t\<close>.\<close>

definition mem_align :: "nat \<Rightarrow> nat" where "mem_align n = u32_add n 3 div 4 * 4"

text \<open>The header has two words and a byte.\<close>

definition SIZEOF_STRUCT_MEM :: nat where "SIZEOF_STRUCT_MEM = LWIP_MEM_ALIGN_SIZE 12"

definition MIN_SIZE_ALIGNED :: nat where "MIN_SIZE_ALIGNED = LWIP_MEM_ALIGN_SIZE 12"

definition MEM_SIZE_ALIGNED :: nat where "MEM_SIZE_ALIGNED = LWIP_MEM_ALIGN_SIZE 1024000"

text \<open>What the array behind \<^verbatim>\<open>ram\<close> holds at least, whatever its alignment.\<close>

definition ram_size :: nat where "ram_size = MEM_SIZE_ALIGNED + 2 * SIZEOF_STRUCT_MEM"

subsection \<open>The heap\<close>

record mem =
  mem_next :: nat
  mem_prev :: nat
  mem_used :: u8

record heap =
  ram :: "nat \<Rightarrow> u8"
  lfree :: nat
  hs_avail :: nat
  hs_used :: nat
  hs_max :: nat
  hs_err :: nat

definition get32 :: "nat \<Rightarrow> (nat \<Rightarrow> u8) \<Rightarrow> nat" where
  "get32 i r = unat (u32_of (r i) (r (i + 1)) (r (i + 2)) (r (i + 3)))"

definition put32 :: "nat \<Rightarrow> nat \<Rightarrow> (nat \<Rightarrow> u8) \<Rightarrow> nat \<Rightarrow> u8" where
  "put32 i v r = (let w = of_nat v :: u32 in r(i := byte_of 0 w, i + 1 := byte_of 1 w, i + 2 := byte_of 2 w, i + 3 := byte_of 3 w))"

definition mem_get :: "nat \<Rightarrow> (nat \<Rightarrow> u8) \<Rightarrow> mem" where
  "mem_get i r = \<lparr>mem_next = get32 i r, mem_prev = get32 (i + 4) r, mem_used = r (i + 8)\<rparr>"

definition mem_set :: "nat \<Rightarrow> mem \<Rightarrow> (nat \<Rightarrow> u8) \<Rightarrow> nat \<Rightarrow> u8" where
  "mem_set i m r = (put32 (i + 4) (mem_prev m) (put32 i (mem_next m) r))(i + 8 := mem_used m)"

definition mem_at :: "nat \<Rightarrow> heap \<Rightarrow> mem res" where
  "mem_at i h = (if i + SIZEOF_STRUCT_MEM \<le> ram_size then Ok (mem_get i (ram h)) else Stop Fault)"

definition mem_upd :: "nat \<Rightarrow> (mem \<Rightarrow> mem) \<Rightarrow> heap \<Rightarrow> heap res" where
  "mem_upd i f h = res_bind (mem_at i h) (\<lambda>m. Ok (h\<lparr>ram := mem_set i (f m) (ram h)\<rparr>))"

text \<open>The counters.\<close>

definition mem_inc_used :: "nat \<Rightarrow> heap \<Rightarrow> heap" where
  "mem_inc_used n h =
     (let h1 = h\<lparr>hs_used := u32_add (hs_used h) n\<rparr>
      in if hs_max h1 < hs_used h1 then h1\<lparr>hs_max := hs_used h1\<rparr> else h1)"

definition mem_dec_used :: "nat \<Rightarrow> heap \<Rightarrow> heap" where
  "mem_dec_used n h = h\<lparr>hs_used := u32_sub (hs_used h) n\<rparr>"

subsection \<open>Initialisation and freeing\<close>

text \<open>\<open>mutex\<close> tells whether the mutex could be created.\<close>

definition mem_init :: "bool \<Rightarrow> heap \<Rightarrow> heap res" where
  "mem_init mutex h =
     (let r1 = mem_set 0 \<lparr>mem_next = MEM_SIZE_ALIGNED, mem_prev = 0, mem_used = 0\<rparr> (ram h);
          r2 = mem_set MEM_SIZE_ALIGNED \<lparr>mem_next = MEM_SIZE_ALIGNED, mem_prev = MEM_SIZE_ALIGNED, mem_used = 1\<rparr> r1
      in if \<not> mutex then Stop Assert else Ok (h\<lparr>ram := r2, lfree := 0, hs_avail := MEM_SIZE_ALIGNED\<rparr>))"

definition plug_forward :: "nat \<Rightarrow> heap \<Rightarrow> heap res" where
  "plug_forward mem h =
     res_bind (mem_at mem h) (\<lambda>m.
     let nmem = mem_next m
     in res_bind (mem_at nmem h) (\<lambda>nm.
          if mem \<noteq> nmem \<and> mem_used nm = 0 \<and> nmem \<noteq> MEM_SIZE_ALIGNED then
            let h1 = (if lfree h = nmem then h\<lparr>lfree := mem\<rparr> else h)
            in res_bind (mem_upd mem (\<lambda>m. m\<lparr>mem_next := mem_next nm\<rparr>) h1)
                 (mem_upd (mem_next nm) (\<lambda>m. m\<lparr>mem_prev := mem\<rparr>))
          else Ok h))"

definition plug_backward :: "nat \<Rightarrow> heap \<Rightarrow> heap res" where
  "plug_backward mem h =
     res_bind (mem_at mem h) (\<lambda>m.
     let pmem = mem_prev m
     in res_bind (mem_at pmem h) (\<lambda>pm.
          if pmem \<noteq> mem \<and> mem_used pm = 0 then
            let h1 = (if lfree h = mem then h\<lparr>lfree := pmem\<rparr> else h)
            in res_bind (mem_upd pmem (\<lambda>pm. pm\<lparr>mem_next := mem_next m\<rparr>) h1)
                 (mem_upd (mem_next m) (\<lambda>m. m\<lparr>mem_prev := pmem\<rparr>))
          else Ok h))"

definition plug_holes :: "nat \<Rightarrow> heap \<Rightarrow> heap res" where
  "plug_holes mem h =
     (if \<not> mem < MEM_SIZE_ALIGNED then Stop Assert
      else
        res_bind (mem_at mem h) (\<lambda>m.
          if mem_used m \<noteq> 0 then Stop Assert
          else if \<not> mem_next m \<le> MEM_SIZE_ALIGNED then Stop Assert
          else res_bind (plug_forward mem h) (plug_backward mem)))"

text \<open>The header of a block is in front of its data; a pointer in the first bytes of the heap has none.\<close>

definition mem_of :: "int \<Rightarrow> nat res" where
  "mem_of rmem = (if rmem < int SIZEOF_STRUCT_MEM then Stop Fault else Ok (nat rmem - SIZEOF_STRUCT_MEM))"

definition mem_free :: "int option \<Rightarrow> heap \<Rightarrow> heap res" where
  "mem_free p h =
     (case p of
        None \<Rightarrow> Ok h
      | Some rmem \<Rightarrow>
          if rmem mod 4 \<noteq> 0 then Stop Assert
          else if \<not> (0 \<le> rmem \<and> rmem < int MEM_SIZE_ALIGNED) then Stop Assert
          else
            res_bind (mem_of rmem) (\<lambda>mem.
            res_bind (mem_at mem h) (\<lambda>m.
              if mem_used m = 0 then Stop Assert
              else
                res_bind (mem_upd mem (\<lambda>m. m\<lparr>mem_used := 0\<rparr>) h) (\<lambda>h1.
                  let h2 = (if mem < lfree h1 then h1\<lparr>lfree := mem\<rparr> else h1)
                  in plug_holes mem (mem_dec_used (u32_sub (mem_next m) mem) h2)))))"

subsection \<open>Shrinking\<close>

text \<open>
  A free block is placed at \<open>ptr2\<close>, between the block at \<open>ptr\<close> and the one at \<open>next\<close>; the last
  struct of the heap is not linked back.
\<close>

definition mem_insert :: "nat \<Rightarrow> nat \<Rightarrow> nat \<Rightarrow> heap \<Rightarrow> heap res" where
  "mem_insert ptr ptr2 next h =
     res_bind (mem_upd ptr2 (\<lambda>_. \<lparr>mem_next = next, mem_prev = ptr, mem_used = 0\<rparr>) h) (\<lambda>h1.
     res_bind (mem_upd ptr (\<lambda>m. m\<lparr>mem_next := ptr2\<rparr>) h1) (\<lambda>h2.
       if next \<noteq> MEM_SIZE_ALIGNED then mem_upd next (\<lambda>m. m\<lparr>mem_prev := ptr2\<rparr>) h2 else Ok h2))"

text \<open>The size a request is rounded up to.\<close>

definition mem_request :: "nat \<Rightarrow> nat" where
  "mem_request siz = (let s = mem_align siz in if s < MIN_SIZE_ALIGNED then MIN_SIZE_ALIGNED else s)"

definition mem_trim :: "int option \<Rightarrow> nat \<Rightarrow> heap \<Rightarrow> (int option \<times> heap) res" where
  "mem_trim p size0 h =
     (let newsize = mem_request size0
      in if newsize > MEM_SIZE_ALIGNED then Ok (None, h)
         else
           case p of
             None \<Rightarrow> Stop Assert
           | Some rmem \<Rightarrow>
               if \<not> (0 \<le> rmem \<and> rmem < int MEM_SIZE_ALIGNED) then Stop Assert
               else
                 res_bind (mem_of rmem) (\<lambda>ptr.
                 res_bind (mem_at ptr h) (\<lambda>m.
                 let siz = u32_sub (u32_sub (mem_next m) ptr) SIZEOF_STRUCT_MEM
                 in if \<not> newsize \<le> siz then Stop Assert
                    else if newsize = siz then Ok (Some rmem, h)
                    else
                      res_bind (mem_at (mem_next m) h) (\<lambda>m2.
                      let ptr2 = u32_add (u32_add ptr SIZEOF_STRUCT_MEM) newsize
                      in if mem_used m2 = 0 then
                           let h1 = (if lfree h = mem_next m then h\<lparr>lfree := ptr2\<rparr> else h)
                           in res_bind (mem_insert ptr ptr2 (mem_next m2) h1)
                                (\<lambda>h2. Ok (Some rmem, mem_dec_used (u32_sub siz newsize) h2))
                         else if u32_add (u32_add newsize SIZEOF_STRUCT_MEM) MIN_SIZE_ALIGNED \<le> siz then
                           let h1 = (if ptr2 < lfree h then h\<lparr>lfree := ptr2\<rparr> else h)
                           in res_bind (mem_insert ptr ptr2 (mem_next m) h1)
                                (\<lambda>h2. Ok (Some rmem, mem_dec_used (u32_sub siz newsize) h2))
                         else Ok (Some rmem, h)))))"

subsection \<open>Allocation\<close>

text \<open>The search for a free block that is big enough, and the one for the lowest free block.\<close>

partial_function (option) mem_scan :: "nat \<Rightarrow> heap \<Rightarrow> nat \<Rightarrow> (nat \<times> mem) option res option" where
  "mem_scan siz h ptr =
     (if \<not> ptr < u32_sub MEM_SIZE_ALIGNED siz then Some (Ok None)
      else
        case mem_at ptr h of
          Stop x \<Rightarrow> Some (Stop x)
        | Ok m \<Rightarrow>
            if mem_used m = 0 \<and> u32_sub (mem_next m) (u32_add ptr SIZEOF_STRUCT_MEM) \<ge> siz then Some (Ok (Some (ptr, m)))
            else mem_scan siz h (mem_next m))"

partial_function (option) mem_lowest :: "heap \<Rightarrow> nat \<Rightarrow> nat res option" where
  "mem_lowest h pos =
     (case mem_at pos h of
        Stop x \<Rightarrow> Some (Stop x)
      | Ok m \<Rightarrow> if mem_used m \<noteq> 0 \<and> pos \<noteq> MEM_SIZE_ALIGNED then mem_lowest h (mem_next m) else Some (Ok pos))"

text \<open>The block at \<open>ptr\<close> is taken; a rest that can hold data becomes a block of its own.\<close>

definition mem_take :: "nat \<Rightarrow> nat \<Rightarrow> mem \<Rightarrow> heap \<Rightarrow> heap res" where
  "mem_take siz ptr m h =
     (if u32_sub (mem_next m) (u32_add ptr SIZEOF_STRUCT_MEM) \<ge> u32_add (u32_add siz SIZEOF_STRUCT_MEM) MIN_SIZE_ALIGNED then
        let ptr2 = u32_add (u32_add ptr SIZEOF_STRUCT_MEM) siz
        in res_bind (mem_insert ptr ptr2 (mem_next m) h) (\<lambda>h1.
           res_bind (mem_upd ptr (\<lambda>m. m\<lparr>mem_used := 1\<rparr>) h1)
             (\<lambda>h2. Ok (mem_inc_used (u32_add siz SIZEOF_STRUCT_MEM) h2)))
      else
        res_bind (mem_upd ptr (\<lambda>m. m\<lparr>mem_used := 1\<rparr>) h)
          (\<lambda>h1. Ok (mem_inc_used (u32_sub (mem_next m) ptr) h1)))"

definition mem_malloc :: "nat \<Rightarrow> heap \<Rightarrow> (int option \<times> heap) run" where
  "mem_malloc size0 h =
     (if size0 = 0 then Some (Ok (None, h))
      else
        let siz = mem_request size0
        in if siz > MEM_SIZE_ALIGNED then Some (Ok (None, h))
           else
             run_bind (mem_scan siz h (lfree h)) (\<lambda>r.
               case r of
                 None \<Rightarrow> Some (Ok (None, h\<lparr>hs_err := u16_add (hs_err h) 1\<rparr>))
               | Some (ptr, m) \<Rightarrow>
                   run_res (mem_take siz ptr m h) (\<lambda>h1.
                   run_bind
                     (if ptr = lfree h1 then
                        run_bind (mem_lowest h1 (lfree h1)) (\<lambda>cur.
                        run_res (mem_at cur h1) (\<lambda>c.
                          if cur = MEM_SIZE_ALIGNED \<or> mem_used c = 0 then Some (Ok (h1\<lparr>lfree := cur\<rparr>)) else Some (Stop Assert)))
                      else Some (Ok h1))
                     (\<lambda>h2.
                       if \<not> ptr + SIZEOF_STRUCT_MEM + siz \<le> MEM_SIZE_ALIGNED then Some (Stop Assert)
                       else if (ptr + SIZEOF_STRUCT_MEM) mod 4 \<noteq> 0 then Some (Stop Assert)
                       else Some (Ok (Some (int (ptr + SIZEOF_STRUCT_MEM)), h2))))))"

text \<open>\<^verbatim>\<open>memset\<close> to zero.\<close>

definition mem_zero :: "nat \<Rightarrow> nat \<Rightarrow> heap \<Rightarrow> heap res" where
  "mem_zero p n h = (if p + n \<le> ram_size then Ok (h\<lparr>ram := (\<lambda>i. if p \<le> i \<and> i < p + n then 0 else ram h i)\<rparr>) else Stop Fault)"

definition mem_calloc :: "nat \<Rightarrow> nat \<Rightarrow> heap \<Rightarrow> (int option \<times> heap) run" where
  "mem_calloc count siz h =
     (let n = count * siz mod 2 ^ 32
      in run_bind (mem_malloc n h) (\<lambda>(p, h1).
           case p of
             None \<Rightarrow> Some (Ok (None, h1))
           | Some rmem \<Rightarrow> run_res (mem_zero (nat rmem) n h1) (\<lambda>h2. Some (Ok (Some rmem, h2)))))"

text \<open>The pools: \<open>memp_sizes\<close> is the table of the element sizes.\<close>

definition memp_malloc :: "(nat \<Rightarrow> u16) \<Rightarrow> nat \<Rightarrow> heap \<Rightarrow> (int option \<times> heap) run" where
  "memp_malloc memp_sizes type = mem_malloc (unat (memp_sizes type))"

definition memp_free :: "nat \<Rightarrow> int option \<Rightarrow> heap \<Rightarrow> heap res" where
  "memp_free type mem = mem_free mem"

end
