(* ===== verification/Mem_Props.thy ===== *)
theory Mem_Props
  imports Mem
begin

text \<open>
  The heap as a list of blocks. A heap belongs to a list when its headers are linked the way the list
  says, no two free blocks are neighbours, \<^verbatim>\<open>lfree\<close> is the lowest free one and the counter of used
  bytes is right. The lemmas show what \<^verbatim>\<open>mem_malloc\<close>, \<^verbatim>\<open>mem_free\<close> and \<^verbatim>\<open>mem_trim\<close> do to the list,
  that no assertion fails, and that they write to headers only.
\<close>


subsection \<open>Bytes and headers\<close>

lemma mem_sizes [simp]:
  "SIZEOF_STRUCT_MEM = 12" "MIN_SIZE_ALIGNED = 12" "MEM_SIZE_ALIGNED = 1024000" "ram_size = 1024024"
  by (simp_all add: SIZEOF_STRUCT_MEM_def MIN_SIZE_ALIGNED_def MEM_SIZE_ALIGNED_def ram_size_def LWIP_MEM_ALIGN_SIZE_def)

lemma u32_add_small [simp]: "a + b < 2 ^ 32 \<Longrightarrow> u32_add a b = a + b"
  by (simp add: u32_add_def)

lemma u32_sub_small [simp]: "b \<le> a \<Longrightarrow> a < 2 ^ 32 \<Longrightarrow> u32_sub a b = a - b"
proof -
  assume "b \<le> a" "a < 2 ^ 32"
  then have "a + 2 ^ 32 - b mod 2 ^ 32 = (a - b) + 2 ^ 32" by simp
  then show ?thesis using \<open>a < 2 ^ 32\<close> by (simp only: u32_sub_def) simp
qed

lemma get32_put32 [simp]: "v < 2 ^ 32 \<Longrightarrow> get32 i (put32 i v r) = v"
  by (simp add: get32_def put32_def Let_def unsigned_of_nat take_bit_nat_eq_self)

lemma put32_other: "j < i \<or> i + 4 \<le> j \<Longrightarrow> put32 i v r j = r j"
  by (auto simp: put32_def Let_def)

lemma get32_cong: "(\<And>k. k < 4 \<Longrightarrow> r' (i + k) = r (i + k)) \<Longrightarrow> get32 i r' = get32 i r"
proof -
  assume a: "\<And>k. k < 4 \<Longrightarrow> r' (i + k) = r (i + k)"
  show ?thesis using a [of 0] a [of 1] a [of 2] a [of 3] by (simp add: get32_def)
qed

lemma mem_get_cong:
  assumes "\<And>j. i \<le> j \<Longrightarrow> j < i + 9 \<Longrightarrow> r' j = r j"
  shows "mem_get i r' = mem_get i r"
proof -
  have "get32 i r' = get32 i r" "get32 (i + 4) r' = get32 (i + 4) r" by (intro get32_cong assms; simp)+
  then show ?thesis using assms [of "i + 8"] by (simp add: mem_get_def)
qed

lemma mem_set_other: "j < i \<or> i + 9 \<le> j \<Longrightarrow> mem_set i m r j = r j"
  by (auto simp: mem_set_def put32_other)

lemma mem_get_set [simp]:
  assumes "mem_next m < 2 ^ 32" and "mem_prev m < 2 ^ 32"
  shows "mem_get i (mem_set i m r) = m"
proof -
  have "get32 i (mem_set i m r) = get32 i (put32 i (mem_next m) r)" by (rule get32_cong) (simp add: mem_set_def put32_other)
  moreover have "get32 (i + 4) (mem_set i m r) = get32 (i + 4) (put32 (i + 4) (mem_prev m) (put32 i (mem_next m) r))"
    by (rule get32_cong) (simp add: mem_set_def)
  moreover have "mem_set i m r (i + 8) = mem_used m" by (simp add: mem_set_def)
  ultimately show ?thesis using assms by (simp add: mem_get_def)
qed

lemma mem_get_set_other: "i + 12 \<le> j \<or> j + 12 \<le> i \<Longrightarrow> mem_get i (mem_set j m r) = mem_get i r"
  by (rule mem_get_cong) (auto intro: mem_set_other)

lemma mem_at_in [simp]: "i \<le> 1024000 \<Longrightarrow> mem_at i h = Ok (mem_get i (ram h))"
  by (simp add: mem_at_def)

lemma mem_upd_in [simp]: "i \<le> 1024000 \<Longrightarrow> mem_upd i f h = Ok (h\<lparr>ram := mem_set i (f (mem_get i (ram h))) (ram h)\<rparr>)"
  by (simp add: mem_upd_def)

subsection \<open>The list of the blocks\<close>

type_synonym blocks = "(nat \<times> bool) list"

fun nxt :: "blocks \<Rightarrow> nat \<Rightarrow> nat" where
  "nxt [] q = q"
| "nxt ((i, u) # bs) q = i"

fun lst :: "nat \<Rightarrow> blocks \<Rightarrow> nat" where
  "lst p [] = p"
| "lst p ((i, u) # bs) = lst i bs"

fun hdrs :: "(nat \<Rightarrow> u8) \<Rightarrow> nat \<Rightarrow> blocks \<Rightarrow> nat \<Rightarrow> bool" where
  "hdrs r p [] q = True"
| "hdrs r p ((i, u) # bs) q \<longleftrightarrow>
     mem_get i r = \<lparr>mem_next = nxt bs q, mem_prev = p, mem_used = (if u then 1 else 0)\<rparr> \<and>
     i + 24 \<le> nxt bs q \<and> 4 dvd i \<and> hdrs r i bs q"

lemma nxt_append [simp]: "nxt (xs @ ys) q = nxt xs (nxt ys q)"
  by (cases xs) auto

lemma lst_append [simp]: "lst p (xs @ ys) = lst (lst p xs) ys"
  by (induction xs arbitrary: p) auto

lemma hdrs_append [simp]: "hdrs r p (xs @ ys) q \<longleftrightarrow> hdrs r p xs (nxt ys q) \<and> hdrs r (lst p xs) ys q"
  by (induction xs arbitrary: p) auto

lemma nxt_le: "hdrs r p bs q \<Longrightarrow> nxt bs q \<le> q"
proof (induction bs arbitrary: p)
  case (Cons b bs)
  obtain j v where b: "b = (j, v)" by (cases b)
  then show ?case using Cons.IH [of j] Cons.prems by simp
qed simp

lemma hdrs_below: "hdrs r p bs q \<Longrightarrow> (i, u) \<in> set bs \<Longrightarrow> i + 24 \<le> q"
proof (induction bs arbitrary: p)
  case (Cons b bs)
  obtain j v where b: "b = (j, v)" by (cases b)
  then show ?case using Cons.IH [of j] nxt_le [of r j bs q] Cons.prems by auto
qed simp

lemma hdrs_above: "hdrs r p bs q \<Longrightarrow> (i, u) \<in> set bs \<Longrightarrow> nxt bs q \<le> i"
proof (induction bs arbitrary: p)
  case (Cons b bs)
  obtain j v where b: "b = (j, v)" by (cases b)
  then show ?case using Cons.IH [of j] Cons.prems by auto
qed simp

lemma hdrs_used: "hdrs r p bs q \<Longrightarrow> (i, u) \<in> set bs \<Longrightarrow> mem_used (mem_get i r) = (if u then 1 else 0)"
  by (induction bs arbitrary: p) auto

lemma hdrs_cong: "hdrs r p bs q \<Longrightarrow> \<forall>i\<in>fst ` set bs. mem_get i r' = mem_get i r \<Longrightarrow> hdrs r' p bs q"
  by (induction bs arbitrary: p) auto

lemma lst_cases: "lst p bs = p \<and> bs = [] \<or> (\<exists>u xs. bs = xs @ [(lst p bs, u)])"
  by (cases bs rule: rev_cases) auto

text \<open>What a write to a header leaves of the headers in front of it and behind it.\<close>

lemma hdrs_set_behind:
  assumes "hdrs r p xs i" and "i \<le> j"
  shows "hdrs (mem_set j m r) p xs i"
proof (rule hdrs_cong [OF assms(1)], rule ballI)
  fix k assume "k \<in> fst ` set xs"
  then have "k + 24 \<le> i" using hdrs_below [OF assms(1)] by auto
  then show "mem_get k (mem_set j m r) = mem_get k r" using assms(2) by (simp add: mem_get_set_other)
qed

lemma hdrs_set_front:
  assumes "hdrs r p ys q" and "j + 12 \<le> nxt ys q"
  shows "hdrs (mem_set j m r) p ys q"
proof (rule hdrs_cong [OF assms(1)], rule ballI)
  fix k assume "k \<in> fst ` set ys"
  then have "nxt ys q \<le> k" using hdrs_above [OF assms(1)] by auto
  then show "mem_get k (mem_set j m r) = mem_get k r" using assms(2) by (simp add: mem_get_set_other)
qed

lemma hdrs_relink:
  assumes "hdrs r j ys q" and "q < 2 ^ 32" and "c < 2 ^ 32"
  shows "hdrs (mem_set (nxt ys q) ((mem_get (nxt ys q) r)\<lparr>mem_prev := c\<rparr>) r) c ys q"
proof (cases ys)
  case (Cons y zs)
  obtain k v where y: "y = (k, v)" by (cases y)
  have k: "mem_get k r = \<lparr>mem_next = nxt zs q, mem_prev = j, mem_used = (if v then 1 else 0)\<rparr>" "k + 24 \<le> nxt zs q" "4 dvd k"
    "hdrs r k zs q" using assms(1) Cons y by auto
  moreover have "nxt zs q < 2 ^ 32" using nxt_le [OF k(4)] assms(2) by simp
  ultimately show ?thesis using assms(3) hdrs_set_front [OF k(4)] Cons y by simp
qed simp

lemma hdrs_unlink:
  assumes "hdrs r p xs i" and "mem_get i r = \<lparr>mem_next = nn, mem_prev = lst p xs, mem_used = (if u then 1 else 0)\<rparr>"
    and "hdrs r j ys q" and "i + 24 \<le> nxt ys q" and "4 dvd i" and "q < 2 ^ 32" and "lst p xs < 2 ^ 32"
    and r1: "r1 = mem_set i ((mem_get i r)\<lparr>mem_next := nxt ys q\<rparr>) r"
    and r2: "r2 = mem_set (nxt ys q) ((mem_get (nxt ys q) r1)\<lparr>mem_prev := i\<rparr>) r1"
  shows "hdrs r2 p (xs @ (i, u) # ys) q"
proof -
  have n: "nxt ys q < 2 ^ 32" using nxt_le [OF assms(3)] assms(6) by simp
  have ys: "hdrs r1 j ys q" using hdrs_set_front [OF assms(3)] assms(4) r1 by simp
  have "hdrs r2 i ys q" using hdrs_relink [OF ys assms(6), of i] r2 n assms(4) by simp
  moreover have "mem_get i r2 = mem_get i r1" using assms(4) by (simp add: r2 mem_get_set_other)
  moreover have "mem_get i r1 = \<lparr>mem_next = nxt ys q, mem_prev = lst p xs, mem_used = (if u then 1 else 0)\<rparr>"
    using n assms(2,7) by (simp add: r1)
  moreover have "hdrs r2 p xs i" using hdrs_set_behind [OF hdrs_set_behind [OF assms(1)]] assms(4) by (simp add: r1 r2)
  ultimately show ?thesis using assms(4,5) by simp
qed

lemma get32_less [simp]: "get32 i r < 4294967296"
  using unsigned_less [of "u32_of (r i) (r (i + 1)) (r (i + 2)) (r (i + 3))", where 'a = nat] by (simp add: get32_def)

lemma mem_get_less [simp]: "mem_next (mem_get i r) < 4294967296" "mem_prev (mem_get i r) < 4294967296"
  by (simp_all add: mem_get_def)

subsection \<open>Heaps and lists of blocks\<close>

text \<open>The lowest free block, no two free blocks side by side, and the bytes that are in use.\<close>

fun lowest :: "blocks \<Rightarrow> nat" where
  "lowest [] = MEM_SIZE_ALIGNED"
| "lowest ((i, u) # bs) = (if u then lowest bs else i)"

fun merged :: "blocks \<Rightarrow> bool" where
  "merged (a # b # bs) \<longleftrightarrow> (snd a \<or> snd b) \<and> merged (b # bs)"
| "merged bs = True"

fun used_sum :: "blocks \<Rightarrow> nat \<Rightarrow> nat" where
  "used_sum [] q = 0"
| "used_sum ((i, u) # bs) q = (if u then nxt bs q - i else 0) + used_sum bs q"

definition heap_rel :: "heap \<Rightarrow> blocks \<Rightarrow> bool" where
  "heap_rel h bs \<longleftrightarrow>
     nxt bs MEM_SIZE_ALIGNED = 0 \<and> hdrs (ram h) 0 bs MEM_SIZE_ALIGNED \<and> mem_used (mem_get MEM_SIZE_ALIGNED (ram h)) = 1 \<and>
     lfree h = lowest bs \<and> merged bs \<and> hs_used h = used_sum bs MEM_SIZE_ALIGNED"

text \<open>Only the bytes of headers differ.\<close>

definition same_data :: "nat set \<Rightarrow> (nat \<Rightarrow> u8) \<Rightarrow> (nat \<Rightarrow> u8) \<Rightarrow> bool" where
  "same_data K r r' \<longleftrightarrow> (\<forall>j. (\<forall>k\<in>K. j < k \<or> k + 9 \<le> j) \<longrightarrow> r' j = r j)"

lemma same_data_refl [simp]: "same_data K r r"
  by (simp add: same_data_def)

lemma same_data_trans: "same_data K r r' \<Longrightarrow> same_data K r' r'' \<Longrightarrow> same_data K r r''"
  by (simp add: same_data_def)

lemma same_data_mono: "same_data K r r' \<Longrightarrow> K \<subseteq> L \<Longrightarrow> same_data L r r'"
  by (auto simp: same_data_def)

lemma same_data_set: "k \<in> K \<Longrightarrow> same_data K r (mem_set k m r)"
  by (auto simp: same_data_def mem_set_other)

lemma hdrs_insert:
  assumes "hdrs r p xs i" and "mem_get i r = \<lparr>mem_next = nn, mem_prev = lst p xs, mem_used = (if u then 1 else 0)\<rparr>"
    and "hdrs r j ys q" and "i + 24 \<le> c" and "c + 24 \<le> nxt ys q" and "4 dvd i" and "4 dvd c" and "q < 2 ^ 32"
    and r1: "r1 = mem_set c \<lparr>mem_next = nxt ys q, mem_prev = i, mem_used = 0\<rparr> r"
    and r2: "r2 = mem_set i ((mem_get i r1)\<lparr>mem_next := c\<rparr>) r1"
    and r3: "r3 = (if ys = [] then r2 else mem_set (nxt ys q) ((mem_get (nxt ys q) r2)\<lparr>mem_prev := c\<rparr>) r2)"
  shows "hdrs r3 p (xs @ (i, u) # (c, False) # ys) q"
proof -
  have n: "nxt ys q < 2 ^ 32" using nxt_le [OF assms(3)] assms(8) by simp
  have ys: "hdrs r2 j ys q" using hdrs_set_front [OF hdrs_set_front [OF assms(3)]] assms(4,5) r1 r2 by simp
  have "hdrs r3 c ys q" using hdrs_relink [OF ys assms(8), of c] r3 n assms(5) by (cases ys) simp_all
  moreover have far: "mem_get k r3 = mem_get k r2" if "k + 12 \<le> nxt ys q" for k using that by (simp add: r3 mem_get_set_other)
  have "mem_get c r2 = mem_get c r1" using assms(4) by (simp add: r2 mem_get_set_other)
  then have "mem_get c r3 = \<lparr>mem_next = nxt ys q, mem_prev = i, mem_used = 0\<rparr>"
    using far [of c] assms(4,5) n by (simp add: r1)
  moreover have "mem_get i r1 = mem_get i r" using assms(4) by (simp add: r1 mem_get_set_other)
  then have "mem_get i r3 = (mem_get i r)\<lparr>mem_next := c\<rparr>" using far [of i] assms(4,5) n by (simp add: r2)
  moreover have "hdrs r3 p xs i" using hdrs_set_behind [OF assms(1)] assms(4,5) by (simp add: r1 r2 r3 hdrs_set_behind)
  ultimately show ?thesis using assms(2,4-7) by simp
qed

subsection \<open>Freeing\<close>

fun behind :: "blocks \<Rightarrow> blocks" where
  "behind ((j, False) # bs) = bs"
| "behind bs = bs"

definition fuse :: "blocks \<Rightarrow> nat \<Rightarrow> blocks \<Rightarrow> blocks" where
  "fuse xs i ys = (if xs \<noteq> [] \<and> \<not> snd (last xs) then xs @ behind ys else xs @ (i, False) # behind ys)"

lemma lowest_append [simp]: "lowest (xs @ ys) = (if \<exists>k. (k, False) \<in> set xs then lowest xs else lowest ys)"
  by (induction xs) auto

lemma lowest_in: "(k, False) \<in> set bs \<Longrightarrow> (lowest bs, False) \<in> set bs"
  by (induction bs) auto

lemma lowest_all [simp]: "\<forall>k. (k, False) \<notin> set bs \<Longrightarrow> lowest bs = MEM_SIZE_ALIGNED"
  by (induction bs) auto

lemma hdrs_lst_less:
  assumes "hdrs r p xs q" and "p < n" and "q \<le> n"
  shows "lst p xs < n"
proof (cases xs rule: rev_cases)
  case (snoc zs b)
  obtain k v where "b = (k, v)" by (cases b)
  then show ?thesis using hdrs_below [OF assms(1), of k v] snoc assms(3) by simp
qed (use assms(2) in simp)

lemma end_relink:
  assumes "hdrs r j ys 1024000" and "mem_used (mem_get 1024000 r) = 1" and "c < 4294967296"
  shows "mem_used (mem_get 1024000 (mem_set (nxt ys 1024000) ((mem_get (nxt ys 1024000) r)\<lparr>mem_prev := c\<rparr>) r)) = 1"
proof (cases ys)
  case (Cons y zs)
  then have "nxt ys 1024000 + 24 \<le> 1024000" using hdrs_below [OF assms(1), of "fst y" "snd y"] by (cases y) simp
  then show ?thesis using assms(2) by (simp add: mem_get_set_other)
qed (use assms in simp)

lemma plug_forward_ok:
  assumes "hdrs (ram h) 0 (xs @ (i, False) # ys) 1024000" and "mem_used (mem_get 1024000 (ram h)) = 1" and "lfree h \<le> i"
  shows "\<exists>r'. plug_forward i h = Ok (h\<lparr>ram := r'\<rparr>) \<and> hdrs r' 0 (xs @ (i, False) # behind ys) 1024000 \<and>
    mem_used (mem_get 1024000 r') = 1 \<and> same_data (insert 1024000 (fst ` set (xs @ (i, False) # ys))) (ram h) r'"
proof -
  let ?r = "ram h"
  have x: "hdrs ?r 0 xs i" and g: "mem_get i ?r = \<lparr>mem_next = nxt ys 1024000, mem_prev = lst 0 xs, mem_used = 0\<rparr>"
    and i: "i + 24 \<le> nxt ys 1024000" "4 dvd i" and y: "hdrs ?r i ys 1024000" using assms(1) by auto
  have n: "nxt ys 1024000 \<le> 1024000" by (rule nxt_le [OF y])
  have p: "lst 0 xs < 2 ^ 32" using hdrs_lst_less [OF x, of "2 ^ 32"] i n by simp
  show ?thesis
  proof (cases "\<exists>j zs. ys = (j, False) # zs")
    case True
    then obtain j zs where ys: "ys = (j, False) # zs" by blast
    have j: "mem_get j ?r = \<lparr>mem_next = nxt zs 1024000, mem_prev = i, mem_used = 0\<rparr>" "j + 24 \<le> nxt zs 1024000" "hdrs ?r j zs 1024000"
      using y ys by auto
    have n': "nxt zs 1024000 \<le> 1024000" by (rule nxt_le [OF j(3)])
    define r1 where "r1 = mem_set i ((mem_get i ?r)\<lparr>mem_next := nxt zs 1024000\<rparr>) ?r"
    define r2 where "r2 = mem_set (nxt zs 1024000) ((mem_get (nxt zs 1024000) r1)\<lparr>mem_prev := i\<rparr>) r1"
    have "plug_forward i h = Ok (h\<lparr>ram := r2\<rparr>)"
      using g i ys j n' assms(3) by (simp add: plug_forward_def Let_def r1_def r2_def)
    moreover have "hdrs r2 0 (xs @ (i, False) # zs) 1024000"
      by (rule hdrs_unlink [OF x _ j(3) _ i(2) _ p r1_def r2_def]) (use g i ys j(2) in simp_all)
    moreover have "mem_used (mem_get 1024000 r2) = 1"
    proof -
      have "mem_get 1024000 r1 = mem_get 1024000 ?r" using i ys n' j(2) by (simp add: r1_def mem_get_set_other)
      then show ?thesis using end_relink [OF hdrs_set_front [OF j(3)], of i] assms(2) i n ys j(2) by (simp add: r1_def r2_def)
    qed
    moreover have "same_data (insert 1024000 (fst ` set (xs @ (i, False) # ys))) ?r r2"
    proof -
      have "nxt zs 1024000 \<in> insert 1024000 (fst ` set ys)" using ys by (cases zs) auto
      then show ?thesis unfolding r1_def r2_def by (intro same_data_trans [OF same_data_set same_data_set]) auto
    qed
    ultimately show ?thesis using ys by (intro exI [of _ r2]) simp
  next
    case False
    then have b: "behind ys = ys" by (cases ys rule: behind.cases) auto
    have "mem_used (mem_get (nxt ys 1024000) ?r) \<noteq> 0 \<or> nxt ys 1024000 = 1024000"
      using False y by (cases ys) auto
    then have "plug_forward i h = Ok (h\<lparr>ram := ?r\<rparr>)" using g i n by (auto simp: plug_forward_def Let_def)
    then show ?thesis using assms(1,2) b by (intro exI [of _ ?r]) simp
  qed
qed

lemma plug_backward_ok:
  assumes "hdrs (ram h) 0 (xs @ (i, False) # ys) 1024000" and "nxt xs i = 0" and "mem_used (mem_get 1024000 (ram h)) = 1"
    and "\<And>k. (k, False) \<in> set xs \<Longrightarrow> lfree h \<le> k"
  shows "\<exists>r'. plug_backward i h = Ok (h\<lparr>ram := r'\<rparr>) \<and>
    hdrs r' 0 (if xs \<noteq> [] \<and> \<not> snd (last xs) then xs @ ys else xs @ (i, False) # ys) 1024000 \<and>
    mem_used (mem_get 1024000 r') = 1 \<and> same_data (insert 1024000 (fst ` set (xs @ (i, False) # ys))) (ram h) r'"
proof -
  let ?r = "ram h"
  have x: "hdrs ?r 0 xs i" and g: "mem_get i ?r = \<lparr>mem_next = nxt ys 1024000, mem_prev = lst 0 xs, mem_used = 0\<rparr>"
    and i: "i + 24 \<le> nxt ys 1024000" "4 dvd i" and y: "hdrs ?r i ys 1024000" using assms(1) by auto
  have n: "nxt ys 1024000 \<le> 1024000" by (rule nxt_le [OF y])
  show ?thesis
  proof (cases "\<exists>zs k. xs = zs @ [(k, False)]")
    case True
    then obtain zs k where xs: "xs = zs @ [(k, False)]" by blast
    have z: "hdrs ?r 0 zs k" and k: "mem_get k ?r = \<lparr>mem_next = i, mem_prev = lst 0 zs, mem_used = 0\<rparr>" "k + 24 \<le> i" "4 dvd k"
      using x xs by auto
    have p: "lst 0 zs < 2 ^ 32" using hdrs_lst_less [OF z, of "2 ^ 32"] i k n by simp
    define r1 where "r1 = mem_set k ((mem_get k ?r)\<lparr>mem_next := nxt ys 1024000\<rparr>) ?r"
    define r2 where "r2 = mem_set (nxt ys 1024000) ((mem_get (nxt ys 1024000) r1)\<lparr>mem_prev := k\<rparr>) r1"
    have "lfree h \<noteq> i" using assms(4) [of k] xs k by simp
    then have "plug_backward i h = Ok (h\<lparr>ram := r2\<rparr>)"
      using g i k n xs by (simp add: plug_backward_def Let_def r1_def r2_def)
    moreover have "hdrs r2 0 (zs @ (k, False) # ys) 1024000"
      by (rule hdrs_unlink [OF z _ y _ k(3) _ p r1_def r2_def]) (use k i in simp_all)
    moreover have "mem_used (mem_get 1024000 r2) = 1"
    proof -
      have "mem_get 1024000 r1 = mem_get 1024000 ?r" using i k n by (simp add: r1_def mem_get_set_other)
      then show ?thesis using end_relink [OF hdrs_set_front [OF y], of k] assms(3) i k n by (simp add: r1_def r2_def)
    qed
    moreover have "same_data (insert 1024000 (fst ` set (xs @ (i, False) # ys))) ?r r2"
    proof -
      have "nxt ys 1024000 \<in> insert 1024000 (fst ` set ys)" by (cases ys) auto
      then show ?thesis unfolding r1_def r2_def xs by (intro same_data_trans [OF same_data_set same_data_set]) auto
    qed
    ultimately show ?thesis using xs by (intro exI [of _ r2]) simp
  next
    case False
    then have l: "xs = [] \<or> snd (last xs)" by (cases xs rule: rev_cases) auto
    have "mem_prev (mem_get i ?r) = i \<or> mem_used (mem_get (mem_prev (mem_get i ?r)) ?r) \<noteq> 0"
      using False x g assms(2) by (cases xs rule: rev_cases) auto
    moreover have "lst 0 xs \<le> 1024000" using hdrs_lst_less [OF x, of 1024000] i n by simp
    ultimately have "plug_backward i h = Ok (h\<lparr>ram := ?r\<rparr>)" using g i n by (auto simp: plug_backward_def Let_def)
    then show ?thesis using assms(1,3) l by (intro exI [of _ ?r]) auto
  qed
qed

lemma behind_sub: "set (behind ys) \<subseteq> set ys"
  by (cases ys rule: behind.cases) auto

lemma plug_holes_ok:
  assumes "hdrs (ram h) 0 (xs @ (i, False) # ys) 1024000" and "nxt xs i = 0" and "mem_used (mem_get 1024000 (ram h)) = 1"
    and "\<And>k. (k, False) \<in> set (xs @ [(i, False)]) \<Longrightarrow> lfree h \<le> k"
  shows "\<exists>r'. plug_holes i h = Ok (h\<lparr>ram := r'\<rparr>) \<and> hdrs r' 0 (fuse xs i ys) 1024000 \<and>
    mem_used (mem_get 1024000 r') = 1 \<and> same_data (insert 1024000 (fst ` set (xs @ (i, False) # ys))) (ram h) r'"
proof -
  obtain r1 where r1: "plug_forward i h = Ok (h\<lparr>ram := r1\<rparr>)" "hdrs r1 0 (xs @ (i, False) # behind ys) 1024000"
    "mem_used (mem_get 1024000 r1) = 1" "same_data (insert 1024000 (fst ` set (xs @ (i, False) # ys))) (ram h) r1"
    using plug_forward_ok [OF assms(1,3)] assms(4) by auto
  have "hdrs (ram (h\<lparr>ram := r1\<rparr>)) 0 (xs @ (i, False) # behind ys) 1024000" using r1(2) by simp
  from plug_backward_ok [OF this assms(2)] r1(3) assms(4)
  obtain r2 where r2: "plug_backward i (h\<lparr>ram := r1\<rparr>) = Ok (h\<lparr>ram := r2\<rparr>)" "hdrs r2 0 (fuse xs i ys) 1024000"
    "mem_used (mem_get 1024000 r2) = 1" "same_data (insert 1024000 (fst ` set (xs @ (i, False) # behind ys))) r1 r2"
    unfolding fuse_def by auto
  have g: "mem_get i (ram h) = \<lparr>mem_next = nxt ys 1024000, mem_prev = lst 0 xs, mem_used = 0\<rparr>" "i + 24 \<le> nxt ys 1024000"
    "hdrs (ram h) i ys 1024000" using assms(1) by auto
  have "plug_holes i h = Ok (h\<lparr>ram := r2\<rparr>)" using g nxt_le [OF g(3)] r1(1) r2(1) by (simp add: plug_holes_def)
  moreover have "same_data (insert 1024000 (fst ` set (xs @ (i, False) # ys))) r1 r2"
    by (rule same_data_mono [OF r2(4)]) (use behind_sub [of ys] in auto)
  ultimately show ?thesis using r1(4) r2(2,3) same_data_trans by blast
qed

lemma hdrs_mark:
  assumes "hdrs r p (xs @ (i, u) # ys) q" and "q < 2 ^ 32" and "p < 2 ^ 32"
  shows "hdrs (mem_set i ((mem_get i r)\<lparr>mem_used := (if v then 1 else 0)\<rparr>) r) p (xs @ (i, v) # ys) q"
proof -
  have x: "hdrs r p xs i" and i: "mem_get i r = \<lparr>mem_next = nxt ys q, mem_prev = lst p xs, mem_used = (if u then 1 else 0)\<rparr>"
    "i + 24 \<le> nxt ys q" "4 dvd i" "hdrs r i ys q" using assms(1) by auto
  have "nxt ys q < 2 ^ 32" "lst p xs < 2 ^ 32"
    using nxt_le [OF i(4)] assms(2,3) hdrs_lst_less [OF x, of "2 ^ 32"] i(2) by simp_all
  then show ?thesis using hdrs_set_behind [OF x] hdrs_set_front [OF i(4)] i(1-3) by simp
qed

lemma merged_append [simp]:
  "merged (xs @ ys) \<longleftrightarrow> merged xs \<and> merged ys \<and> (xs = [] \<or> ys = [] \<or> snd (last xs) \<or> snd (hd ys))"
proof (induction xs)
  case (Cons a xs)
  then show ?case by (cases xs; cases ys) auto
qed simp

lemma used_sum_append [simp]: "used_sum (xs @ ys) q = used_sum xs (nxt ys q) + used_sum ys q"
  by (induction xs) auto

lemma used_sum_le: "hdrs r p bs q \<Longrightarrow> nxt bs q + used_sum bs q \<le> q"
proof (induction bs arbitrary: p)
  case (Cons b bs)
  obtain j v where b: "b = (j, v)" by (cases b)
  then show ?case using Cons.IH [of j] Cons.prems nxt_le [of r j bs q] by auto
qed simp

lemma used_sum_free: "xs \<noteq> [] \<Longrightarrow> \<not> snd (last xs) \<Longrightarrow> used_sum xs q = used_sum xs q'"
  by (cases xs rule: rev_cases) auto

lemma behind_facts:
  "merged (b # ys) \<Longrightarrow> merged ((i, False) # behind ys)" "lowest ((i, False) # behind ys) = i" "used_sum (behind ys) q = used_sum ys q"
  by (cases ys rule: behind.cases; cases "behind ys"; auto)+

lemma fuse_facts:
  assumes "merged (xs @ (i, True) # ys)" and "nxt xs i = 0"
  shows "merged (fuse xs i ys)" "lowest (fuse xs i ys) = lowest (xs @ (i, False) # ys)"
    "nxt (fuse xs i ys) 1024000 = 0" "used_sum (fuse xs i ys) q = used_sum xs i + used_sum ys q"
proof -
  have m: "merged xs" "merged ((i, False) # behind ys)" using assms(1) behind_facts(1) by auto
  then have b: "merged (behind ys)" "behind ys = [] \<or> snd (hd (behind ys))" by (cases "behind ys"; simp)+
  show "merged (fuse xs i ys)" using m b by (auto simp: fuse_def)
  have "\<exists>k. (k, False) \<in> set xs" if "xs \<noteq> []" "\<not> snd (last xs)" using that last_in_set [of xs] by (cases "last xs") auto
  then show "lowest (fuse xs i ys) = lowest (xs @ (i, False) # ys)" by (auto simp: fuse_def)
  show "nxt (fuse xs i ys) 1024000 = 0" using assms(2) by (cases xs) (auto simp: fuse_def)
  show "used_sum (fuse xs i ys) q = used_sum xs i + used_sum ys q"
    using used_sum_free [of xs "nxt (behind ys) q" i] by (auto simp: fuse_def behind_facts)
qed

lemma lowest_free:
  assumes "hdrs r 0 (xs @ (i, u) # ys) 1024000"
  shows "lowest (xs @ (i, False) # ys) = (if i < lowest (xs @ (i, True) # ys) then i else lowest (xs @ (i, True) # ys))"
    "(k, False) \<in> set (xs @ [(i, False)]) \<Longrightarrow> lowest (xs @ (i, False) # ys) \<le> k"
proof -
  have x: "hdrs r 0 xs i" and i: "i + 24 \<le> nxt ys 1024000" and y: "hdrs r i ys 1024000" using assms by auto
  have below: "lowest xs < i" if "(k, False) \<in> set xs" for k
    using hdrs_below [OF x lowest_in [OF that]] by simp
  have above: "i < lowest ys"
  proof (cases "\<exists>k. (k, False) \<in> set ys")
    case True
    then show ?thesis using hdrs_above [OF y lowest_in] i by fastforce
  next
    case False
    then show ?thesis using i nxt_le [OF y] by simp
  qed
  show "lowest (xs @ (i, False) # ys) = (if i < lowest (xs @ (i, True) # ys) then i else lowest (xs @ (i, True) # ys))"
    using below above by (cases "\<exists>k. (k, False) \<in> set xs") auto
  have low: "lowest bs \<le> k" if "hdrs r p bs q" "(k, False) \<in> set bs" for p bs k q
    using that
  proof (induction bs arbitrary: p)
    case (Cons b bs)
    obtain j v where b: "b = (j, v)" by (cases b)
    then show ?case using Cons.IH [of j] Cons.prems hdrs_above [of r j bs q k False] by (cases v) auto
  qed simp
  show "lowest (xs @ (i, False) # ys) \<le> k" if "(k, False) \<in> set (xs @ [(i, False)])"
    using that low [OF x, of k] below by (auto split: if_splits) (meson le_trans less_imp_le_nat)+
qed

lemma heap_bounds: "(1024000 :: nat) < 2 ^ 32" "(0 :: nat) < 2 ^ 32"
  by simp_all

lemma mem_free_ok:
  assumes "heap_rel h (xs @ (i, True) # ys)"
  shows "\<exists>h'. mem_free (Some (int i + 12)) h = Ok h' \<and> heap_rel h' (fuse xs i ys) \<and>
    same_data (insert 1024000 (fst ` set (xs @ (i, True) # ys))) (ram h) (ram h')"
proof -
  let ?bs = "xs @ (i, True) # ys" and ?r = "ram h"
  have rel: "nxt xs i = 0" "hdrs ?r 0 ?bs 1024000" "mem_used (mem_get 1024000 ?r) = 1" "lfree h = lowest ?bs" "merged ?bs"
    "hs_used h = used_sum ?bs 1024000" using assms by (simp_all add: heap_rel_def)
  have g: "mem_get i ?r = \<lparr>mem_next = nxt ys 1024000, mem_prev = lst 0 xs, mem_used = 1\<rparr>" "i + 24 \<le> nxt ys 1024000"
    "4 dvd i" "hdrs ?r i ys 1024000" using rel(2) by auto
  have n: "nxt ys 1024000 \<le> 1024000" by (rule nxt_le [OF g(4)])
  define r1 where "r1 = mem_set i ((mem_get i ?r)\<lparr>mem_used := 0\<rparr>) ?r"
  define l where "l = lowest (xs @ (i, False) # ys)"
  define h1 where "h1 = mem_dec_used (nxt ys 1024000 - i) (h\<lparr>ram := r1, lfree := l\<rparr>)"
  have h1: "ram h1 = r1" "lfree h1 = l" by (simp_all add: h1_def mem_dec_used_def)
  have used: "hs_used h1 = used_sum xs i + used_sum ys 1024000"
    using used_sum_le [OF rel(2)] rel(6) g(2) n by (simp add: h1_def mem_dec_used_def)
  have "hdrs r1 0 (xs @ (i, False) # ys) 1024000"
    using hdrs_mark [OF rel(2) heap_bounds, of False] by (simp only: r1_def if_False)
  moreover have "mem_used (mem_get 1024000 r1) = 1" using rel(3) g(2) n by (simp add: r1_def mem_get_set_other)
  ultimately obtain r2 where r2: "plug_holes i h1 = Ok (h1\<lparr>ram := r2\<rparr>)" "hdrs r2 0 (fuse xs i ys) 1024000"
    "mem_used (mem_get 1024000 r2) = 1" "same_data (insert 1024000 (fst ` set ?bs)) r1 r2"
    using plug_holes_ok [of h1 xs i ys] rel(1) lowest_free(2) [OF rel(2), folded l_def] h1 by auto
  have l: "l = (if i < lfree h then i else lfree h)" unfolding l_def rel(4) by (rule lowest_free(1) [OF rel(2)])
  have m: "mem_upd i (\<lambda>m. m\<lparr>mem_used := 0\<rparr>) h = Ok (h\<lparr>ram := r1\<rparr>)" using g(2) n by (simp add: r1_def)
  have "(int i + 12) mod 4 = 0" using g(3) by presburger
  then have "mem_free (Some (int i + 12)) h =
      plug_holes i (mem_dec_used (nxt ys 1024000 - i) (if i < lfree h then h\<lparr>ram := r1, lfree := i\<rparr> else h\<lparr>ram := r1\<rparr>))"
    using g(1,2) n by (simp add: mem_free_def mem_of_def m Let_def nat_add_distrib del: mem_upd_in)
  also have "(if i < lfree h then h\<lparr>ram := r1, lfree := i\<rparr> else h\<lparr>ram := r1\<rparr>) = h\<lparr>ram := r1, lfree := l\<rparr>"
    using l by (cases h) simp
  finally have "mem_free (Some (int i + 12)) h = plug_holes i h1" by (simp only: h1_def)
  moreover have "heap_rel (h1\<lparr>ram := r2\<rparr>) (fuse xs i ys)"
    using fuse_facts [OF rel(5,1)] r2(2,3) h1 used by (simp add: heap_rel_def l_def)
  moreover have "same_data (insert 1024000 (fst ` set ?bs)) ?r r2"
    by (rule same_data_trans [OF _ r2(4)]) (simp add: r1_def same_data_set)
  ultimately show ?thesis using r2(1) by simp
qed

subsection \<open>Allocation\<close>

lemma mem_insert_ok:
  assumes "hdrs (ram h) 0 xs i" and "mem_get i (ram h) = \<lparr>mem_next = nn, mem_prev = lst 0 xs, mem_used = (if u then 1 else 0)\<rparr>"
    and "hdrs (ram h) j ys 1024000" and "i + 24 \<le> c" and "c + 24 \<le> nxt ys 1024000" and "4 dvd i" and "4 dvd c"
    and "mem_used (mem_get 1024000 (ram h)) = 1"
  shows "\<exists>r'. mem_insert i c (nxt ys 1024000) h = Ok (h\<lparr>ram := r'\<rparr>) \<and> hdrs r' 0 (xs @ (i, u) # (c, False) # ys) 1024000 \<and>
    mem_used (mem_get 1024000 r') = 1 \<and> same_data (insert 1024000 (insert c (fst ` set (xs @ (i, u) # ys)))) (ram h) r'"
proof -
  let ?r = "ram h" and ?n = "nxt ys 1024000"
  have n: "?n \<le> 1024000" by (rule nxt_le [OF assms(3)])
  have e: "?n = 1024000 \<longleftrightarrow> ys = []" using hdrs_below [OF assms(3)] by (cases ys) fastforce+
  define r1 where "r1 = mem_set c \<lparr>mem_next = ?n, mem_prev = i, mem_used = 0\<rparr> ?r"
  define r2 where "r2 = mem_set i ((mem_get i r1)\<lparr>mem_next := c\<rparr>) r1"
  define r3 where "r3 = (if ys = [] then r2 else mem_set ?n ((mem_get ?n r2)\<lparr>mem_prev := c\<rparr>) r2)"
  have "mem_insert i c ?n h = Ok (h\<lparr>ram := r3\<rparr>)"
    using n assms(4,5) e by (auto simp: mem_insert_def r1_def r2_def r3_def)
  moreover have "hdrs r3 0 (xs @ (i, u) # (c, False) # ys) 1024000"
    by (rule hdrs_insert [OF assms(1-7) heap_bounds(1) r1_def r2_def r3_def])
  moreover have "mem_used (mem_get 1024000 r3) = 1"
  proof -
    have "mem_used (mem_get 1024000 r2) = 1" using assms(4,5,8) n by (simp add: r1_def r2_def mem_get_set_other)
    moreover have "hdrs r2 j ys 1024000"
      using hdrs_set_front [OF hdrs_set_front [OF assms(3)]] assms(4,5) by (simp add: r1_def r2_def)
    ultimately show ?thesis using end_relink [of r2 j ys c] assms(5) n by (simp add: r3_def)
  qed
  moreover have "same_data (insert 1024000 (insert c (fst ` set (xs @ (i, u) # ys)))) ?r r3"
  proof -
    have "?n \<in> insert 1024000 (fst ` set ys)" by (cases ys) auto
    then have "same_data (insert 1024000 (insert c (fst ` set (xs @ (i, u) # ys)))) r2 r3"
      by (auto simp: r3_def intro: same_data_set)
    moreover have "same_data (insert 1024000 (insert c (fst ` set (xs @ (i, u) # ys)))) ?r r1" unfolding r1_def by (rule same_data_set) simp
    moreover have "same_data (insert 1024000 (insert c (fst ` set (xs @ (i, u) # ys)))) r1 r2" unfolding r2_def by (rule same_data_set) simp
    ultimately show ?thesis using same_data_trans by blast
  qed
  ultimately show ?thesis by blast
qed

fun first_fit :: "nat \<Rightarrow> blocks \<Rightarrow> (blocks \<times> nat \<times> blocks) option" where
  "first_fit s [] = None"
| "first_fit s ((i, u) # bs) =
     (if \<not> u \<and> i + 12 + s \<le> nxt bs MEM_SIZE_ALIGNED then Some ([], i, bs)
      else map_option (\<lambda>(xs, j, ys). ((i, u) # xs, j, ys)) (first_fit s bs))"

lemma first_fit_Some: "first_fit s bs = Some (xs, i, ys) \<Longrightarrow> bs = xs @ (i, False) # ys \<and> i + 12 + s \<le> nxt ys 1024000"
  by (induction bs arbitrary: xs) (auto split: if_splits)

lemma first_fit_None: "hdrs r p bs 1024000 \<Longrightarrow> 1024000 \<le> nxt bs 1024000 + s \<Longrightarrow> first_fit s bs = None"
proof (induction bs arbitrary: p)
  case (Cons b bs)
  obtain j v where b: "b = (j, v)" by (cases b)
  then show ?case using Cons.IH [of j] Cons.prems nxt_le [of r j bs 1024000] by auto
qed simp

lemma first_fit_used: "\<forall>k. (k, False) \<notin> set us \<Longrightarrow> first_fit s (us @ bs) = map_option (\<lambda>(xs, j, ys). (us @ xs, j, ys)) (first_fit s bs)"
proof (induction us)
  case Nil
  then show ?case by (simp add: option.map_ident case_prod_beta)
next
  case (Cons b us)
  then show ?case by (cases b) (auto simp: option.map_comp o_def case_prod_beta)
qed

lemma mem_scan_ok:
  assumes "hdrs (ram h) p bs 1024000" and "s \<le> 1024000"
  shows "mem_scan s h (nxt bs 1024000) = Some (Ok (map_option (\<lambda>(xs, i, ys). (i, mem_get i (ram h))) (first_fit s bs)))"
  using assms(1)
proof (induction bs arbitrary: p)
  case Nil
  then show ?case using assms(2) by (simp add: mem_scan.simps)
next
  case (Cons b bs)
  obtain j v where b: "b = (j, v)" by (cases b)
  have g: "mem_get j (ram h) = \<lparr>mem_next = nxt bs 1024000, mem_prev = p, mem_used = (if v then 1 else 0)\<rparr>" "j + 24 \<le> nxt bs 1024000"
    "hdrs (ram h) j bs 1024000" using Cons.prems b by auto
  have n: "nxt bs 1024000 \<le> 1024000" by (rule nxt_le [OF g(3)])
  show ?case
  proof (cases "1024000 \<le> j + s")
    case True
    then show ?thesis using first_fit_None [OF Cons.prems] b assms(2) by (simp add: mem_scan.simps)
  next
    case False
    have f: "s \<le> nxt bs 1024000 - (j + 12) \<longleftrightarrow> j + 12 + s \<le> nxt bs 1024000" using g(2) by linarith
    show ?thesis using False g n assms(2) b f Cons.IH [OF g(3)]
      by (subst mem_scan.simps) (auto simp: option.map_comp o_def case_prod_beta)
  qed
qed

lemma mem_lowest_ok: "hdrs (ram h) p bs 1024000 \<Longrightarrow> mem_lowest h (nxt bs 1024000) = Some (Ok (lowest bs))"
proof (induction bs arbitrary: p)
  case Nil
  then show ?case by (subst mem_lowest.simps) simp
next
  case (Cons b bs)
  obtain j v where b: "b = (j, v)" by (cases b)
  have "j + 24 \<le> nxt bs 1024000" "hdrs (ram h) j bs 1024000" using Cons.prems b by auto
  then show ?case using Cons.IH [of j] Cons.prems b nxt_le [of "ram h" j bs 1024000] by (subst mem_lowest.simps) simp
qed

text \<open>The list after the free block at \<open>i\<close> was taken for \<open>s\<close> bytes.\<close>

definition carve :: "nat \<Rightarrow> blocks \<Rightarrow> nat \<Rightarrow> blocks \<Rightarrow> blocks" where
  "carve s xs i ys =
     (if i + 36 + s \<le> nxt ys MEM_SIZE_ALIGNED then xs @ (i, True) # (i + 12 + s, False) # ys else xs @ (i, True) # ys)"

lemma carve_facts:
  assumes "merged (xs @ (i, False) # ys)" and "nxt xs i = 0"
  shows "merged (carve s xs i ys)" "nxt (carve s xs i ys) 1024000 = 0"
    "(k, False) \<in> set xs \<Longrightarrow> lowest (carve s xs i ys) = lowest (xs @ (i, False) # ys)"
  using assms by (cases ys; auto simp: carve_def)+

lemma mem_take_ok:
  assumes "hdrs (ram h) 0 (xs @ (i, False) # ys) 1024000" and "mem_used (mem_get 1024000 (ram h)) = 1"
    and "hs_used h = used_sum (xs @ (i, False) # ys) 1024000" and "i + 12 + s \<le> nxt ys 1024000" and "12 \<le> s" and "4 dvd s"
  shows "\<exists>h'. mem_take s i (mem_get i (ram h)) h = Ok h' \<and> hdrs (ram h') 0 (carve s xs i ys) 1024000 \<and>
    mem_used (mem_get 1024000 (ram h')) = 1 \<and> hs_used h' = used_sum (carve s xs i ys) 1024000 \<and> lfree h' = lfree h \<and>
    same_data (insert 1024000 (fst ` (set (xs @ (i, False) # ys) \<union> set (carve s xs i ys)))) (ram h) (ram h')"
proof -
  let ?r = "ram h" and ?n = "nxt ys 1024000" and ?K = "insert 1024000 (fst ` (set (xs @ (i, False) # ys) \<union> set (carve s xs i ys)))"
  have x: "hdrs ?r 0 xs i" and g: "mem_get i ?r = \<lparr>mem_next = ?n, mem_prev = lst 0 xs, mem_used = (if False then 1 else 0)\<rparr>"
    "4 dvd i" and y: "hdrs ?r i ys 1024000" using assms(1) by auto
  have n: "?n \<le> 1024000" by (rule nxt_le [OF y])
  have fit: "24 + s \<le> ?n - (i + 12) \<longleftrightarrow> i + 36 + s \<le> ?n" using assms(4) by linarith
  have room: "used_sum xs i + used_sum ys 1024000 + ?n - i \<le> 1024000" "used_sum xs i + used_sum ys 1024000 \<le> 1024000"
    using used_sum_le [OF x] used_sum_le [OF y] assms(4) by auto
  have mark: "\<exists>h2. mem_upd i (\<lambda>m. m\<lparr>mem_used := 1\<rparr>) h1 = Ok h2 \<and> hdrs (ram h2) 0 (xs @ (i, True) # zs) 1024000 \<and>
      mem_used (mem_get 1024000 (ram h2)) = 1 \<and> hs_used h2 = hs_used h1 \<and> lfree h2 = lfree h1 \<and> same_data ?K (ram h1) (ram h2)"
    if "hdrs (ram h1) 0 (xs @ (i, False) # zs) 1024000" "mem_used (mem_get 1024000 (ram h1)) = 1" for h1 zs
  proof -
    have "hdrs (mem_set i ((mem_get i (ram h1))\<lparr>mem_used := 1\<rparr>) (ram h1)) 0 (xs @ (i, True) # zs) 1024000"
      using hdrs_mark [OF that(1) heap_bounds, of True] by (simp only: if_True)
    then show ?thesis using that(2) assms(4) n by (simp add: mem_get_set_other same_data_set del: hdrs_append)
  qed
  show ?thesis
  proof (cases "i + 36 + s \<le> ?n")
    case True
    have "4 dvd i + 12 + s" using g(2) assms(6) by presburger
    then obtain r1 where r1: "mem_insert i (i + 12 + s) ?n h = Ok (h\<lparr>ram := r1\<rparr>)"
      "hdrs r1 0 (xs @ (i, False) # (i + 12 + s, False) # ys) 1024000" "mem_used (mem_get 1024000 r1) = 1"
      "same_data (insert 1024000 (insert (i + 12 + s) (fst ` set (xs @ (i, False) # ys)))) ?r r1"
      using mem_insert_ok [OF x g(1) y, of "i + 12 + s"] True assms(2,5) g(2) by auto
    have k: "same_data ?K ?r r1" by (rule same_data_mono [OF r1(4)]) (use True in \<open>auto simp: carve_def\<close>)
    have "hdrs (ram (h\<lparr>ram := r1\<rparr>)) 0 (xs @ (i, False) # (i + 12 + s, False) # ys) 1024000" "mem_used (mem_get 1024000 (ram (h\<lparr>ram := r1\<rparr>))) = 1"
      using r1(2,3) by simp_all
    from mark [OF this]
    obtain h2 where h2: "mem_upd i (\<lambda>m. m\<lparr>mem_used := 1\<rparr>) (h\<lparr>ram := r1\<rparr>) = Ok h2" "hdrs (ram h2) 0 (xs @ (i, True) # (i + 12 + s, False) # ys) 1024000"
      "mem_used (mem_get 1024000 (ram h2)) = 1" "hs_used h2 = hs_used h" "lfree h2 = lfree h" "same_data ?K r1 (ram h2)"
      by (auto simp del: hdrs_append)
    have "mem_take s i (mem_get i ?r) h = Ok (mem_inc_used (s + 12) h2)"
      using fit [THEN iffD2, OF True] g(1) n assms(4) r1(1) h2(1) by (simp add: mem_take_def Let_def del: mem_upd_in)
    moreover have "hs_used (mem_inc_used (s + 12) h2) = used_sum (carve s xs i ys) 1024000"
      using h2(4) assms(3) room True by (simp add: mem_inc_used_def Let_def carve_def)
    ultimately show ?thesis using h2 True same_data_trans [OF k h2(6)] by (auto simp: carve_def mem_inc_used_def Let_def)
  next
    case False
    obtain h2 where h2: "mem_upd i (\<lambda>m. m\<lparr>mem_used := 1\<rparr>) h = Ok h2" "hdrs (ram h2) 0 (xs @ (i, True) # ys) 1024000"
      "mem_used (mem_get 1024000 (ram h2)) = 1" "hs_used h2 = hs_used h" "lfree h2 = lfree h" "same_data ?K ?r (ram h2)"
      using mark [OF assms(1,2)] by (auto simp del: hdrs_append)
    have "mem_take s i (mem_get i ?r) h = Ok (mem_inc_used (?n - i) h2)"
      using False fit g(1) n assms(4) h2(1) by (auto simp: mem_take_def Let_def simp del: mem_upd_in)
    moreover have "hs_used (mem_inc_used (?n - i) h2) = used_sum (carve s xs i ys) 1024000"
      using h2(4) assms(3,4) room False by (simp add: mem_inc_used_def Let_def carve_def)
    ultimately show ?thesis using h2 False by (auto simp: carve_def mem_inc_used_def Let_def)
  qed
qed

lemma split_lowest: "\<exists>us vs. bs = us @ vs \<and> (\<forall>k. (k, False) \<notin> set us) \<and> nxt vs MEM_SIZE_ALIGNED = lowest bs"
proof (induction bs)
  case (Cons b bs)
  obtain i u where b: "b = (i, u)" by (cases b)
  from Cons obtain us vs where v: "bs = us @ vs" "\<forall>k. (k, False) \<notin> set us" "nxt vs MEM_SIZE_ALIGNED = lowest bs" by blast
  show ?case
  proof (cases u)
    case True
    then show ?thesis using v b by (intro exI [of _ "b # us"] exI [of _ vs]) auto
  next
    case False
    then show ?thesis using b by (intro exI [of _ "[]"] exI [of _ "b # bs"]) simp
  qed
qed simp

lemma heap_scan:
  assumes "heap_rel h bs" and "s \<le> 1024000"
  shows "mem_scan s h (lfree h) = Some (Ok (map_option (\<lambda>(xs, i, ys). (i, mem_get i (ram h))) (first_fit s bs)))"
proof -
  obtain us vs where v: "bs = us @ vs" "\<forall>k. (k, False) \<notin> set us" "nxt vs 1024000 = lowest bs" using split_lowest [of bs] by auto
  have "hdrs (ram h) (lst 0 us) vs 1024000" "lfree h = nxt vs 1024000" using assms(1) v by (simp_all add: heap_rel_def)
  then show ?thesis using mem_scan_ok [of h "lst 0 us" vs s] assms(2) first_fit_used [OF v(2), of s vs] v(1)
    by (cases "first_fit s vs") auto
qed

lemma mem_request_facts:
  "4 dvd mem_request n" "12 \<le> mem_request n" "n + 3 < 2 ^ 32 \<Longrightarrow> n \<le> mem_request n"
  by (auto simp: mem_request_def mem_align_def Let_def)

lemma mem_malloc_ok:
  assumes "heap_rel h bs" and "n \<noteq> 0" and "mem_request n \<le> 1024000" and "first_fit (mem_request n) bs = Some (xs, i, ys)"
  shows "\<exists>h'. mem_malloc n h = Some (Ok (Some (int i + 12), h')) \<and> heap_rel h' (carve (mem_request n) xs i ys) \<and>
    same_data (insert 1024000 (fst ` (set bs \<union> set (carve (mem_request n) xs i ys)))) (ram h) (ram h')"
proof -
  let ?s = "mem_request n" and ?cs = "carve (mem_request n) xs i ys"
  have f: "bs = xs @ (i, False) # ys" "i + 12 + ?s \<le> nxt ys 1024000" using first_fit_Some [OF assms(4)] by auto
  have rel: "nxt xs i = 0" "hdrs (ram h) 0 bs 1024000" "mem_used (mem_get 1024000 (ram h)) = 1" "lfree h = lowest bs" "merged bs"
    "hs_used h = used_sum bs 1024000" using assms(1) f(1) by (simp_all add: heap_rel_def)
  have y: "hdrs (ram h) i ys 1024000" "4 dvd i" using rel(2) f(1) by simp_all
  obtain h1 where h1: "mem_take ?s i (mem_get i (ram h)) h = Ok h1" "hdrs (ram h1) 0 ?cs 1024000" "mem_used (mem_get 1024000 (ram h1)) = 1"
    "hs_used h1 = used_sum ?cs 1024000" "lfree h1 = lfree h" "same_data (insert 1024000 (fst ` (set bs \<union> set ?cs))) (ram h) (ram h1)"
    using mem_take_ok [of h xs i ys ?s] rel(2,3,6) f mem_request_facts(1,2) by auto
  define tail where "tail = (if i + 36 + ?s \<le> nxt ys 1024000 then (i + 12 + ?s, False) # ys else ys)"
  have cs: "?cs = xs @ (i, True) # tail" by (simp add: carve_def tail_def)
  have sc: "mem_scan ?s h (lfree h) = Some (Ok (Some (i, mem_get i (ram h))))" using heap_scan [OF assms(1,3)] assms(4) by simp
  have low: "(if i = lfree h1
      then run_bind (mem_lowest h1 (lfree h1)) (\<lambda>pos. run_res (mem_at pos h1)
        (\<lambda>c. if pos = MEM_SIZE_ALIGNED \<or> mem_used c = 0 then Some (Ok (h1\<lparr>lfree := pos\<rparr>)) else Some (Stop Assert)))
      else Some (Ok h1)) = Some (Ok (h1\<lparr>lfree := lowest ?cs\<rparr>))"
  proof (cases "\<exists>k. (k, False) \<in> set xs")
    case True
    then obtain k where k: "(k, False) \<in> set xs" by blast
    have "lowest xs < i" using hdrs_below [of "ram h" 0 xs i "lowest xs" False] lowest_in [OF k] rel(2) f(1) by simp
    then have "i \<noteq> lfree h1" "lfree h1 = lowest ?cs" using k h1(5) rel(4) f(1) cs by auto
    then show ?thesis by (cases h1) simp
  next
    case False
    then have l: "lfree h1 = i" "lowest ?cs = lowest ((i, True) # tail)" using h1(5) rel(4) f(1) cs by auto
    have hd: "hdrs (ram h1) (lst 0 xs) ((i, True) # tail) 1024000" using h1(2) cs by simp
    have lw: "mem_lowest h1 i = Some (Ok (lowest ((i, True) # tail)))" using mem_lowest_ok [OF hd] by simp
    have "lowest ((i, True) # tail) = 1024000 \<or> mem_used (mem_get (lowest ((i, True) # tail)) (ram h1)) = 0 \<and> lowest ((i, True) # tail) < 1024000"
    proof (cases "\<exists>k. (k, False) \<in> set ((i, True) # tail)")
      case True
      then obtain k where "(k, False) \<in> set ((i, True) # tail)" by blast
      then have "(lowest ((i, True) # tail), False) \<in> set ((i, True) # tail)" by (rule lowest_in)
      from hdrs_used [OF hd this] hdrs_below [OF hd this] show ?thesis by simp
    next
      case False
      then show ?thesis by simp
    qed
    then show ?thesis using l lw by auto
  qed
  have h2: "heap_rel (h1\<lparr>lfree := lowest ?cs\<rparr>) ?cs"
    using h1 carve_facts(1,2) [of xs i ys] rel(1,5) f(1) by (simp add: heap_rel_def)
  have "(i + 12) mod 4 = 0" using y(2) by presburger
  then have "mem_malloc n h = Some (Ok (Some (int i + 12), h1\<lparr>lfree := lowest ?cs\<rparr>))"
    using assms(2,3) sc h1(1) low f(2) nxt_le [OF y(1)] by (simp add: mem_malloc_def Let_def)
  then show ?thesis using h2 h1(6) by simp
qed


subsection \<open>Shrinking and initialisation\<close>

definition shrink :: "nat \<Rightarrow> blocks \<Rightarrow> nat \<Rightarrow> blocks \<Rightarrow> blocks" where
  "shrink s xs i ys =
     (if i + 12 + s = nxt ys MEM_SIZE_ALIGNED then xs @ (i, True) # ys
      else if behind ys \<noteq> ys then xs @ (i, True) # (i + 12 + s, False) # behind ys
      else if i + 36 + s \<le> nxt ys MEM_SIZE_ALIGNED then xs @ (i, True) # (i + 12 + s, False) # ys
      else xs @ (i, True) # ys)"

lemma ram_dec_used [simp]: "ram (mem_dec_used n h) = ram h"
  by (simp add: mem_dec_used_def)

lemma trim_rel:
  assumes "heap_rel h (xs @ (i, True) # ys)" and "zs = behind ys" and "i + 12 + s < nxt ys 1024000" and "12 \<le> s" and "4 dvd s"
    and "zs = ys \<longrightarrow> i + 36 + s \<le> nxt ys 1024000"
    and "l = lowest (xs @ (i, True) # (i + 12 + s, False) # zs)"
  shows "\<exists>h'. mem_insert i (i + 12 + s) (nxt zs 1024000) (h\<lparr>lfree := l\<rparr>) = Ok h' \<and>
    heap_rel (mem_dec_used (nxt ys 1024000 - i - 12 - s) h') (xs @ (i, True) # (i + 12 + s, False) # zs) \<and>
    same_data (insert 1024000 (fst ` (set (xs @ (i, True) # ys) \<union> set (xs @ (i, True) # (i + 12 + s, False) # zs)))) (ram h) (ram h')"
proof -
  let ?bs = "xs @ (i, True) # ys" and ?r = "ram h" and ?c = "i + 12 + s" and ?h = "h\<lparr>lfree := l\<rparr>"
  have rel: "nxt xs i = 0" "hdrs ?r 0 ?bs 1024000" "mem_used (mem_get 1024000 ?r) = 1" "merged ?bs"
    "hs_used h = used_sum ?bs 1024000" using assms(1) by (simp_all add: heap_rel_def)
  have x: "hdrs ?r 0 xs i" and g: "mem_get i ?r = \<lparr>mem_next = nxt ys 1024000, mem_prev = lst 0 xs, mem_used = (if True then 1 else 0)\<rparr>"
    "4 dvd i" and y: "hdrs ?r i ys 1024000" using rel(2) by auto
  have d: "4 dvd ?c" using g(2) assms(5) by presburger
  have z: "\<exists>j. hdrs ?r j zs 1024000" "?c + 24 \<le> nxt zs 1024000"
  proof -
    consider "zs = ys" | j where "ys = (j, False) # zs" using assms(2) by (cases ys rule: behind.cases) auto
    then show "\<exists>j. hdrs ?r j zs 1024000" "?c + 24 \<le> nxt zs 1024000" using y assms(3,6) by (cases; auto)+
  qed
  then obtain j where j: "hdrs ?r j zs 1024000" by blast
  have "hdrs (ram ?h) 0 xs i" "mem_get i (ram ?h) = \<lparr>mem_next = nxt ys 1024000, mem_prev = lst 0 xs, mem_used = (if True then 1 else 0)\<rparr>"
    "hdrs (ram ?h) j zs 1024000" "mem_used (mem_get 1024000 (ram ?h)) = 1" using x g j rel(3) by simp_all
  from mem_insert_ok [OF this(1-3) _ z(2) g(2) d this(4)] assms(4)
  obtain r1 where r1: "mem_insert i ?c (nxt zs 1024000) ?h = Ok (?h\<lparr>ram := r1\<rparr>)"
    "hdrs r1 0 (xs @ (i, True) # (?c, False) # zs) 1024000" "mem_used (mem_get 1024000 r1) = 1"
    "same_data (insert 1024000 (insert ?c (fst ` set (xs @ (i, True) # zs)))) ?r r1" by auto
  have n: "nxt ys 1024000 \<le> 1024000" by (rule nxt_le [OF y])
  have us: "used_sum zs 1024000 = used_sum ys 1024000" using behind_facts(3) assms(2) by simp
  have "used_sum xs i + (nxt ys 1024000 - i) + used_sum ys 1024000 \<le> 1024000"
    using used_sum_le [OF rel(2)] by simp
  then have "hs_used (mem_dec_used (nxt ys 1024000 - i - 12 - s) (?h\<lparr>ram := r1\<rparr>)) = used_sum (xs @ (i, True) # (?c, False) # zs) 1024000"
    using rel(5) us assms(3) by (simp add: mem_dec_used_def)
  moreover have "merged (xs @ (i, True) # (?c, False) # zs)"
    using rel(4) behind_facts(1) [of "(i, True)" ys ?c] assms(2) by auto
  ultimately have "heap_rel (mem_dec_used (nxt ys 1024000 - i - 12 - s) (?h\<lparr>ram := r1\<rparr>)) (xs @ (i, True) # (?c, False) # zs)"
    using rel(1) r1(2,3) assms(7) by (simp add: heap_rel_def mem_dec_used_def)
  moreover have "same_data (insert 1024000 (fst ` (set ?bs \<union> set (xs @ (i, True) # (?c, False) # zs)))) ?r r1"
    by (rule same_data_mono [OF r1(4)]) (use behind_sub [of ys] assms(2) in auto)
  ultimately show ?thesis using r1(1) by simp
qed

lemma lowest_bounds:
  "hdrs r p xs q \<Longrightarrow> (k, False) \<in> set xs \<Longrightarrow> lowest xs + 24 \<le> q" "hdrs r p ys 1024000 \<Longrightarrow> nxt ys 1024000 \<le> lowest ys"
proof -
  show "lowest xs + 24 \<le> q" if "hdrs r p xs q" "(k, False) \<in> set xs" using hdrs_below [OF that(1) lowest_in [OF that(2)]] .
  show "nxt ys 1024000 \<le> lowest ys" if "hdrs r p ys 1024000"
  proof (cases "\<exists>k. (k, False) \<in> set ys")
    case True
    then obtain k where "(k, False) \<in> set ys" by blast
    from hdrs_above [OF that lowest_in [OF this]] show ?thesis .
  next
    case False
    then show ?thesis using nxt_le [OF that] by simp
  qed
qed

lemma mem_trim_step:
  assumes "mem_get i (ram h) = \<lparr>mem_next = m, mem_prev = p, mem_used = 1\<rparr>" and "mem_request n = s" and "i + 12 + s \<le> m" and "m \<le> 1024000" and "12 \<le> s"
  shows "mem_trim (Some (int i + 12)) n h =
      (if i + 12 + s = m then Ok (Some (int i + 12), h)
       else if mem_used (mem_get m (ram h)) = 0 then
         res_bind (mem_insert i (i + 12 + s) (mem_next (mem_get m (ram h))) (if lfree h = m then h\<lparr>lfree := i + 12 + s\<rparr> else h))
           (\<lambda>h2. Ok (Some (int i + 12), mem_dec_used (m - i - 12 - s) h2))
       else if i + 36 + s \<le> m then
         res_bind (mem_insert i (i + 12 + s) m (if i + 12 + s < lfree h then h\<lparr>lfree := i + 12 + s\<rparr> else h))
           (\<lambda>h2. Ok (Some (int i + 12), mem_dec_used (m - i - 12 - s) h2))
       else Ok (Some (int i + 12), h))"
proof -
  have e: "s = m - i - 12 \<longleftrightarrow> i + 12 + s = m" "s + 12 + 12 \<le> m - i - 12 \<longleftrightarrow> i + 36 + s \<le> m" "s \<le> m - i - 12" "m - i < 4294967296" "12 \<le> m - i"
    using assms(3,4) by linarith+
  have u: "u32_sub m i = m - i" "u32_sub (m - i) 12 = m - i - 12" "u32_sub (m - i - 12) s = m - i - 12 - s"
    "u32_add (u32_add i 12) s = i + 12 + s" "u32_add (u32_add s 12) 12 = s + 12 + 12" using e(3-5) assms(3,4) by simp_all
  have b: "\<not> s > 1024000" "mem_of (int i + 12) = Ok i" "0 \<le> int i + 12 \<and> int i + 12 < int 1024000" "i \<le> 1024000" using assms(3-5) by (simp_all add: mem_of_def nat_add_distrib)
  show ?thesis unfolding mem_trim_def Let_def assms(2) mem_sizes using b(1,3)
    by (simp only: option.case b(2) if_False if_True not_True_eq_False simp_thms res_bind.simps mem_at_in [OF b(4)] mem_at_in [OF assms(4)] assms(1) mem.simps u e)
qed

lemma mem_trim_ok:
  assumes "heap_rel h (xs @ (i, True) # ys)" and "i + 12 + mem_request n \<le> nxt ys 1024000"
  shows "\<exists>h'. mem_trim (Some (int i + 12)) n h = Ok (Some (int i + 12), h') \<and> heap_rel h' (shrink (mem_request n) xs i ys) \<and>
    same_data (insert 1024000 (fst ` (set (xs @ (i, True) # ys) \<union> set (shrink (mem_request n) xs i ys)))) (ram h) (ram h')"
proof -
  let ?bs = "xs @ (i, True) # ys" and ?r = "ram h" and ?n = "nxt ys 1024000"
  define s where "s = mem_request n"
  define l where "l = lowest (xs @ (i, True) # (i + 12 + s, False) # behind ys)"
  have rel: "hdrs ?r 0 ?bs 1024000" "mem_used (mem_get 1024000 ?r) = 1" "lfree h = lowest ?bs" using assms(1) by (simp_all add: heap_rel_def)
  have x: "hdrs ?r 0 xs i" and g: "mem_get i ?r = \<lparr>mem_next = ?n, mem_prev = lst 0 xs, mem_used = 1\<rparr>" and y: "hdrs ?r i ys 1024000"
    using rel(1) by auto
  have n: "?n \<le> 1024000" by (rule nxt_le [OF y])
  have s: "12 \<le> s" "4 dvd s" "i + 12 + s \<le> ?n" using mem_request_facts assms(2) by (auto simp: s_def)
  note st = mem_trim_step [OF g s_def [symmetric] s(3) n s(1)]
  have low: "l = (if \<exists>k. (k, False) \<in> set xs then lowest xs else i + 12 + s)" by (auto simp: l_def)
  have lf: "lfree h = (if \<exists>k. (k, False) \<in> set xs then lowest xs else lowest ys)" using rel(3) by simp
  consider (in_xs) "lfree h = lowest xs" "l = lowest xs" "lowest xs + 24 \<le> i" | (in_ys) "lfree h = lowest ys" "l = i + 12 + s"
    using lf low lowest_bounds(1) [OF x] by (cases "\<exists>k. (k, False) \<in> set xs") auto
  note lcases = this
  have keep: "h\<lparr>lfree := lfree h\<rparr> = h" by (cases h) simp
  consider (same) "i + 12 + s = ?n" | (free) j zs where "ys = (j, False) # zs" "i + 12 + s < ?n"
    | (room) "behind ys = ys" "i + 36 + s \<le> ?n" | (tight) "behind ys = ys" "\<not> i + 36 + s \<le> ?n" "i + 12 + s \<noteq> ?n"
    using s(3) by (cases ys rule: behind.cases) (auto simp: le_less)
  then show ?thesis
  proof cases
    case same
    then show ?thesis using st assms(1) by (simp add: shrink_def s_def [symmetric])
  next
    case free
    have j: "mem_used (mem_get j ?r) = 0" "mem_next (mem_get j ?r) = nxt zs 1024000" "lowest ys = j" "i + 12 \<le> j" using y free s by auto
    have "(if lfree h = j then h\<lparr>lfree := i + 12 + s\<rparr> else h) = h\<lparr>lfree := l\<rparr>" using lcases j(3,4) keep by cases auto
    then show ?thesis using trim_rel [OF assms(1) refl free(2) s(1,2) _ l_def] st free j
      by (auto simp: shrink_def s_def [symmetric])
  next
    case room
    have u: "mem_used (mem_get ?n ?r) \<noteq> 0" using room(1) y rel(2) by (cases ys rule: behind.cases) auto
    have "(if i + 12 + s < lfree h then h\<lparr>lfree := i + 12 + s\<rparr> else h) = h\<lparr>lfree := l\<rparr>"
      using lcases keep lowest_bounds(2) [OF y] room(2) by cases auto
    then show ?thesis using trim_rel [OF assms(1) refl _ s(1,2) _ l_def] st room u
      by (auto simp: shrink_def s_def [symmetric])
  next
    case tight
    have "mem_used (mem_get ?n ?r) \<noteq> 0" using tight(1) y rel(2) by (cases ys rule: behind.cases) auto
    then show ?thesis using st tight assms(1) by (simp add: shrink_def s_def [symmetric])
  qed
qed

lemma mem_init_ok: "hs_used h0 = 0 \<Longrightarrow> mem_init True h0 = Ok h \<Longrightarrow> heap_rel h [(0, False)]"
  by (auto simp: mem_init_def Let_def heap_rel_def mem_get_set_other)

lemma mem_malloc_none:
  assumes "heap_rel h bs" and "n = 0 \<or> 1024000 < mem_request n \<or> first_fit (mem_request n) bs = None"
  shows "\<exists>err. mem_malloc n h = Some (Ok (None, h\<lparr>hs_err := err\<rparr>))"
proof -
  have keep: "h\<lparr>hs_err := hs_err h\<rparr> = h" by (cases h) simp
  show ?thesis
  proof (cases "n = 0 \<or> 1024000 < mem_request n")
    case True
    then show ?thesis using keep by (intro exI [of _ "hs_err h"]) (auto simp: mem_malloc_def)
  next
    case False
    then show ?thesis using heap_scan [OF assms(1), of "mem_request n"] assms(2) by (auto simp: mem_malloc_def Let_def)
  qed
qed

end
