(* ===== verification/Mem_Heap.thy ===== *)
theory Mem_Heap
  imports Mem_Props
begin

text \<open>
  What the heap of lwIP promises its users. The interface is the locale \<open>allocator\<close>: regions that do
  not overlap, an allocation that leaves the others alone, and freeing and shrinking that do the same.
  Inside it, programs that use an allocator are shown to run through, and their objects to hold what
  they wrote. \<^verbatim>\<open>mem_malloc\<close>, \<^verbatim>\<open>mem_free\<close> and \<^verbatim>\<open>mem_trim\<close> are such an allocator.
\<close>

subsection \<open>Regions\<close>

text \<open>The data of the blocks in use, each as its address and its length.\<close>

fun regions :: "blocks \<Rightarrow> nat \<Rightarrow> (nat \<times> nat) set" where
  "regions [] q = {}"
| "regions ((i, u) # bs) q = (if u then {(i + 12, nxt bs q - i - 12)} else {}) \<union> regions bs q"

lemma regions_append [simp]: "regions (xs @ ys) q = regions xs (nxt ys q) \<union> regions ys q"
  by (induction xs) auto

lemma regions_free: "xs \<noteq> [] \<Longrightarrow> \<not> snd (last xs) \<Longrightarrow> regions xs q = regions xs q'"
  by (cases xs rule: rev_cases) auto

lemma regions_behind [simp]: "regions (behind ys) q = regions ys q"
  by (cases ys rule: behind.cases) auto

lemma regions_split:
  "(a, l) \<in> regions bs q \<Longrightarrow> \<exists>xs i ys. bs = xs @ (i, True) # ys \<and> a = i + 12 \<and> l = nxt ys q - i - 12"
proof (induction bs)
  case (Cons b bs)
  obtain i u where b: "b = (i, u)" by (cases b)
  show ?case
  proof (cases "(a, l) \<in> regions bs q")
    case True
    then obtain xs j ys where "bs = xs @ (j, True) # ys" "a = j + 12" "l = nxt ys q - j - 12" using Cons.IH by blast
    then show ?thesis by (intro exI [of _ "b # xs"] exI [of _ j] exI [of _ ys]) simp
  next
    case False
    then show ?thesis using Cons.prems b by (intro exI [of _ "[]"] exI [of _ i] exI [of _ bs]) (auto split: if_splits)
  qed
qed simp

lemma regions_range:
  "hdrs r p bs q \<Longrightarrow> (a, l) \<in> regions bs q \<Longrightarrow> nxt bs q + 12 \<le> a \<and> a + l \<le> q \<and> 12 \<le> l \<and> 4 dvd a"
proof (induction bs arbitrary: p)
  case (Cons b bs)
  obtain i u where b: "b = (i, u)" by (cases b)
  have g: "i + 24 \<le> nxt bs q" "4 dvd i" "hdrs r i bs q" using Cons.prems(1) b by auto
  have d: "4 dvd i + 12" using g(2) by presburger
  show ?case
  proof (cases "(a, l) \<in> regions bs q")
    case True
    then show ?thesis using Cons.IH [OF g(3)] g(1) b by auto
  next
    case False
    then show ?thesis using Cons.prems(2) b g(1) d nxt_le [OF g(3)] by (auto split: if_splits)
  qed
qed simp

lemma regions_apart:
  "hdrs r p bs q \<Longrightarrow> (a, l) \<in> regions bs q \<Longrightarrow> (b, m) \<in> regions bs q \<Longrightarrow> (a, l) = (b, m) \<or> a + l + 12 \<le> b \<or> b + m + 12 \<le> a"
proof (induction bs arbitrary: p)
  case (Cons c bs)
  obtain i u where c: "c = (i, u)" by (cases c)
  have g: "i + 24 \<le> nxt bs q" "hdrs r i bs q" using Cons.prems(1) c by auto
  have away: "i + 12 + (nxt bs q - i - 12) + 12 \<le> x" if "(x, y) \<in> regions bs q" for x y
    using regions_range [OF g(2) that] g(1) by simp
  have in_c: "(x, y) \<in> regions bs q \<or> x = i + 12 \<and> y = nxt bs q - i - 12" if "(x, y) \<in> regions (c # bs) q" for x y
    using that c by (auto split: if_splits)
  from in_c [OF Cons.prems(2)] in_c [OF Cons.prems(3)] show ?case
  proof (elim disjE)
    assume "(a, l) \<in> regions bs q" "(b, m) \<in> regions bs q"
    then show ?thesis by (rule Cons.IH [OF g(2)])
  qed (use away in auto)
qed simp

lemma regions_headers:
  "hdrs r p bs q \<Longrightarrow> (a, l) \<in> regions bs q \<Longrightarrow> k \<in> insert q (fst ` set bs) \<Longrightarrow> k + 12 \<le> a \<or> a + l \<le> k"
proof (induction bs arbitrary: p)
  case (Cons c bs)
  obtain i u where c: "c = (i, u)" by (cases c)
  have g: "i + 24 \<le> nxt bs q" "hdrs r i bs q" using Cons.prems(1) c by auto
  show ?case
  proof (cases "(a, l) \<in> regions bs q")
    case True
    show ?thesis
    proof (cases "k \<in> insert q (fst ` set bs)")
      case False
      then have "k = i" using Cons.prems(3) c by simp
      then show ?thesis using regions_range [OF g(2) True] g(1) by simp
    qed (rule Cons.IH [OF g(2) True])
  next
    case False
    then have a: "a = i + 12" "l = nxt bs q - i - 12" using Cons.prems(2) c by (auto split: if_splits)
    have "k = i \<or> nxt bs q \<le> k" using Cons.prems(3) c nxt_le [OF g(2)] hdrs_above [OF g(2)] by auto
    then show ?thesis using a g(1) by auto
  qed
qed simp

lemma regions_kept:
  assumes "same_data (insert 1024000 (fst ` (set bs \<union> set cs))) r r'" and "hdrs r p bs 1024000" and "hdrs r' p' cs 1024000"
    and "(a, l) \<in> regions bs 1024000" "a \<le> j" "j < a + l" and "(b, m) \<in> regions cs 1024000" "b \<le> j" "j < b + m"
  shows "r' j = r j"
proof -
  have "j < k \<or> k + 9 \<le> j" if k: "k \<in> insert 1024000 (fst ` (set bs \<union> set cs))" for k
  proof -
    from k consider "k \<in> insert 1024000 (fst ` set bs)" | "k \<in> insert 1024000 (fst ` set cs)" by blast
    then show ?thesis
    proof cases
      case 1
      then show ?thesis using regions_headers [OF assms(2,4) 1] assms(5,6) by linarith
    next
      case 2
      then show ?thesis using regions_headers [OF assms(3,7) 2] assms(8,9) by linarith
    qed
  qed
  then show ?thesis using assms(1) unfolding same_data_def by blast
qed

lemma regions_fuse:
  "regions (fuse xs i ys) q = regions xs i \<union> regions ys q"
  using regions_free [of xs "nxt (behind ys) q" i] by (auto simp: fuse_def)

lemma regions_carve:
  assumes "i + 12 + s \<le> nxt ys 1024000"
  shows "\<exists>l. regions (carve s xs i ys) 1024000 = insert (i + 12, l) (regions (xs @ (i, False) # ys) 1024000) \<and> s \<le> l"
  using assms by (auto simp: carve_def)

lemma regions_shrink:
  assumes "i + 12 + s \<le> nxt ys 1024000"
  shows "\<exists>l. regions (shrink s xs i ys) 1024000 = insert (i + 12, l) (regions xs i \<union> regions ys 1024000) \<and> s \<le> l \<and> l \<le> nxt ys 1024000 - i - 12"
  using assms by (auto simp: shrink_def)

subsection \<open>Programs that use an allocator\<close>

text \<open>
  A program asks for objects, writes to them, shrinks them and gives them back; objects are numbered
  in the order of the requests. An object is its address, its size and what the program wrote to it.
  A program never touches what it does not own: such operations do nothing.
\<close>

datatype mem_op = Get nat | Put nat nat u8 | Cut nat nat | Drop nat

type_synonym obj = "nat \<times> nat \<times> (nat \<rightharpoonup> u8)"

definition obj_at :: "obj option list \<Rightarrow> nat \<Rightarrow> obj option" where
  "obj_at os k = (if k < length os then os ! k else None)"

fun mem_run ::
    "(nat \<Rightarrow> 'h \<Rightarrow> (int option \<times> 'h) run) \<Rightarrow> (int option \<Rightarrow> 'h \<Rightarrow> 'h res) \<Rightarrow> (int option \<Rightarrow> nat \<Rightarrow> 'h \<Rightarrow> (int option \<times> 'h) res) \<Rightarrow>
     (nat \<Rightarrow> u8 \<Rightarrow> 'h \<Rightarrow> 'h) \<Rightarrow> mem_op list \<Rightarrow> 'h \<Rightarrow> obj option list \<Rightarrow> ('h \<times> obj option list) run" where
  "mem_run alloc release trim store [] h os = Some (Ok (h, os))"
| "mem_run alloc release trim store (Get n # ops) h os =
     run_bind (alloc n h) (\<lambda>(p, h1). mem_run alloc release trim store ops h1 (os @ [map_option (\<lambda>a. (nat a, n, Map.empty)) p]))"
| "mem_run alloc release trim store (Put k i v # ops) h os =
     (case obj_at os k of
        Some (a, n, c) \<Rightarrow>
          if i < n then mem_run alloc release trim store ops (store (a + i) v h) (os[k := Some (a, n, c(i \<mapsto> v))])
          else mem_run alloc release trim store ops h os
      | None \<Rightarrow> mem_run alloc release trim store ops h os)"
| "mem_run alloc release trim store (Cut k m # ops) h os =
     (case obj_at os k of
        Some (a, n, c) \<Rightarrow>
          if m \<le> n then run_res (trim (Some (int a)) m h) (\<lambda>(_, h1). mem_run alloc release trim store ops h1 (os[k := Some (a, m, c)]))
          else mem_run alloc release trim store ops h os
      | None \<Rightarrow> mem_run alloc release trim store ops h os)"
| "mem_run alloc release trim store (Drop k # ops) h os =
     (case obj_at os k of
        Some (a, n, c) \<Rightarrow> run_res (release (Some (int a)) h) (\<lambda>h1. mem_run alloc release trim store ops h1 (os[k := None]))
      | None \<Rightarrow> mem_run alloc release trim store ops h os)"

lemma obj_at_update [simp]: "k < length os \<Longrightarrow> obj_at (os[k := x]) j = (if j = k then x else obj_at os j)"
  by (auto simp: obj_at_def)

lemma obj_at_append [simp]: "obj_at (os @ [x]) j = (if j = length os then x else obj_at os j)"
  by (auto simp: obj_at_def nth_append)

lemma obj_at_less: "obj_at os k = Some x \<Longrightarrow> k < length os"
  by (auto simp: obj_at_def split: if_splits)

text \<open>The objects of a program and the regions \<open>L\<close> of the allocator belong together.\<close>

definition objs_fit :: "(nat \<Rightarrow> nat) \<Rightarrow> (nat \<Rightarrow> u8) \<Rightarrow> (nat \<times> nat) set \<Rightarrow> obj option list \<Rightarrow> bool" where
  "objs_fit room bytes L os \<longleftrightarrow>
     (\<forall>k a n c. obj_at os k = Some (a, n, c) \<longrightarrow>
        (\<exists>l. (a, l) \<in> L \<and> room n \<le> l \<and> n \<le> room n) \<and> (\<forall>i<n. \<forall>v. c i = Some v \<longrightarrow> bytes (a + i) = v)) \<and>
     (\<forall>k k' a n c n' c'. obj_at os k = Some (a, n, c) \<longrightarrow> obj_at os k' = Some (a, n', c') \<longrightarrow> k = k') \<and>
     (\<forall>(a, l)\<in>L. \<exists>k n c. obj_at os k = Some (a, n, c))"

locale allocator =
  fixes inv :: "'h \<Rightarrow> (nat \<times> nat) set \<Rightarrow> bool" and bytes :: "'h \<Rightarrow> nat \<Rightarrow> u8" and store :: "nat \<Rightarrow> u8 \<Rightarrow> 'h \<Rightarrow> 'h"
    and alloc :: "nat \<Rightarrow> 'h \<Rightarrow> (int option \<times> 'h) run" and release :: "int option \<Rightarrow> 'h \<Rightarrow> 'h res"
    and trim :: "int option \<Rightarrow> nat \<Rightarrow> 'h \<Rightarrow> (int option \<times> 'h) res" and room :: "nat \<Rightarrow> nat" and good :: "nat \<Rightarrow> bool"
  assumes apart: "inv h L \<Longrightarrow> (a, l) \<in> L \<Longrightarrow> (b, m) \<in> L \<Longrightarrow> (a, l) = (b, m) \<or> a + l \<le> b \<or> b + m \<le> a"
    and filled: "inv h L \<Longrightarrow> (a, l) \<in> L \<Longrightarrow> 0 < l"
    and enough: "good n \<Longrightarrow> n \<le> room n"
    and smaller: "n \<le> room n \<Longrightarrow> m \<le> n \<Longrightarrow> m \<le> room m \<and> room m \<le> room n"
    and alloc_law: "inv h L \<Longrightarrow> good n \<Longrightarrow>
      (\<exists>h'. alloc n h = Some (Ok (None, h')) \<and> inv h' L \<and> bytes h' = bytes h) \<or>
      (\<exists>a l h'. alloc n h = Some (Ok (Some (int a), h')) \<and> room n \<le> l \<and> inv h' (insert (a, l) L) \<and> a \<notin> fst ` L \<and>
        (\<forall>b m j. (b, m) \<in> L \<longrightarrow> b \<le> j \<longrightarrow> j < b + m \<longrightarrow> bytes h' j = bytes h j))"
    and release_law: "inv h L \<Longrightarrow> (a, l) \<in> L \<Longrightarrow>
      \<exists>h'. release (Some (int a)) h = Ok h' \<and> inv h' (L - {(a, l)}) \<and>
        (\<forall>b m j. (b, m) \<in> L - {(a, l)} \<longrightarrow> b \<le> j \<longrightarrow> j < b + m \<longrightarrow> bytes h' j = bytes h j)"
    and trim_law: "inv h L \<Longrightarrow> (a, l) \<in> L \<Longrightarrow> room n \<le> l \<Longrightarrow>
      \<exists>h' l'. trim (Some (int a)) n h = Ok (Some (int a), h') \<and> room n \<le> l' \<and> l' \<le> l \<and> inv h' (insert (a, l') (L - {(a, l)})) \<and>
        (\<forall>b m j. (b, m) \<in> insert (a, l') (L - {(a, l)}) \<longrightarrow> b \<le> j \<longrightarrow> j < b + m \<longrightarrow> bytes h' j = bytes h j)"
    and store_law: "inv h L \<Longrightarrow> (a, l) \<in> L \<Longrightarrow> a \<le> j \<Longrightarrow> j < a + l \<Longrightarrow>
      inv (store j v h) L \<and> bytes (store j v h) = (bytes h)(j := v)"
begin

lemma same_region: "inv h L \<Longrightarrow> (a, l) \<in> L \<Longrightarrow> (a, m) \<in> L \<Longrightarrow> l = m"
  using apart [of h L a l a m] filled [of h L a l] filled [of h L a m] by auto

text \<open>The bytes of the objects other than \<open>k\<close> may only change outside the regions.\<close>

lemma objs_fit_kept:
  assumes "objs_fit room r L os" and "\<And>b m j. (b, m) \<in> L' \<Longrightarrow> b \<le> j \<Longrightarrow> j < b + m \<Longrightarrow> r' j = r j"
    and "\<And>k a n c. obj_at os' k = Some (a, n, c) \<Longrightarrow>
      \<exists>n'. obj_at os k = Some (a, n', c) \<and> n \<le> n' \<and> (\<exists>l. (a, l) \<in> L' \<and> room n \<le> l \<and> n \<le> room n)"
    and "\<And>a l. (a, l) \<in> L' \<Longrightarrow> \<exists>k n c. obj_at os' k = Some (a, n, c)"
  shows "objs_fit room r' L' os'"
  unfolding objs_fit_def
proof (intro conjI allI impI ballI)
  fix k a n c assume k: "obj_at os' k = Some (a, n, c)"
  then obtain n' l where o: "obj_at os k = Some (a, n', c)" "n \<le> n'" "(a, l) \<in> L'" "room n \<le> l" "n \<le> room n" using assms(3) by blast
  then show "\<exists>l. (a, l) \<in> L' \<and> room n \<le> l \<and> n \<le> room n" by blast
  fix i v assume i: "i < n" "c i = Some v"
  have "r (a + i) = v" using assms(1) o(1,2) i unfolding objs_fit_def by fastforce
  then show "r' (a + i) = v" using assms(2) [OF o(3), of "a + i"] i(1) o(4,5) by simp
next
  fix k k' a n c n' c' assume "obj_at os' k = Some (a, n, c)" "obj_at os' k' = Some (a, n', c')"
  then obtain m m' where "obj_at os k = Some (a, m, c)" "obj_at os k' = Some (a, m', c')" using assms(3) by blast
  then show "k = k'" using assms(1) unfolding objs_fit_def by blast
next
  fix x assume "x \<in> L'"
  then show "case x of (a, l) \<Rightarrow> \<exists>k n c. obj_at os' k = Some (a, n, c)" using assms(4) by (cases x) auto
qed

lemma objs_fitD:
  assumes "objs_fit room r L os" and "obj_at os k = Some (a, n, c)"
  shows "\<exists>l. (a, l) \<in> L \<and> room n \<le> l \<and> n \<le> room n" "i < n \<Longrightarrow> c i = Some v \<Longrightarrow> r (a + i) = v"
    "obj_at os k' = Some (a, n', c') \<Longrightarrow> k = k'"
  using assms unfolding objs_fit_def by blast+

lemma fit_get:
  assumes "objs_fit room r L os" and "a \<notin> fst ` L" and "room n \<le> l" and "n \<le> room n"
  shows "objs_fit room r (insert (a, l) L) (os @ [Some (a, n, Map.empty)])"
proof -
  have new: "obj_at os k \<noteq> Some (a, n', c')" for k n' c' using objs_fitD(1) [OF assms(1)] assms(2) by (metis fst_conv image_eqI)
  have old: "\<exists>k n' c'. obj_at (os @ [Some (a, n, Map.empty)]) k = Some (b, n', c')" if b: "(b, m) \<in> L" for b m
  proof -
    obtain k n' c' where "obj_at os k = Some (b, n', c')" using assms(1) b unfolding objs_fit_def by fast
    then have "obj_at (os @ [Some (a, n, Map.empty)]) k = Some (b, n', c')" using obj_at_less [of os k] by auto
    then show ?thesis by blast
  qed
  show ?thesis unfolding objs_fit_def
  proof (intro conjI allI impI ballI)
    fix k b m d assume o: "obj_at (os @ [Some (a, n, Map.empty)]) k = Some (b, m, d)"
    show "\<exists>l'. (b, l') \<in> insert (a, l) L \<and> room m \<le> l' \<and> m \<le> room m"
    proof (cases "k = length os")
      case True
      then show ?thesis using o assms(3,4) by auto
    next
      case False
      then show ?thesis using o objs_fitD(1) [OF assms(1), of k b m d] by auto
    qed
  next
    fix x assume "x \<in> insert (a, l) L"
    then show "case x of (b, m) \<Rightarrow> \<exists>k n' c'. obj_at (os @ [Some (a, n, Map.empty)]) k = Some (b, n', c')"
      using old obj_at_append [of os "Some (a, n, Map.empty)" "length os"] by (cases x) fastforce
  qed (use new objs_fitD(2,3) [OF assms(1)] in \<open>auto split: if_splits\<close>)
qed

lemma fit_none:
  assumes "objs_fit room r L os"
  shows "objs_fit room r L (os @ [None])"
proof (rule objs_fit_kept [OF assms])
  fix a l assume "(a, l) \<in> L"
  then obtain k n c where "obj_at os k = Some (a, n, c)" using assms unfolding objs_fit_def by fast
  then have "obj_at (os @ [None]) k = Some (a, n, c)" using obj_at_less [of os k] by auto
  then show "\<exists>k n c. obj_at (os @ [None]) k = Some (a, n, c)" by blast
qed (use objs_fitD(1) [OF assms] in \<open>auto split: if_splits\<close>)

lemma fit_put:
  assumes "inv h L" and "objs_fit room r L os" and k: "obj_at os k = Some (a, n, c)" and "i < n"
  shows "objs_fit room (r(a + i := v)) L (os[k := Some (a, n, c(i \<mapsto> v))])"
proof -
  let ?os = "os[k := Some (a, n, c(i \<mapsto> v))]"
  have len: "k < length os" by (rule obj_at_less [OF k])
  obtain l where l: "(a, l) \<in> L" "room n \<le> l" "n \<le> room n" using objs_fitD(1) [OF assms(2) k] by blast
  have other: "b + j \<noteq> a + i" if o: "obj_at os k' = Some (b, m, d)" "k' \<noteq> k" "j < m" for k' b m d j
  proof -
    obtain l' where l': "(b, l') \<in> L" "room m \<le> l'" "m \<le> room m" using objs_fitD(1) [OF assms(2) o(1)] by blast
    have "b \<noteq> a" using objs_fitD(3) [OF assms(2) k, of k' m d] o(1,2) by auto
    then show ?thesis using apart [OF assms(1) l(1) l'(1)] l(2,3) l'(2,3) assms(4) o(3) by auto
  qed
  show ?thesis unfolding objs_fit_def
  proof (intro conjI allI impI ballI)
    fix k' b m d assume o: "obj_at ?os k' = Some (b, m, d)"
    then show "\<exists>l. (b, l) \<in> L \<and> room m \<le> l \<and> m \<le> room m"
      using len l objs_fitD(1) [OF assms(2), of k' b m d] by (auto split: if_splits)
    fix j w assume j: "j < m" "d j = Some w"
    show "(r(a + i := v)) (b + j) = w"
    proof (cases "k' = k")
      case True
      then show ?thesis using o j len objs_fitD(2) [OF assms(2) k, of j w] by (auto split: if_splits)
    next
      case False
      then show ?thesis using o j len other [of k' b m d j] objs_fitD(2) [OF assms(2), of k' b m d j w] by auto
    qed
  next
    fix k1 k2 b n1 c1 n2 c2 assume "obj_at ?os k1 = Some (b, n1, c1)" "obj_at ?os k2 = Some (b, n2, c2)"
    then show "k1 = k2" using len k objs_fitD(3) [OF assms(2)] by (auto split: if_splits)
  next
    fix x assume "x \<in> L"
    then obtain b m k' n' c' where x: "x = (b, m)" "obj_at os k' = Some (b, n', c')" using assms(2) unfolding objs_fit_def by fast
    have "\<exists>n c. obj_at ?os k' = Some (b, n, c)" using x len k by (cases "k' = k") auto
    then show "case x of (b, m) \<Rightarrow> \<exists>k n c. obj_at ?os k = Some (b, n, c)" using x(1) by auto
  qed
qed

lemma fit_trim:
  assumes "inv h L" and "objs_fit room (bytes h) L os" and k: "obj_at os k = Some (a, n, c)" and "m \<le> n"
  shows "\<exists>h' L'. trim (Some (int a)) m h = Ok (Some (int a), h') \<and> inv h' L' \<and> objs_fit room (bytes h') L' (os[k := Some (a, m, c)])"
proof -
  have len: "k < length os" by (rule obj_at_less [OF k])
  obtain l where l: "(a, l) \<in> L" "room n \<le> l" "n \<le> room n" using objs_fitD(1) [OF assms(2) k] by blast
  have m: "m \<le> room m" "room m \<le> l" using smaller [OF l(3) assms(4)] l(2) by auto
  obtain h' l' where h': "trim (Some (int a)) m h = Ok (Some (int a), h')" "room m \<le> l'" "inv h' (insert (a, l') (L - {(a, l)}))"
    "\<forall>b m j. (b, m) \<in> insert (a, l') (L - {(a, l)}) \<longrightarrow> b \<le> j \<longrightarrow> j < b + m \<longrightarrow> bytes h' j = bytes h j"
    using trim_law [OF assms(1) l(1) m(2)] by blast
  have other: "b \<noteq> a" if "obj_at os k' = Some (b, n', c')" "k' \<noteq> k" for k' b n' c'
    using objs_fitD(3) [OF assms(2) k, of k' n' c'] that by auto
  have "objs_fit room (bytes h') (insert (a, l') (L - {(a, l)})) (os[k := Some (a, m, c)])"
  proof (rule objs_fit_kept [OF assms(2)])
    show "bytes h' j = bytes h j" if "(b, m') \<in> insert (a, l') (L - {(a, l)})" "b \<le> j" "j < b + m'" for b m' j using h'(4) that by blast
    fix k' b n' c' assume o: "obj_at (os[k := Some (a, m, c)]) k' = Some (b, n', c')"
    show "\<exists>n''. obj_at os k' = Some (b, n'', c') \<and> n' \<le> n'' \<and> (\<exists>l''. (b, l'') \<in> insert (a, l') (L - {(a, l)}) \<and> room n' \<le> l'' \<and> n' \<le> room n')"
    proof (cases "k' = k")
      case True
      then show ?thesis using o len k assms(4) h'(2) m(1) by auto
    next
      case False
      then have o': "obj_at os k' = Some (b, n', c')" using o len by simp
      then show ?thesis using objs_fitD(1) [OF assms(2) o'] other [OF o' False] by auto
    qed
  next
    fix b m' assume "(b, m') \<in> insert (a, l') (L - {(a, l)})"
    then consider "b = a" | "(b, m') \<in> L" by auto
    then obtain k' n' c' where o: "obj_at os k' = Some (b, n', c')" using k assms(2) unfolding objs_fit_def by cases fast+
    have "\<exists>n c'. obj_at (os[k := Some (a, m, c)]) k' = Some (b, n, c')" using o len k by (cases "k' = k") auto
    then show "\<exists>k' n c'. obj_at (os[k := Some (a, m, c)]) k' = Some (b, n, c')" by blast
  qed
  then show ?thesis using h'(1,3) by blast
qed

lemma fit_drop:
  assumes "inv h L" and "objs_fit room (bytes h) L os" and k: "obj_at os k = Some (a, n, c)"
  shows "\<exists>h' L'. release (Some (int a)) h = Ok h' \<and> inv h' L' \<and> objs_fit room (bytes h') L' (os[k := None])"
proof -
  have len: "k < length os" by (rule obj_at_less [OF k])
  obtain l where l: "(a, l) \<in> L" using objs_fitD(1) [OF assms(2) k] by blast
  obtain h' where h': "release (Some (int a)) h = Ok h'" "inv h' (L - {(a, l)})"
    "\<forall>b m j. (b, m) \<in> L - {(a, l)} \<longrightarrow> b \<le> j \<longrightarrow> j < b + m \<longrightarrow> bytes h' j = bytes h j"
    using release_law [OF assms(1) l] by blast
  have "objs_fit room (bytes h') (L - {(a, l)}) (os[k := None])"
  proof (rule objs_fit_kept [OF assms(2)])
    show "bytes h' j = bytes h j" if "(b, m') \<in> L - {(a, l)}" "b \<le> j" "j < b + m'" for b m' j using h'(3) that by blast
    fix k' b n' c' assume "obj_at (os[k := None]) k' = Some (b, n', c')"
    then have o: "obj_at os k' = Some (b, n', c')" "k' \<noteq> k" using len by (auto split: if_splits)
    have "b \<noteq> a" using objs_fitD(3) [OF assms(2) k, of k' n' c'] o by auto
    then show "\<exists>n''. obj_at os k' = Some (b, n'', c') \<and> n' \<le> n'' \<and> (\<exists>l'. (b, l') \<in> L - {(a, l)} \<and> room n' \<le> l' \<and> n' \<le> room n')"
      using o(1) objs_fitD(1) [OF assms(2) o(1)] by auto
  next
    fix b m' assume b: "(b, m') \<in> L - {(a, l)}"
    then obtain k' n' c' where o: "obj_at os k' = Some (b, n', c')" using assms(2) unfolding objs_fit_def by fast
    have "b \<noteq> a" using b same_region [OF assms(1) l, of m'] by auto
    then have "k' \<noteq> k" using o k by auto
    then show "\<exists>k' n c'. obj_at (os[k := None]) k' = Some (b, n, c')" using o len by auto
  qed
  then show ?thesis using h'(1,2) by blast
qed

lemma get_step:
  assumes "inv h L" and "objs_fit room (bytes h) L os" and "good n"
  shows "\<exists>h1 L1 os1. mem_run alloc release trim store (Get n # ops) h os = mem_run alloc release trim store ops h1 os1 \<and>
    inv h1 L1 \<and> objs_fit room (bytes h1) L1 os1"
  using alloc_law [OF assms(1,3)]
proof (elim disjE exE conjE)
  fix h1 assume h1: "alloc n h = Some (Ok (None, h1))" "inv h1 L" "bytes h1 = bytes h"
  have "objs_fit room (bytes h1) L (os @ [None])" using fit_none [OF assms(2)] h1(3) by simp
  then show ?thesis using h1(1,2) by (auto intro!: exI)
next
  fix a l h1
  assume h1: "alloc n h = Some (Ok (Some (int a), h1))" "room n \<le> l" "inv h1 (insert (a, l) L)" "a \<notin> fst ` L"
    "\<forall>b m j. (b, m) \<in> L \<longrightarrow> b \<le> j \<longrightarrow> j < b + m \<longrightarrow> bytes h1 j = bytes h j"
  have "objs_fit room (bytes h1) L os"
    by (rule objs_fit_kept [OF assms(2)]) (use h1(5) assms(2) in \<open>auto simp: objs_fit_def\<close>)
  from fit_get [OF this h1(4,2) enough [OF assms(3)]] show ?thesis using h1(1,3) by (auto intro!: exI)
qed

lemma put_step:
  assumes "inv h L" and "objs_fit room (bytes h) L os"
  shows "\<exists>h1 os1. mem_run alloc release trim store (Put k i v # ops) h os = mem_run alloc release trim store ops h1 os1 \<and>
    inv h1 L \<and> objs_fit room (bytes h1) L os1"
proof (cases "\<exists>a n c. obj_at os k = Some (a, n, c) \<and> i < n")
  case True
  then obtain a n c where o: "obj_at os k = Some (a, n, c)" "i < n" by blast
  obtain l where l: "(a, l) \<in> L" "room n \<le> l" "n \<le> room n" using objs_fitD(1) [OF assms(2) o(1)] by blast
  have s: "inv (store (a + i) v h) L" "bytes (store (a + i) v h) = (bytes h)(a + i := v)"
    using store_law [OF assms(1) l(1), of "a + i" v] o(2) l(2,3) by auto
  have "objs_fit room (bytes (store (a + i) v h)) L (os[k := Some (a, n, c(i \<mapsto> v))])"
    unfolding s(2) by (rule fit_put [OF assms o])
  then show ?thesis using s(1) o by (auto intro!: exI)
next
  case False
  then show ?thesis using assms by (auto split: option.split)
qed

lemma run_step:
  assumes "inv h L" and "objs_fit room (bytes h) L os" and "\<And>n. op = Get n \<Longrightarrow> good n"
  shows "\<exists>h1 L1 os1. mem_run alloc release trim store (op # ops) h os = mem_run alloc release trim store ops h1 os1 \<and>
    inv h1 L1 \<and> objs_fit room (bytes h1) L1 os1"
proof (cases op)
  case (Get n)
  then show ?thesis using get_step [OF assms(1,2)] assms(3) by simp
next
  case (Put k i v)
  then show ?thesis using put_step [OF assms(1,2)] by blast
next
  case (Cut k m)
  show ?thesis
  proof (cases "\<exists>a n c. obj_at os k = Some (a, n, c) \<and> m \<le> n")
    case True
    then obtain a n c where o: "obj_at os k = Some (a, n, c)" "m \<le> n" by blast
    obtain h1 L1 where t: "trim (Some (int a)) m h = Ok (Some (int a), h1)" "inv h1 L1" "objs_fit room (bytes h1) L1 (os[k := Some (a, m, c)])"
      using fit_trim [OF assms(1,2) o] by blast
    have "mem_run alloc release trim store (op # ops) h os = mem_run alloc release trim store ops h1 (os[k := Some (a, m, c)])"
      using t(1) o Cut by simp
    then show ?thesis using t(2,3) by blast
  next
    case False
    then show ?thesis using assms(1,2) Cut by (auto split: option.split)
  qed
next
  case (Drop k)
  show ?thesis
  proof (cases "obj_at os k")
    case None
    then show ?thesis using assms(1,2) Drop by auto
  next
    case (Some x)
    then obtain a n c where o: "obj_at os k = Some (a, n, c)" by (cases x) auto
    obtain h1 L1 where t: "release (Some (int a)) h = Ok h1" "inv h1 L1" "objs_fit room (bytes h1) L1 (os[k := None])"
      using fit_drop [OF assms(1,2) o] by blast
    have "mem_run alloc release trim store (op # ops) h os = mem_run alloc release trim store ops h1 (os[k := None])"
      using t(1) o Drop by simp
    then show ?thesis using t(2,3) by blast
  qed
qed

text \<open>Every program runs to its end, and its objects hold what it wrote.\<close>

theorem run_safe:
  assumes "inv h L" and "objs_fit room (bytes h) L os" and "\<forall>n. Get n \<in> set ops \<longrightarrow> good n"
  shows "\<exists>h' L' os'. mem_run alloc release trim store ops h os = Some (Ok (h', os')) \<and> inv h' L' \<and> objs_fit room (bytes h') L' os'"
  using assms
proof (induction ops arbitrary: h L os)
  case (Cons op ops)
  obtain h1 L1 os1 where s: "mem_run alloc release trim store (op # ops) h os = mem_run alloc release trim store ops h1 os1"
    "inv h1 L1" "objs_fit room (bytes h1) L1 os1" using run_step [OF Cons.prems(1,2), of op ops] Cons.prems(3) by auto
  show ?case using Cons.IH [OF s(2,3)] Cons.prems(3) s(1) by simp
qed auto

end

subsection \<open>The heap of lwIP is an allocator\<close>

definition heap_inv :: "heap \<Rightarrow> (nat \<times> nat) set \<Rightarrow> bool" where
  "heap_inv h L \<longleftrightarrow> (\<exists>bs. heap_rel h bs \<and> L = regions bs MEM_SIZE_ALIGNED)"

definition mem_store :: "nat \<Rightarrow> u8 \<Rightarrow> heap \<Rightarrow> heap" where
  "mem_store j v h = h\<lparr>ram := (ram h)(j := v)\<rparr>"

text \<open>The sizes that do not wrap around when they are rounded up.\<close>

definition mem_good :: "nat \<Rightarrow> bool" where
  "mem_good n \<longleftrightarrow> n + 3 < 2 ^ 32"

lemma heap_rel_hdrs: "heap_rel h bs \<Longrightarrow> hdrs (ram h) 0 bs 1024000"
  by (simp add: heap_rel_def)

lemma mem_request_good: "n \<le> mem_request n \<Longrightarrow> mem_good n"
proof (rule ccontr)
  assume n: "n \<le> mem_request n" "\<not> mem_good n"
  have "u32_add n 3 div 4 * 4 \<le> u32_add n 3" by simp
  moreover have "u32_add n 3 < 2 ^ 32" "u32_add n 3 < n"
    using n(2) mod_less_divisor [of "2 ^ 32" "n + 3"] div_mult_mod_eq [of "n + 3" "2 ^ 32"]
    by (auto simp: u32_add_def mem_good_def le_mod_geq)
  ultimately show False using n by (auto simp: mem_request_def mem_align_def Let_def mem_good_def split: if_splits)
qed

lemma mem_request_mono: "mem_good n \<Longrightarrow> m \<le> n \<Longrightarrow> mem_request m \<le> mem_request n"
proof -
  assume "mem_good n" "m \<le> n"
  then have "u32_add m 3 div 4 * 4 \<le> u32_add n 3 div 4 * 4" by (simp add: mem_good_def div_le_mono)
  then show ?thesis by (simp add: mem_request_def mem_align_def Let_def)
qed

lemma heap_malloc:
  assumes "heap_inv h L"
  shows "(\<exists>h'. mem_malloc n h = Some (Ok (None, h')) \<and> heap_inv h' L \<and> ram h' = ram h) \<or>
    (\<exists>a l h'. mem_malloc n h = Some (Ok (Some (int a), h')) \<and> mem_request n \<le> l \<and> heap_inv h' (insert (a, l) L) \<and> a \<notin> fst ` L \<and>
      (\<forall>b m j. (b, m) \<in> L \<longrightarrow> b \<le> j \<longrightarrow> j < b + m \<longrightarrow> ram h' j = ram h j))"
proof -
  obtain bs where bs: "heap_rel h bs" "L = regions bs 1024000" using assms by (auto simp: heap_inv_def)
  show ?thesis
  proof (cases "n = 0 \<or> 1024000 < mem_request n \<or> first_fit (mem_request n) bs = None")
    case True
    then obtain err where "mem_malloc n h = Some (Ok (None, h\<lparr>hs_err := err\<rparr>))" using mem_malloc_none [OF bs(1)] by blast
    moreover have "heap_rel (h\<lparr>hs_err := err\<rparr>) bs" using bs(1) by (simp add: heap_rel_def)
    ultimately show ?thesis using bs(2) by (auto simp: heap_inv_def)
  next
    case False
    then obtain xs i ys where f: "first_fit (mem_request n) bs = Some (xs, i, ys)" by (cases "first_fit (mem_request n) bs") auto
    let ?cs = "carve (mem_request n) xs i ys"
    obtain h' where h': "mem_malloc n h = Some (Ok (Some (int i + 12), h'))" "heap_rel h' ?cs"
      "same_data (insert 1024000 (fst ` (set bs \<union> set ?cs))) (ram h) (ram h')"
      using mem_malloc_ok [OF bs(1) _ _ f] False by auto
    note s = first_fit_Some [OF f]
    obtain l where l: "regions ?cs 1024000 = insert (i + 12, l) L" "mem_request n \<le> l"
      using regions_carve [of i "mem_request n" ys xs] s bs(2) by auto
    have False if a: "(i + 12, m) \<in> L" for m
    proof -
      have d: "hdrs (ram h) 0 xs i" "hdrs (ram h) i ys 1024000" "i + 24 \<le> nxt ys 1024000" using heap_rel_hdrs [OF bs(1)] s by auto
      from a consider "(i + 12, m) \<in> regions xs i" | "(i + 12, m) \<in> regions ys 1024000" using bs(2) s by auto
      then show ?thesis using regions_range [OF d(1), of "i + 12" m] regions_range [OF d(2), of "i + 12" m] d(3) by cases auto
    qed
    then have "i + 12 \<notin> fst ` L" by auto
    moreover have "ram h' j = ram h j" if j: "(b, m) \<in> L" "b \<le> j" "j < b + m" for b m j
      by (rule regions_kept [OF h'(3) heap_rel_hdrs [OF bs(1)] heap_rel_hdrs [OF h'(2)]]) (use j bs(2) l(1) in auto)
    moreover have "heap_inv h' (insert (i + 12, l) L)" using h'(2) l(1) by (auto simp: heap_inv_def)
    moreover have "mem_malloc n h = Some (Ok (Some (int (i + 12)), h'))" using h'(1) by (simp add: add.commute)
    ultimately show ?thesis using l(2) by blast
  qed
qed

text \<open>The other regions when the block of one of them is changed.\<close>

lemma regions_others:
  assumes "hdrs r p (xs @ (i, True) # ys) q"
  shows "regions (xs @ (i, True) # ys) q - {(i + 12, nxt ys q - i - 12)} = regions xs i \<union> regions ys q"
proof -
  have d: "hdrs r p xs i" "hdrs r i ys q" "i + 24 \<le> nxt ys q" using assms by auto
  have "(i + 12, l) \<notin> regions xs i" "(i + 12, l) \<notin> regions ys q" for l
    using regions_range [OF d(1), of "i + 12" l] regions_range [OF d(2), of "i + 12" l] d(3) by auto
  then show ?thesis by auto
qed

lemma heap_free:
  assumes "heap_inv h L" and "(a, l) \<in> L"
  shows "\<exists>h'. mem_free (Some (int a)) h = Ok h' \<and> heap_inv h' (L - {(a, l)}) \<and>
    (\<forall>b m j. (b, m) \<in> L - {(a, l)} \<longrightarrow> b \<le> j \<longrightarrow> j < b + m \<longrightarrow> ram h' j = ram h j)"
proof -
  obtain bs where bs: "heap_rel h bs" "L = regions bs 1024000" using assms(1) by (auto simp: heap_inv_def)
  obtain xs i ys where s: "bs = xs @ (i, True) # ys" "a = i + 12" "l = nxt ys 1024000 - i - 12"
    using regions_split [of a l bs 1024000] assms(2) bs(2) by blast
  obtain h' where h': "mem_free (Some (int i + 12)) h = Ok h'" "heap_rel h' (fuse xs i ys)" "same_data (insert 1024000 (fst ` set bs)) (ram h) (ram h')"
    using mem_free_ok [of h xs i ys] bs(1) s(1) by auto
  have r: "regions (fuse xs i ys) 1024000 = L - {(a, l)}"
    using regions_others [OF heap_rel_hdrs [OF bs(1), unfolded s(1)]] bs(2) s by (simp add: regions_fuse)
  have k: "same_data (insert 1024000 (fst ` (set bs \<union> set (fuse xs i ys)))) (ram h) (ram h')"
    by (rule same_data_mono [OF h'(3)]) auto
  have "ram h' j = ram h j" if j: "(b, m) \<in> L - {(a, l)}" "b \<le> j" "j < b + m" for b m j
    by (rule regions_kept [OF k heap_rel_hdrs [OF bs(1)] heap_rel_hdrs [OF h'(2)]]) (use j bs(2) r in auto)
  moreover have "mem_free (Some (int a)) h = Ok h'" using h'(1) s(2) by (simp add: add.commute)
  moreover have "heap_inv h' (L - {(a, l)})" using h'(2) r by (auto simp: heap_inv_def)
  ultimately show ?thesis by blast
qed

lemma heap_trim:
  assumes "heap_inv h L" and "(a, l) \<in> L" and "mem_request n \<le> l"
  shows "\<exists>h' l'. mem_trim (Some (int a)) n h = Ok (Some (int a), h') \<and> mem_request n \<le> l' \<and> l' \<le> l \<and> heap_inv h' (insert (a, l') (L - {(a, l)})) \<and>
    (\<forall>b m j. (b, m) \<in> insert (a, l') (L - {(a, l)}) \<longrightarrow> b \<le> j \<longrightarrow> j < b + m \<longrightarrow> ram h' j = ram h j)"
proof -
  obtain bs where bs: "heap_rel h bs" "L = regions bs 1024000" using assms(1) by (auto simp: heap_inv_def)
  obtain xs i ys where s: "bs = xs @ (i, True) # ys" "a = i + 12" "l = nxt ys 1024000 - i - 12"
    using regions_split [of a l bs 1024000] assms(2) bs(2) by blast
  have "i + 24 \<le> nxt ys 1024000" using heap_rel_hdrs [OF bs(1)] s(1) by simp
  then have fit: "i + 12 + mem_request n \<le> nxt ys 1024000" using assms(3) s(3) by linarith
  let ?cs = "shrink (mem_request n) xs i ys"
  obtain h' where h': "mem_trim (Some (int i + 12)) n h = Ok (Some (int i + 12), h')" "heap_rel h' ?cs"
    "same_data (insert 1024000 (fst ` (set bs \<union> set ?cs))) (ram h) (ram h')"
    using mem_trim_ok [of h xs i ys n] bs(1) s(1) fit by auto
  obtain l' where l': "regions ?cs 1024000 = insert (a, l') (regions xs i \<union> regions ys 1024000)" "mem_request n \<le> l'" "l' \<le> l"
    using regions_shrink [OF fit] s by auto
  have r: "regions ?cs 1024000 = insert (a, l') (L - {(a, l)})"
    using regions_others [OF heap_rel_hdrs [OF bs(1), unfolded s(1)]] bs(2) s l'(1) by simp
  have "ram h' j = ram h j" if j: "(b, m) \<in> insert (a, l') (L - {(a, l)})" "b \<le> j" "j < b + m" for b m j
  proof -
    obtain m' where m': "(b, m') \<in> L" "m \<le> m'" using j(1) l'(3) assms(2) by auto
    show ?thesis
      by (rule regions_kept [OF h'(3) heap_rel_hdrs [OF bs(1)] heap_rel_hdrs [OF h'(2)], of b m' j b m]) (use j m' bs(2) r in auto)
  qed
  moreover have "mem_trim (Some (int a)) n h = Ok (Some (int a), h')" using h'(1) s(2) by (simp add: add.commute)
  moreover have "heap_inv h' (insert (a, l') (L - {(a, l)}))" using h'(2) r by (auto simp: heap_inv_def)
  ultimately show ?thesis using l'(2,3) by blast
qed

lemma heap_store:
  assumes "heap_inv h L" and "(a, l) \<in> L" and "a \<le> j" and "j < a + l"
  shows "heap_inv (mem_store j v h) L"
proof -
  obtain bs where bs: "heap_rel h bs" "L = regions bs 1024000" using assms(1) by (auto simp: heap_inv_def)
  have g: "mem_get k ((ram h)(j := v)) = mem_get k (ram h)" if "k \<in> insert 1024000 (fst ` set bs)" for k
    using regions_headers [OF heap_rel_hdrs [OF bs(1)] _ that, of a l] assms(2-4) bs(2) by (intro mem_get_cong) auto
  have "hdrs ((ram h)(j := v)) 0 bs 1024000" by (rule hdrs_cong [OF heap_rel_hdrs [OF bs(1)]]) (use g in simp)
  then have "heap_rel (mem_store j v h) bs" using bs(1) g by (simp add: heap_rel_def mem_store_def)
  then show ?thesis using bs(2) by (auto simp: heap_inv_def)
qed

lemma heap_apart: "heap_inv h L \<Longrightarrow> (a, l) \<in> L \<Longrightarrow> (b, m) \<in> L \<Longrightarrow> (a, l) = (b, m) \<or> a + l \<le> b \<or> b + m \<le> a"
proof -
  assume h: "heap_inv h L" and L: "(a, l) \<in> L" "(b, m) \<in> L"
  obtain bs where bs: "heap_rel h bs" "L = regions bs 1024000" using h by (auto simp: heap_inv_def)
  show ?thesis using regions_apart [OF heap_rel_hdrs [OF bs(1)] L [unfolded bs(2)]] by auto
qed

lemma heap_range: "heap_inv h L \<Longrightarrow> (a, l) \<in> L \<Longrightarrow> 12 \<le> a \<and> a + l \<le> MEM_SIZE_ALIGNED \<and> 12 \<le> l \<and> 4 dvd a"
proof -
  assume h: "heap_inv h L" and L: "(a, l) \<in> L"
  obtain bs where bs: "heap_rel h bs" "L = regions bs 1024000" using h by (auto simp: heap_inv_def)
  show ?thesis using regions_range [OF heap_rel_hdrs [OF bs(1)] L [unfolded bs(2)]] by auto
qed

interpretation lwip_heap: allocator heap_inv ram mem_store mem_malloc mem_free mem_trim mem_request mem_good
proof (unfold_locales, goal_cases)
  case (1 h L a l b m)
  then show ?case by (rule heap_apart)
next
  case (2 h L a l)
  then show ?case using heap_range [of h L a l] by simp
next
  case (3 n)
  then show ?case using mem_request_facts(3) by (simp add: mem_good_def)
next
  case (4 n m)
  then show ?case using mem_request_good [of n] mem_request_mono [of n m] mem_request_facts(3) [of m] by (simp add: mem_good_def)
next
  case (5 h L n)
  then show ?case by (intro heap_malloc)
next
  case (6 h L a l)
  then show ?case by (rule heap_free)
next
  case (7 h L a l n)
  then show ?case by (rule heap_trim)
next
  case (8 h L a l j v)
  then show ?case using heap_store [of h L a l j v] by (simp add: mem_store_def)
qed

subsection \<open>Properties\<close>

lemma heap_start:
  assumes "hs_used h0 = 0" and "mem_init True h0 = Ok h"
  shows "heap_inv h {} \<and> objs_fit mem_request (ram h) {} []"
  using mem_init_ok [OF assms] by (auto simp: heap_inv_def objs_fit_def obj_at_def intro!: exI [of _ "[(0, False)]"])

lemma heap_run:
  assumes "hs_used h0 = 0" and "mem_init True h0 = Ok h" and "\<forall>n. Get n \<in> set ops \<longrightarrow> n < 0xFFFFFFFD"
  shows "\<exists>h' L os. mem_run mem_malloc mem_free mem_trim mem_store ops h [] = Some (Ok (h', os)) \<and> heap_inv h' L \<and> objs_fit mem_request (ram h') L os"
  using lwip_heap.run_safe [of h "{}" "[]" ops] heap_start [OF assms(1,2)] assms(3) by (auto simp: mem_good_def)

text \<open>
  C15: the heap of lwIP keeps objects apart. Any program that allocates, writes to its own objects,
  shrinks and frees them runs through on the initialised heap: no assertion of \<^verbatim>\<open>mem.c\<close> fails, no
  access leaves the heap, and every call returns. All its objects then lie aligned inside the heap, no
  two overlap, and each holds what the program wrote to it last.
\<close>

theorem mem_objects_safe:
  assumes "hs_used h0 = 0" and "mem_init True h0 = Ok h" and "\<forall>n. Get n \<in> set ops \<longrightarrow> n < 0xFFFFFFFD"
  shows "\<exists>h' os. mem_run mem_malloc mem_free mem_trim mem_store ops h [] = Some (Ok (h', os)) \<and>
    (\<forall>k a n c. obj_at os k = Some (a, n, c) \<longrightarrow>
       SIZEOF_STRUCT_MEM \<le> a \<and> a + n \<le> MEM_SIZE_ALIGNED \<and> 4 dvd a \<and> (\<forall>i<n. \<forall>v. c i = Some v \<longrightarrow> ram h' (a + i) = v)) \<and>
    (\<forall>k a n c k' b m d. obj_at os k = Some (a, n, c) \<and> obj_at os k' = Some (b, m, d) \<and> k \<noteq> k' \<longrightarrow> a + n \<le> b \<or> b + m \<le> a)"
proof -
  obtain h' L os where r: "mem_run mem_malloc mem_free mem_trim mem_store ops h [] = Some (Ok (h', os))" "heap_inv h' L" "objs_fit mem_request (ram h') L os"
    using heap_run [OF assms] by blast
  have in_L: "\<exists>l. (a, l) \<in> L \<and> n \<le> l" if "obj_at os k = Some (a, n, c)" for k a n c
    using lwip_heap.objs_fitD(1) [OF r(3) that] by (meson le_trans)
  have one: "SIZEOF_STRUCT_MEM \<le> a \<and> a + n \<le> MEM_SIZE_ALIGNED \<and> 4 dvd a \<and> (\<forall>i<n. \<forall>v. c i = Some v \<longrightarrow> ram h' (a + i) = v)"
    if o: "obj_at os k = Some (a, n, c)" for k a n c
  proof -
    obtain l where l: "(a, l) \<in> L" "n \<le> l" using in_L [OF o] by blast
    show ?thesis using heap_range [OF r(2) l(1)] l(2) lwip_heap.objs_fitD(2) [OF r(3) o] by auto
  qed
  have two: "a + n \<le> b \<or> b + m \<le> a" if o: "obj_at os k = Some (a, n, c)" "obj_at os k' = Some (b, m, d)" "k \<noteq> k'" for k a n c k' b m d
  proof -
    obtain l l' where l: "(a, l) \<in> L" "n \<le> l" "(b, l') \<in> L" "m \<le> l'" using in_L [OF o(1)] in_L [OF o(2)] by blast
    have "a \<noteq> b" using lwip_heap.objs_fitD(3) [OF r(3) o(1), of k' m d] o(2,3) by auto
    then show ?thesis using heap_apart [OF r(2) l(1,3)] l(2,4) by auto
  qed
  show ?thesis
  proof (intro exI conjI [OF r(1)] conjI allI impI)
    show "SIZEOF_STRUCT_MEM \<le> a" "a + n \<le> MEM_SIZE_ALIGNED" "4 dvd a" if "obj_at os k = Some (a, n, c)" for k a n c
      using one [OF that] by simp_all
    show "ram h' (a + i) = v" if "obj_at os k = Some (a, n, c)" "i < n" "c i = Some v" for k a n c i v
      using one [OF that(1)] that(2,3) by simp
    show "a + n \<le> b \<or> b + m \<le> a" if "obj_at os k = Some (a, n, c) \<and> obj_at os k' = Some (b, m, d) \<and> k \<noteq> k'" for k a n c k' b m d
      using that by (elim conjE) (rule two)
  qed (rule r(1))
qed

definition demo_heap :: heap where
  "demo_heap = \<lparr>ram = (\<lambda>_. 0), lfree = 0, hs_avail = 0, hs_used = 0, hs_max = 0, hs_err = 0\<rparr>"

theorem mem_objects_safe_witness:
  "\<exists>h. mem_init True demo_heap = Ok h \<and>
     (\<exists>h' os. mem_run mem_malloc mem_free mem_trim mem_store [Get 5, Get 100, Put 0 2 7, Cut 1 20, Drop 0, Get 8] h [] = Some (Ok (h', os)))"
proof -
  obtain h where h: "mem_init True demo_heap = Ok h" by (simp add: mem_init_def Let_def)
  have "hs_used demo_heap = 0" by (simp add: demo_heap_def)
  from mem_objects_safe [OF this h, of "[Get 5, Get 100, Put 0 2 7, Cut 1 20, Drop 0, Get 8]"] show ?thesis using h by auto
qed

lemma all_free: "merged bs \<Longrightarrow> regions bs q = {} \<Longrightarrow> nxt bs 1024000 = 0 \<Longrightarrow> bs = [(0, False)]"
  by (cases bs rule: merged.cases) (auto split: if_splits)

text \<open>
  C25: the heap does not wear out. When a program, whatever it did before, has given back all its
  objects, no byte is counted as used and the heap is one free block again: every request for up to
  1023988 bytes, all of the heap but one header, is served.
\<close>

theorem mem_all_returned:
  assumes "hs_used h0 = 0" and "mem_init True h0 = Ok h" and "\<forall>n. Get n \<in> set ops \<longrightarrow> n < 0xFFFFFFFD"
    and "mem_run mem_malloc mem_free mem_trim mem_store ops h [] = Some (Ok (h', os))" and "\<forall>k. obj_at os k = None"
    and "0 < n" and "n \<le> MEM_SIZE_ALIGNED - SIZEOF_STRUCT_MEM"
  shows "hs_used h' = 0 \<and> lfree h' = 0 \<and> (\<exists>h''. mem_malloc n h' = Some (Ok (Some (int SIZEOF_STRUCT_MEM), h'')))"
proof -
  obtain L where L: "heap_inv h' L" "objs_fit mem_request (ram h') L os" using heap_run [OF assms(1-3)] assms(4) by auto
  have "L = {}" using L(2) assms(5) unfolding objs_fit_def by fastforce
  then obtain bs where bs: "heap_rel h' bs" "regions bs 1024000 = {}" using L(1) by (auto simp: heap_inv_def)
  then have e: "bs = [(0, False)]" using all_free [of bs 1024000] by (simp add: heap_rel_def)
  have s: "mem_request n \<le> 1023988" using mem_request_mono [of 1023988 n] assms(7)
    by (simp add: mem_good_def mem_request_def mem_align_def)
  then have "first_fit (mem_request n) bs = Some ([], 0, [])" by (simp add: e)
  then have "\<exists>h''. mem_malloc n h' = Some (Ok (Some (int SIZEOF_STRUCT_MEM), h''))" using mem_malloc_ok [OF bs(1), of n "[]" 0 "[]"] assms(6) s by auto
  then show ?thesis using bs(1) e by (simp add: heap_rel_def)
qed

theorem mem_all_returned_witness:
  "\<exists>h. mem_init True demo_heap = Ok h \<and>
     (\<exists>h' os. mem_run mem_malloc mem_free mem_trim mem_store [Get 5, Put 0 2 7, Drop 0] h [] = Some (Ok (h', os)) \<and>
       (\<exists>h''. mem_malloc 1023988 h' = Some (Ok (Some 12, h''))))"
proof -
  obtain h where h: "mem_init True demo_heap = Ok h" by (simp add: mem_init_def Let_def)
  have d: "hs_used demo_heap = 0" by (simp add: demo_heap_def)
  have s: "mem_request 5 = 12" by (simp add: mem_request_def mem_align_def)
  obtain h1 where h1: "mem_malloc 5 h = Some (Ok (Some 12, h1))" "heap_rel h1 [(0, True), (24, False)]"
    using mem_malloc_ok [OF mem_init_ok [OF d h], of 5 "[]" 0 "[]"] by (auto simp: s carve_def)
  then have "heap_inv h1 {(12, 12)}" by (auto simp: heap_inv_def intro!: exI [of _ "[(0, True), (24, False)]"])
  then have "heap_inv (mem_store 14 7 h1) {(12, 12)}" using heap_store [of h1 "{(12, 12)}" 12 12 14 7] by simp
  then obtain h2 where h2: "mem_free (Some 12) (mem_store 14 7 h1) = Ok h2" using heap_free [of _ "{(12, 12)}" 12 12] by fastforce
  have r: "mem_run mem_malloc mem_free mem_trim mem_store [Get 5, Put 0 2 7, Drop 0] h [] = Some (Ok (h2, [None]))"
    using h1(1) h2 by (simp add: obj_at_def)
  have "hs_used h2 = 0 \<and> lfree h2 = 0 \<and> (\<exists>h''. mem_malloc 1023988 h2 = Some (Ok (Some (int SIZEOF_STRUCT_MEM), h'')))"
    by (rule mem_all_returned [OF d h _ r]) (simp_all add: obj_at_def)
  then show ?thesis using h r by simp
qed

text \<open>
  Sizes just below \<open>2 ^ 32\<close> wrap around to 0 when they are rounded up, and are served with the smallest
  block.
\<close>

lemma mem_request_wraps: "0xFFFFFFFD \<le> n \<Longrightarrow> n < 2 ^ 32 \<Longrightarrow> mem_request n = MIN_SIZE_ALIGNED"
proof -
  assume n: "0xFFFFFFFD \<le> n" "n < 2 ^ 32"
  have "u32_add n 3 < 4"
    using n by (simp add: u32_add_def le_mod_geq)
  then show ?thesis by (simp add: mem_request_def mem_align_def Let_def)
qed

end
