(* ===== verification/Chksum.thy ===== *)
theory Chksum
  imports Lwip_Addr Pbuf_Props
begin

text \<open>
  The Internet checksum, \<^verbatim>\<open>lwip/src/core/inet_chksum.c\<close>, with all three versions of
  \<^verbatim>\<open>lwip_standard_chksum\<close>; the build uses the second. The routines work on host-order words at
  whatever address the data lies, so the address is an argument; for a chain it is a function of
  the pbuf. The lemmas show that the result is the one's complement sum of RFC 1071 over the
  bytes of the data, whatever the address, the version and the way the data is cut into pbufs.
\<close>

subsection \<open>The routines\<close>

definition FOLD_U32T :: "u32 \<Rightarrow> u32" where
  "FOLD_U32T u = drop_bit 16 u + (u AND 0xffff)"

definition SWAP_BYTES_IN_WORD :: "u32 \<Rightarrow> u32" where
  "SWAP_BYTES_IN_WORD w = push_bit 8 (w AND 0xff) OR drop_bit 8 (w AND 0xff00)"

text \<open>Version 1: octets in network order.\<close>

fun chk_octets :: "bytes \<Rightarrow> u32 \<Rightarrow> u32" where
  "chk_octets (a # b # r) acc = chk_octets r (acc + ucast (push_bit 8 (ucast a) OR ucast b :: u16))"
| "chk_octets [a] acc = acc + ucast (push_bit 8 (ucast a) :: u16)"
| "chk_octets [] acc = acc"

definition lwip_standard_chksum_1 :: "bytes \<Rightarrow> u16" where
  "lwip_standard_chksum_1 bs =
     (let acc = FOLD_U32T (chk_octets bs 0);
          acc' = (if acc AND 0xffff0000 \<noteq> 0 then FOLD_U32T acc else acc)
      in lwip_htons (ucast acc'))"

text \<open>\<^verbatim>\<open>while (len > 1) { sum += *ps++; len -= 2; }\<close>: the sum and what is left.\<close>

fun chk_words :: "bytes \<Rightarrow> u32 \<Rightarrow> u32 \<times> bytes" where
  "chk_words (a # b # r) tot = chk_words r (tot + ucast (u16_of a b))"
| "chk_words r tot = (tot, r)"

text \<open>The first byte, when the address is odd, and the rest.\<close>

definition chk_head :: "nat \<Rightarrow> bytes \<Rightarrow> u8 \<times> bytes" where
  "chk_head addr bs = (case bs of b # r \<Rightarrow> if odd addr then (b, r) else (0, bs) | [] \<Rightarrow> (0, []))"

definition chk_finish :: "nat \<Rightarrow> u8 \<Rightarrow> u32 \<times> bytes \<Rightarrow> u16" where
  "chk_finish addr t1 x =
     (let (tot, rest) = x;
          t0 = (case rest of [] \<Rightarrow> 0 | b # _ \<Rightarrow> b);
          tot' = FOLD_U32T (FOLD_U32T (tot + ucast (u16_of t0 t1)))
      in ucast (if odd addr then SWAP_BYTES_IN_WORD tot' else tot'))"

text \<open>Version 2, the one that is used.\<close>

definition lwip_standard_chksum :: "nat \<Rightarrow> bytes \<Rightarrow> u16" where
  "lwip_standard_chksum addr bs = (let (t1, r) = chk_head addr bs in chk_finish addr t1 (chk_words r 0))"

text \<open>Version 3: eight bytes at a time, with the carries added back.\<close>

definition add_carry :: "u32 \<Rightarrow> u32 \<Rightarrow> u32" where
  "add_carry tot w = (let tmp = tot + w in if tmp < tot then tmp + 1 else tmp)"

fun chk_longs :: "bytes \<Rightarrow> u32 \<Rightarrow> u32 \<times> bytes" where
  "chk_longs (a # b # c # d # a' # b' # c' # d' # r) tot =
     chk_longs r (add_carry (add_carry tot (u32_of a b c d)) (u32_of a' b' c' d'))"
| "chk_longs r tot = (tot, r)"

definition lwip_standard_chksum_3 :: "nat \<Rightarrow> bytes \<Rightarrow> u16" where
  "lwip_standard_chksum_3 addr bs =
     (let (t1, r) = chk_head addr bs;
          (tot, r1) = (case r of
                         a # b # r' \<Rightarrow> if (addr + (length bs - length r)) mod 4 \<noteq> 0 then (ucast (u16_of a b), r') else (0, r)
                       | _ \<Rightarrow> (0, r));
          (tot1, r2) = chk_longs r1 tot
      in chk_finish addr t1 (chk_words r2 (FOLD_U32T tot1)))"

abbreviation LWIP_CHKSUM :: "nat \<Rightarrow> bytes \<Rightarrow> u16" where
  "LWIP_CHKSUM \<equiv> lwip_standard_chksum"

text \<open>The loop over a chain: the accumulator and the flag \<^verbatim>\<open>swapped\<close>.\<close>

fun chk_chain :: "(pbuf \<Rightarrow> nat) \<Rightarrow> chain \<Rightarrow> bool \<Rightarrow> u32 \<Rightarrow> bool \<times> u32" where
  "chk_chain adr [] swapped acc = (swapped, acc)"
| "chk_chain adr (q # qs) swapped acc =
     (let acc1 = FOLD_U32T (acc + ucast (LWIP_CHKSUM (adr q) (pb_payload q)))
      in if pb_len q mod 2 \<noteq> 0 then chk_chain adr qs (\<not> swapped) (SWAP_BYTES_IN_WORD acc1)
         else chk_chain adr qs swapped acc1)"

definition chk_unswap :: "bool \<times> u32 \<Rightarrow> u32" where
  "chk_unswap x = (case x of (swapped, acc) \<Rightarrow> if swapped then SWAP_BYTES_IN_WORD acc else acc)"

text \<open>The end of both \<^verbatim>\<open>_base\<close> functions.\<close>

definition chk_pseudo_end :: "u8 \<Rightarrow> u16 \<Rightarrow> u32 \<Rightarrow> u16" where
  "chk_pseudo_end proto proto_len acc =
     ucast (NOT (FOLD_U32T (FOLD_U32T (acc + ucast (lwip_htons (ucast proto)) + ucast (lwip_htons proto_len))) AND 0xffff))"

definition inet_cksum_pseudo_base :: "(pbuf \<Rightarrow> nat) \<Rightarrow> chain \<Rightarrow> u8 \<Rightarrow> u16 \<Rightarrow> u32 \<Rightarrow> u16" where
  "inet_cksum_pseudo_base adr p proto proto_len acc =
     chk_pseudo_end proto proto_len (chk_unswap (chk_chain adr p False acc))"

definition chk_addrs :: "ip_addr \<Rightarrow> ip_addr \<Rightarrow> u32" where
  "chk_addrs src dest =
     FOLD_U32T (FOLD_U32T ((src AND 0xffff) + (drop_bit 16 src AND 0xffff) + (dest AND 0xffff) + (drop_bit 16 dest AND 0xffff)))"

definition inet_chksum_pseudo :: "(pbuf \<Rightarrow> nat) \<Rightarrow> chain \<Rightarrow> u8 \<Rightarrow> u16 \<Rightarrow> ip_addr \<Rightarrow> ip_addr \<Rightarrow> u16" where
  "inet_chksum_pseudo adr p proto proto_len src dest =
     inet_cksum_pseudo_base adr p proto proto_len (chk_addrs src dest)"

text \<open>Only the first \<open>n\<close> bytes of a chain, with the assertion of the code.\<close>

fun chk_chain_partial :: "(pbuf \<Rightarrow> nat) \<Rightarrow> chain \<Rightarrow> nat \<Rightarrow> bool \<Rightarrow> u32 \<Rightarrow> (bool \<times> u32) res" where
  "chk_chain_partial adr [] n swapped acc = Ok (swapped, acc)"
| "chk_chain_partial adr (q # qs) n swapped acc =
     (if n = 0 then Ok (swapped, acc)
      else
        let chklen = (if pb_len q > n then n else pb_len q);
            acc1 = acc + ucast (LWIP_CHKSUM (adr q) (take chklen (pb_payload q)));
            n' = n - chklen
        in if \<not> n' < 0x7fff then Stop Assert
           else
             let acc2 = FOLD_U32T acc1
             in if pb_len q mod 2 \<noteq> 0 then chk_chain_partial adr qs n' (\<not> swapped) (SWAP_BYTES_IN_WORD acc2)
                else chk_chain_partial adr qs n' swapped acc2)"

definition inet_cksum_pseudo_partial_base :: "(pbuf \<Rightarrow> nat) \<Rightarrow> chain \<Rightarrow> u8 \<Rightarrow> u16 \<Rightarrow> nat \<Rightarrow> u32 \<Rightarrow> u16 res" where
  "inet_cksum_pseudo_partial_base adr p proto proto_len chksum_len acc =
     res_bind (chk_chain_partial adr p chksum_len False acc) (\<lambda>x. Ok (chk_pseudo_end proto proto_len (chk_unswap x)))"

definition inet_chksum_pseudo_partial ::
    "(pbuf \<Rightarrow> nat) \<Rightarrow> chain \<Rightarrow> u8 \<Rightarrow> u16 \<Rightarrow> nat \<Rightarrow> ip_addr \<Rightarrow> ip_addr \<Rightarrow> u16 res" where
  "inet_chksum_pseudo_partial adr p proto proto_len chksum_len src dest =
     inet_cksum_pseudo_partial_base adr p proto proto_len chksum_len (chk_addrs src dest)"

definition inet_chksum :: "nat \<Rightarrow> bytes \<Rightarrow> u16" where
  "inet_chksum addr bs = NOT (LWIP_CHKSUM addr bs)"

definition inet_chksum_pbuf :: "(pbuf \<Rightarrow> nat) \<Rightarrow> chain \<Rightarrow> u16" where
  "inet_chksum_pbuf adr p = ucast (NOT (chk_unswap (chk_chain adr p False 0) AND 0xffff))"

text \<open>Copying and summing in one call: the bytes at the destination and their sum.\<close>

definition lwip_chksum_copy :: "nat \<Rightarrow> bytes \<Rightarrow> bytes \<times> u16" where
  "lwip_chksum_copy dst src = (src, LWIP_CHKSUM dst src)"

subsection \<open>Arithmetic of the one's complement sum\<close>

text \<open>
  Sums that are equal as one's complement numbers: congruent modulo 65535, and zero together. RFC
  1071 sums 16-bit words in network order; \<open>le_sum\<close> is the same with the bytes exchanged.
\<close>

definition ones_eq :: "nat \<Rightarrow> nat \<Rightarrow> bool" where
  "ones_eq a b \<longleftrightarrow> a mod 65535 = b mod 65535 \<and> (a = 0 \<longleftrightarrow> b = 0)"

fun le_sum :: "bytes \<Rightarrow> nat" where
  "le_sum (a # b # r) = unat a + 256 * unat b + le_sum r"
| "le_sum [a] = unat a"
| "le_sum [] = 0"

fun be_sum :: "bytes \<Rightarrow> nat" where
  "be_sum (a # b # r) = 256 * unat a + unat b + be_sum r"
| "be_sum [a] = 256 * unat a"
| "be_sum [] = 0"

text \<open>The representative of a sum in 16 bits.\<close>

definition ones_sum :: "nat \<Rightarrow> nat" where
  "ones_sum n = (if n = 0 then 0 else (n - 1) mod 65535 + 1)"

lemma ones_eq_refl [simp]: "ones_eq a a"
  by (simp add: ones_eq_def)

lemma ones_eq_sym: "ones_eq a b \<Longrightarrow> ones_eq b a"
  by (simp add: ones_eq_def)

lemma ones_eq_trans [trans]: "ones_eq a b \<Longrightarrow> ones_eq b c \<Longrightarrow> ones_eq a c"
  by (simp add: ones_eq_def)

lemma ones_eq_add: "ones_eq a b \<Longrightarrow> ones_eq c d \<Longrightarrow> ones_eq (a + c) (b + d)"
  unfolding ones_eq_def by (metis add_is_0 mod_add_cong)

lemma ones_eq_mult: "ones_eq a b \<Longrightarrow> ones_eq (k * a) (k * b)"
  unfolding ones_eq_def by (metis mod_mult_cong mult_is_0)

lemma ones_eq_carry: "ones_eq (65536 * a + b) (a + b)"
proof -
  have "65536 * a + b = 65535 * a + (a + b)" by simp
  then have "(65536 * a + b) mod 65535 = (a + b) mod 65535" by (metis mod_mult_self4)
  then show ?thesis by (simp add: ones_eq_def)
qed

lemma ones_eq_unique:
  assumes "ones_eq a b" and "a \<le> 65535" and "b \<le> 65535"
  shows "a = b"
proof (cases "a = 65535 \<or> b = 65535")
  case True
  with assms show ?thesis unfolding ones_eq_def by (metis le_neq_implies_less mod_less mod_self)
next
  case False
  with assms have "a < 65535" "b < 65535" by linarith+
  with assms(1) show ?thesis unfolding ones_eq_def by simp
qed

lemma ones_sum_eq: "ones_eq (ones_sum n) n"
proof (cases n)
  case (Suc k)
  have "((k mod 65535) + 1) mod 65535 = (k + 1) mod 65535" by (rule mod_add_left_eq)
  with Suc show ?thesis by (simp add: ones_eq_def ones_sum_def)
qed (simp add: ones_sum_def)

lemma ones_sum_le: "ones_sum n \<le> 65535"
  by (auto simp: ones_sum_def Suc_le_eq)

lemma ones_sum_cong: "ones_eq a b \<Longrightarrow> ones_sum a = ones_sum b"
  by (rule ones_eq_unique [OF _ ones_sum_le ones_sum_le]) (meson ones_eq_sym ones_eq_trans ones_sum_eq)

lemma be_sum_le_sum: "ones_eq (be_sum bs) (256 * le_sum bs)"
proof (induction bs rule: be_sum.induct)
  case (1 a b r)
  have "ones_eq (256 * unat a + unat b) (65536 * unat b + 256 * unat a)"
    using ones_eq_sym [OF ones_eq_carry [of "unat b" "256 * unat a"]] by (simp add: add.commute)
  from ones_eq_add [OF this 1] show ?case by (simp add: algebra_simps)
qed simp_all

text \<open>Cutting the data in two: behind an odd number of bytes the words are exchanged.\<close>

lemma le_sum_Cons: "ones_eq (le_sum (a # xs)) (unat a + 256 * le_sum xs)"
proof (induction xs arbitrary: a rule: le_sum.induct)
  case (1 b c r)
  have "ones_eq (unat a + 256 * unat b + le_sum (c # r)) (unat a + 256 * unat b + (unat c + 256 * le_sum r))"
    by (rule ones_eq_add [OF ones_eq_refl 1])
  also have "ones_eq (unat a + 256 * unat b + (unat c + 256 * le_sum r)) (unat a + 256 * unat b + (65536 * unat c + 256 * le_sum r))"
    by (rule ones_eq_add [OF ones_eq_refl ones_eq_sym [OF ones_eq_carry]])
  finally show ?case by (simp add: algebra_simps)
qed simp_all

lemma ones_eq_swap_swap: "ones_eq (256 * (256 * a)) a"
  using ones_eq_carry [of a 0] by simp

lemma le_sum_append:
  "ones_eq (le_sum (xs @ ys)) (le_sum xs + (if odd (length xs) then 256 * le_sum ys else le_sum ys))"
proof (induction xs)
  case (Cons a xs)
  let ?k = "if odd (length xs) then 256 * le_sum ys else le_sum ys"
  have "ones_eq (le_sum ((a # xs) @ ys)) (unat a + 256 * (le_sum xs + ?k))"
    using ones_eq_trans [OF le_sum_Cons ones_eq_add [OF ones_eq_refl ones_eq_mult [OF Cons.IH]]] by simp
  also have "unat a + 256 * (le_sum xs + ?k) = (unat a + 256 * le_sum xs) + 256 * ?k" by simp
  also have "ones_eq \<dots> (le_sum (a # xs) + (if odd (length (a # xs)) then 256 * le_sum ys else le_sum ys))"
    by (rule ones_eq_add [OF ones_eq_sym [OF le_sum_Cons]]) (use ones_eq_carry [of "le_sum ys" 0] in simp)
  finally show ?case .
qed simp

lemma le_sum_bound: "le_sum bs \<le> 65535 * ((length bs + 1) div 2)"
proof (induction bs rule: le_sum.induct)
  case (1 a b r)
  have "unat a \<le> 255" "unat b \<le> 255" using unat_u8_less [of a] unat_u8_less [of b] by linarith+
  with 1 show ?case by simp
next
  case (2 a)
  then show ?case using unat_u8_less [of a] by (simp del: unat_u8_less)
qed simp

subsection \<open>The steps of the routines\<close>

lemma unat_ucast_u16 [simp]: "unat (ucast (x :: u16) :: u32) = unat x"
  by (simp add: unsigned_ucast_eq take_bit_nat_eq_self less_trans [OF unat_u16_less])

lemma unat_u32_of: "unat (u32_of a b c d) = unat a + 256 * unat b + 65536 * (unat c + 256 * unat d)"
proof -
  have "u32_of a b c d = ucast (u16_of a b) OR push_bit 16 (ucast (u16_of c d))"
    by (rule bit_word_eqI) (auto simp: bit_u32_of bit_u16_of bit_simps)
  also have "\<dots> = ucast (u16_of a b) + push_bit 16 (ucast (u16_of c d))"
    by (subst disjunctive_add) (auto simp: bit_simps dest: bit_imp_le_length)
  finally have "unat (u32_of a b c d) = (unat (u16_of a b) + 65536 * unat (u16_of c d)) mod 4294967296"
    by (simp add: unat_word_ariths push_bit_eq_mult mult.commute mod_simps)
  moreover have "unat (u16_of a b) < 65536" "unat (u16_of c d) < 65536" by simp_all
  then have "unat (u16_of a b) + 65536 * unat (u16_of c d) < 4294967296" by linarith
  ultimately show ?thesis by (simp add: unat_u16_of)
qed

lemma unat_FOLD: "unat (FOLD_U32T u) = unat u div 65536 + unat u mod 65536"
proof -
  have "u AND 0xffff = take_bit 16 u" by (simp add: take_bit_eq_mask mask_eq_exp_minus_1)
  then have "unat (u AND 0xffff) = unat u mod 65536" by (simp add: take_bit_eq_mod unat_mod)
  moreover have "unat (drop_bit 16 u) = unat u div 65536" by (simp add: drop_bit_eq_div unat_div)
  moreover have "unat u div 65536 + unat u mod 65536 < 4294967296"
    using unsigned_less [of u, where 'a = nat] by simp
  ultimately show ?thesis by (simp add: FOLD_U32T_def unat_word_ariths)
qed

lemma FOLD_eq: "ones_eq (unat (FOLD_U32T u)) (unat u)"
  using ones_eq_sym [OF ones_eq_carry [of "unat u div 65536" "unat u mod 65536"]] by (simp add: unat_FOLD)

lemma FOLD_le:
  assumes "unat u \<le> 0x1fffe"
  shows "unat (FOLD_U32T u) \<le> 65535"
proof (cases "unat u < 65536")
  case False
  define k where "k = unat u - 65536"
  with False assms have "unat u = k + 65536" "k \<le> 65534" by simp_all
  then show ?thesis unfolding unat_FOLD by simp
qed (simp add: unat_FOLD)

lemma FOLD_bound: "unat (FOLD_U32T u) \<le> 0x1fffe"
proof -
  have "unat u < 4294967296" using unsigned_less [of u, where 'a = nat] by simp
  then have "unat u div 65536 \<le> 65535" "unat u mod 65536 \<le> 65535" by simp_all
  then show ?thesis unfolding unat_FOLD by linarith
qed

lemma FOLD_FOLD_le: "unat (FOLD_U32T (FOLD_U32T u)) \<le> 65535"
  by (rule FOLD_le [OF FOLD_bound])

lemma SWAP_u32_of: "SWAP_BYTES_IN_WORD (u32_of a b c d) = u32_of b a 0 0"
  unfolding SWAP_BYTES_IN_WORD_def mask_consts
  by (rule bit_word_eqI) (auto simp: bit_u32_of bit_simps dest: bit_imp_le_length)

lemma unat_SWAP:
  assumes "unat u \<le> 65535"
  shows "ones_eq (unat (SWAP_BYTES_IN_WORD u)) (256 * unat u)" "unat (SWAP_BYTES_IN_WORD u) \<le> 65535"
proof -
  obtain a b c d where u: "u = u32_of a b c d" by (rule u32_of_cases)
  have "65536 * (unat c + 256 * unat d) \<le> 65535" using assms unfolding u unat_u32_of by linarith
  then have z: "unat c = 0" "unat d = 0" by simp_all
  show "ones_eq (unat (SWAP_BYTES_IN_WORD u)) (256 * unat u)"
    using ones_eq_sym [OF ones_eq_carry [of "unat b" "256 * unat a"]] z
    by (simp add: u SWAP_u32_of unat_u32_of algebra_simps)
  have "unat a \<le> 255" "unat b \<le> 255" using unat_u8_less [of a] unat_u8_less [of b] by linarith+
  then show "unat (SWAP_BYTES_IN_WORD u) \<le> 65535" by (simp add: u SWAP_u32_of unat_u32_of)
qed

lemma unat_ucast_to_u16: "unat (u :: u32) \<le> 65535 \<Longrightarrow> unat (ucast u :: u16) = unat u"
  by (simp add: unsigned_ucast_eq take_bit_nat_eq_self)

lemma unat_add_u32: "unat (a :: u32) + unat b < 2 ^ 32 \<Longrightarrow> unat (a + b) = unat a + unat b"
  by (simp add: unat_word_ariths)

lemma htons_eq: "ones_eq (unat (lwip_htons w)) (256 * unat w)"
  by (cases w rule: u16_of_cases)
    (use ones_eq_sym [OF ones_eq_carry] in \<open>simp add: unat_u16_of algebra_simps\<close>)

subsection \<open>The three versions\<close>

lemma chk_words_sum:
  assumes "unat tot + le_sum bs < 2 ^ 32"
  shows "case chk_words bs tot of (tot', rest) \<Rightarrow> length rest \<le> 1 \<and> unat tot' + le_sum rest = unat tot + le_sum bs"
  using assms
proof (induction bs tot rule: chk_words.induct)
  case (1 a b r tot)
  have "unat (tot + ucast (u16_of a b)) = unat tot + (unat a + 256 * unat b)"
    using "1.prems" by (subst unat_add_u32) (simp_all add: unat_u16_of)
  then show ?case using 1 by (simp add: add.assoc)
qed simp_all

lemma chk_finish_sum:
  assumes "length rest \<le> 1" and "unat tot + le_sum rest + 256 * unat t1 < 2 ^ 32"
  shows "ones_eq (unat (chk_finish addr t1 (tot, rest)))
    ((if odd addr then 256 else 1) * (unat tot + le_sum rest + 256 * unat t1))"
proof -
  let ?t0 = "case rest of [] \<Rightarrow> 0 | b # _ \<Rightarrow> b"
  let ?s = "FOLD_U32T (FOLD_U32T (tot + ucast (u16_of ?t0 t1)))"
  have t0: "unat ?t0 = le_sum rest" using assms(1) by (cases rest) (simp_all add: le_Suc_eq)
  have "unat (tot + ucast (u16_of ?t0 t1)) = unat tot + unat (ucast (u16_of ?t0 t1) :: u32)"
    using assms(2) t0 by (intro unat_add_u32) (simp add: unat_u16_of)
  also have "\<dots> = unat tot + le_sum rest + 256 * unat t1" by (simp add: unat_u16_of t0)
  finally have s: "ones_eq (unat ?s) (unat tot + le_sum rest + 256 * unat t1)"
    using ones_eq_trans [OF FOLD_eq FOLD_eq] by metis
  have le: "unat ?s \<le> 65535" by (rule FOLD_FOLD_le)
  show ?thesis
  proof (cases "odd addr")
    case True
    have "ones_eq (unat (SWAP_BYTES_IN_WORD ?s)) (256 * (unat tot + le_sum rest + 256 * unat t1))"
      by (rule ones_eq_trans [OF unat_SWAP(1) [OF le] ones_eq_mult [OF s]])
    then show ?thesis using True unat_SWAP(2) [OF le] by (simp add: chk_finish_def Let_def unat_ucast_to_u16)
  next
    case False
    then show ?thesis using s le by (simp add: chk_finish_def Let_def unat_ucast_to_u16)
  qed
qed

lemma chk_head_sum:
  assumes "chk_head addr bs = (t1, r)"
  shows "ones_eq ((if odd addr then 256 else 1) * (le_sum r + 256 * unat t1)) (le_sum bs)"
    and "length bs = length r + (if odd addr \<and> bs \<noteq> [] then 1 else 0)"
proof -
  have "ones_eq (256 * (le_sum xs + 256 * unat a)) (le_sum (a # xs))" for a xs
  proof -
    have "ones_eq (65536 * unat a + 256 * le_sum xs) (unat a + 256 * le_sum xs)" by (rule ones_eq_carry)
    from ones_eq_trans [OF this ones_eq_sym [OF le_sum_Cons]] show ?thesis by (simp add: algebra_simps)
  qed
  then show "ones_eq ((if odd addr then 256 else 1) * (le_sum r + 256 * unat t1)) (le_sum bs)"
    using assms by (auto simp: chk_head_def split: list.splits if_splits)
  show "length bs = length r + (if odd addr \<and> bs \<noteq> [] then 1 else 0)"
    using assms by (auto simp: chk_head_def split: list.splits if_splits)
qed

lemma chk_head_bound:
  assumes "chk_head addr bs = (t1, r)" and "length bs \<le> 0x20000"
  shows "le_sum r + 256 * unat t1 < 2 ^ 32"
proof (cases "odd addr \<and> bs \<noteq> []")
  case True
  then have "length r + 1 \<le> 0x20000" using chk_head_sum(2) [OF assms(1)] assms(2) by simp
  then have "65535 * ((length r + 1) div 2) \<le> 65535 * 65536" by simp
  then have "le_sum r \<le> 65535 * 65536" using le_sum_bound [of r] by linarith
  then show ?thesis using unat_u8_less [of t1] by (simp del: unat_u8_less)
next
  case False
  then have "t1 = 0" "r = bs" using assms(1) by (auto simp: chk_head_def split: list.splits if_splits)
  moreover have "65535 * ((length bs + 1) div 2) \<le> 65535 * 65536" using assms(2) by simp
  ultimately show ?thesis using le_sum_bound [of bs] by simp
qed

lemma lwip_standard_chksum_sum:
  assumes "length bs \<le> 0x20000"
  shows "ones_eq (unat (lwip_standard_chksum addr bs)) (le_sum bs)"
proof -
  obtain t1 r where h: "chk_head addr bs = (t1, r)" by (rule prod.exhaust)
  obtain tot rest where w: "chk_words r 0 = (tot, rest)" by (rule prod.exhaust)
  note b = chk_head_bound [OF h assms]
  then have *: "length rest \<le> 1" "unat tot + le_sum rest = le_sum r" using chk_words_sum [of 0 r] w by simp_all
  have "ones_eq (unat (chk_finish addr t1 (tot, rest))) ((if odd addr then 256 else 1) * (le_sum r + 256 * unat t1))"
    using chk_finish_sum [OF *(1), of tot t1 addr] b unfolding *(2) by simp
  from ones_eq_trans [OF this chk_head_sum(1) [OF h]] show ?thesis by (simp add: lwip_standard_chksum_def h w)
qed

lemma be_sum_bound: "be_sum bs \<le> 65535 * ((length bs + 1) div 2)"
proof (induction bs rule: be_sum.induct)
  case (1 a b r)
  have "unat a \<le> 255" "unat b \<le> 255" using unat_u8_less [of a] unat_u8_less [of b] by linarith+
  with 1 show ?case by simp
next
  case (2 a)
  then show ?case using unat_u8_less [of a] by (simp del: unat_u8_less)
qed simp

lemma chk_octets_sum: "unat acc + be_sum bs < 2 ^ 32 \<Longrightarrow> unat (chk_octets bs acc) = unat acc + be_sum bs"
proof (induction bs acc rule: chk_octets.induct)
  case (1 a b r acc)
  have "push_bit 8 (ucast a) OR ucast b = u16_of b a" by (simp add: u16_of_def or.commute)
  then have "unat (acc + ucast (push_bit 8 (ucast a) OR ucast b :: u16)) = unat acc + (unat b + 256 * unat a)"
    using "1.prems" by (subst unat_add_u32) (simp_all add: unat_u16_of)
  then show ?case using 1 by simp
next
  case (2 a acc)
  have "push_bit 8 (ucast a) = u16_of 0 a" by (simp add: u16_of_def)
  then show ?case using 2 by (simp add: unat_add_u32 unat_u16_of)
qed simp

lemma high_half_zero: "unat (u :: u32) \<le> 65535 \<longleftrightarrow> u AND 0xffff0000 = 0"
proof -
  obtain a b c d where u: "u = u32_of a b c d" by (rule u32_of_cases)
  have "(0xffff0000 :: u32) = push_bit 16 (mask 16)" by (simp add: mask_eq_exp_minus_1 push_bit_eq_mult)
  then have "u AND 0xffff0000 = u32_of 0 0 c d"
    unfolding u by (intro bit_word_eqI) (auto simp only: bit_and_iff bit_u32_of bit_push_bit_iff bit_mask_iff; auto split: if_splits)
  moreover have "unat u \<le> 65535 \<longleftrightarrow> c = 0 \<and> d = 0"
  proof
    assume "unat u \<le> 65535"
    then have "65536 * (unat c + 256 * unat d) \<le> 65535" unfolding u unat_u32_of by linarith
    then have "unat c = 0 \<and> unat d = 0" by simp
    then show "c = 0 \<and> d = 0" by (simp only: unsigned_eq_0_iff)
  next
    assume "c = 0 \<and> d = 0"
    moreover have "unat a \<le> 255" "unat b \<le> 255" using unat_u8_less [of a] unat_u8_less [of b] by linarith+
    ultimately show "unat u \<le> 65535" by (simp add: u unat_u32_of)
  qed
  ultimately show ?thesis by (simp add: u32_of_eq_0)
qed

lemma lwip_standard_chksum_1_sum:
  assumes "length bs < 0x10000"
  shows "ones_eq (unat (lwip_standard_chksum_1 bs)) (le_sum bs)"
proof -
  let ?acc = "FOLD_U32T (chk_octets bs 0)"
  let ?acc' = "if ?acc AND 0xffff0000 \<noteq> 0 then FOLD_U32T ?acc else ?acc"
  have "65535 * ((length bs + 1) div 2) \<le> 65535 * 32768" using assms by simp
  then have "be_sum bs < 2 ^ 32" using be_sum_bound [of bs] by simp
  then have c: "unat (chk_octets bs 0) = be_sum bs" using chk_octets_sum [of 0 bs] by simp
  have le: "unat ?acc' \<le> 65535"
    using FOLD_FOLD_le [of "chk_octets bs 0"] high_half_zero [of ?acc] by simp
  have "ones_eq (unat ?acc') (unat ?acc)" using FOLD_eq by simp
  also have "ones_eq (unat ?acc) (be_sum bs)" using FOLD_eq [of "chk_octets bs 0"] unfolding c .
  also have "ones_eq (be_sum bs) (256 * le_sum bs)" by (rule be_sum_le_sum)
  finally have "ones_eq (256 * unat ?acc') (256 * (256 * le_sum bs))" by (rule ones_eq_mult)
  from ones_eq_trans [OF this ones_eq_swap_swap]
  have "ones_eq (256 * unat (ucast ?acc' :: u16)) (le_sum bs)" using le by (simp only: unat_ucast_to_u16)
  from ones_eq_trans [OF htons_eq this] show ?thesis unfolding lwip_standard_chksum_1_def Let_def .
qed

lemma add_carry_sum: "ones_eq (unat (add_carry x w)) (unat x + unat w)"
proof (cases "unat x + unat w < 2 ^ 32")
  case True
  then have "unat (x + w) = unat x + unat w" by (rule unat_add_u32)
  then show ?thesis by (simp add: add_carry_def word_less_nat_alt)
next
  case False
  have x: "unat x < 4294967296" "unat w < 4294967296" using unsigned_less [of x, where 'a = nat] unsigned_less [of w, where 'a = nat] by simp_all
  define k where "k = unat x + unat w - 4294967296"
  have k: "unat x + unat w = k + 4294967296" "k < 4294967295" using False x unfolding k_def by simp_all
  have s: "unat (x + w) = k" using k by (simp add: unat_word_ariths)
  then have "unat (x + w + 1) = k + 1" using k(2) unat_add_u32 [of "x + w" 1] by simp
  moreover have "k < unat x" using k(1) x(2) by linarith
  ultimately have "unat (add_carry x w) = k + 1" using s by (simp add: add_carry_def word_less_nat_alt)
  moreover have "unat x + unat w = k + 1 + 65535 * 65537" using k(1) by simp
  then have "(unat x + unat w) mod 65535 = (k + 1) mod 65535" by (metis mod_mult_self2)
  ultimately show ?thesis using k(1) by (simp add: ones_eq_def)
qed

lemma unat_u32_of_sum: "ones_eq (unat (u32_of a b c d)) (unat a + 256 * unat b + (unat c + 256 * unat d))"
  using ones_eq_carry [of "unat c + 256 * unat d" "unat a + 256 * unat b"] by (simp add: unat_u32_of add.commute)

lemma chk_longs_sum:
  "case chk_longs bs tot of (tot', rest) \<Rightarrow> length rest \<le> 7 \<and> ones_eq (unat tot' + le_sum rest) (unat tot + le_sum bs)"
proof (induction bs tot rule: chk_longs.induct)
  case (1 a b c d a' b' c' d' r tot)
  let ?t = "add_carry (add_carry tot (u32_of a b c d)) (u32_of a' b' c' d')"
  have "ones_eq (unat ?t) (unat tot + unat (u32_of a b c d) + unat (u32_of a' b' c' d'))"
    by (rule ones_eq_trans [OF add_carry_sum ones_eq_add [OF add_carry_sum ones_eq_refl]])
  also have "ones_eq \<dots> (unat tot + (unat a + 256 * unat b + (unat c + 256 * unat d)) + (unat a' + 256 * unat b' + (unat c' + 256 * unat d')))"
    by (intro ones_eq_add ones_eq_refl unat_u32_of_sum)
  finally have t: "ones_eq (unat ?t) (unat tot + (unat a + 256 * unat b + (unat c + 256 * unat d)) +
      (unat a' + 256 * unat b' + (unat c' + 256 * unat d')))" .
  have "ones_eq (unat ?t + le_sum r) (unat tot + le_sum (a # b # c # d # a' # b' # c' # d' # r))"
    using ones_eq_add [OF t ones_eq_refl [of "le_sum r"]] by (simp add: add.assoc)
  with 1 show ?case by (auto split: prod.splits intro: ones_eq_trans)
qed simp_all

lemma lwip_standard_chksum_3_sum:
  assumes "length bs \<le> 0x20000"
  shows "ones_eq (unat (lwip_standard_chksum_3 addr bs)) (le_sum bs)"
proof -
  obtain t1 r where h: "chk_head addr bs = (t1, r)" by (rule prod.exhaust)
  let ?x = "case r of a # b # r' \<Rightarrow> if (addr + (length bs - length r)) mod 4 \<noteq> 0 then (ucast (u16_of a b), r') else (0, r) | _ \<Rightarrow> (0 :: u32, r)"
  obtain tot r1 where x: "?x = (tot, r1)" by (rule prod.exhaust)
  have r1: "unat tot + le_sum r1 = le_sum r"
    using x by (auto simp: unat_u16_of split: list.splits if_splits)
  obtain tot1 r2 where l: "chk_longs r1 tot = (tot1, r2)" by (rule prod.exhaust)
  have r2: "length r2 \<le> 7" "ones_eq (unat tot1 + le_sum r2) (le_sum r)" using chk_longs_sum [where bs = r1 and tot = tot] l r1 by simp_all
  obtain tot2 rest where w: "chk_words r2 (FOLD_U32T tot1) = (tot2, rest)" by (rule prod.exhaust)
  have "65535 * ((length r2 + 1) div 2) \<le> 65535 * 4" using r2(1) by simp
  then have b: "unat (FOLD_U32T tot1) + le_sum r2 \<le> 393210"
    using le_sum_bound [of r2] FOLD_bound [of tot1] by linarith
  then have *: "length rest \<le> 1" "unat tot2 + le_sum rest = unat (FOLD_U32T tot1) + le_sum r2"
    using chk_words_sum [of "FOLD_U32T tot1" r2] w by simp_all
  have "unat tot2 + le_sum rest + 256 * unat t1 < 2 ^ 32" using b *(2) unat_u8_less [of t1] by (simp del: unat_u8_less)
  note fin = chk_finish_sum [OF *(1) this, of addr]
  have "ones_eq (unat tot2 + le_sum rest) (le_sum r)"
    unfolding *(2) by (rule ones_eq_trans [OF ones_eq_add [OF FOLD_eq ones_eq_refl] r2(2)])
  then have "ones_eq (unat tot2 + le_sum rest + 256 * unat t1) (le_sum r + 256 * unat t1)" by (rule ones_eq_add) simp
  note k = ones_eq_trans [OF fin ones_eq_mult [OF this]]
  show ?thesis unfolding lwip_standard_chksum_3_def h Let_def prod.case x l w
    by (rule ones_eq_trans [OF k chk_head_sum(1) [OF h]])
qed

subsection \<open>Chains\<close>

lemma ones_eq_toggle:
  "ones_eq ((if sw then 1 else 256) * (256 * a + b)) ((if sw then 256 else 1) * (a + 256 * b))"
  using ones_eq_carry [of a "256 * b"] ones_eq_sym [OF ones_eq_carry [of b "256 * a"]] by (simp add: algebra_simps)

lemma ones_eq_odd_step:
  assumes "unat a \<le> 65535" and "ones_eq (unat a) t"
  shows "ones_eq ((if sw then 1 else 256) * (unat (SWAP_BYTES_IN_WORD a) + r)) ((if sw then 256 else 1) * (t + 256 * r))"
  using ones_eq_trans [OF ones_eq_mult [OF ones_eq_add [OF ones_eq_trans [OF unat_SWAP(1) [OF assms(1)] ones_eq_mult [OF assms(2)]]
        ones_eq_refl]] ones_eq_toggle] .

text \<open>One pbuf is added to the accumulator.\<close>

lemma chk_add_pbuf:
  assumes "unat acc \<le> 65535" and "length bs < 65536"
  shows "unat (FOLD_U32T (acc + ucast (LWIP_CHKSUM addr bs))) \<le> 65535"
    and "ones_eq (unat (FOLD_U32T (acc + ucast (LWIP_CHKSUM addr bs)))) (unat acc + le_sum bs)"
proof -
  let ?x = "acc + ucast (LWIP_CHKSUM addr bs)"
  have x: "unat ?x = unat acc + unat (LWIP_CHKSUM addr bs)"
    using assms(1) unat_u16_less [of "LWIP_CHKSUM addr bs"] by (subst unat_add_u32) (simp_all del: unat_u16_less)
  show "unat (FOLD_U32T ?x) \<le> 65535"
    using x assms(1) unat_u16_less [of "LWIP_CHKSUM addr bs"] by (intro FOLD_le) (simp del: unat_u16_less)
  show "ones_eq (unat (FOLD_U32T ?x)) (unat acc + le_sum bs)"
    using ones_eq_trans [OF FOLD_eq [of ?x, unfolded x] ones_eq_add [OF ones_eq_refl lwip_standard_chksum_sum]] assms(2) by simp
qed

lemma chk_chain_sum:
  assumes "chain_wf c" and "unat acc \<le> 65535"
  shows "unat (chk_unswap (chk_chain adr c sw acc)) \<le> 65535 \<and>
    ones_eq (unat (chk_unswap (chk_chain adr c sw acc))) ((if sw then 256 else 1) * (unat acc + le_sum (chain_data c)))"
  using assms
proof (induction c arbitrary: sw acc)
  case Nil
  then show ?case using unat_SWAP by (auto simp: chk_unswap_def)
next
  case (Cons q qs)
  let ?a = "FOLD_U32T (acc + ucast (LWIP_CHKSUM (adr q) (pb_payload q)))" and ?k = "if sw then 256 else 1 :: nat"
  have len: "length (pb_payload q) = pb_len q" "pb_len q < 65536" using Cons.prems(1) by (auto simp: pbuf_wf_def pb_payload_def)
  note a = chk_add_pbuf [OF Cons.prems(2), of "pb_payload q" "adr q", unfolded len(1), OF len(2)]
  have data: "ones_eq (unat acc + le_sum (chain_data (q # qs)))
      (unat acc + le_sum (pb_payload q) + (if odd (pb_len q) then 256 * le_sum (chain_data qs) else le_sum (chain_data qs)))"
    using ones_eq_add [OF ones_eq_refl le_sum_append [of "pb_payload q" "chain_data qs"], of "unat acc"] len(1) by (simp add: add.assoc)
  show ?case
  proof (cases "odd (pb_len q)")
    case True
    let ?b = "SWAP_BYTES_IN_WORD ?a" and ?S = "unat acc + le_sum (pb_payload q)" and ?R = "le_sum (chain_data qs)"
    have d: "ones_eq (?S + 256 * ?R) (unat acc + le_sum (chain_data (q # qs)))"
      using ones_eq_sym [OF data] True by (simp only: if_True not_False_eq_True)
    note eq = ones_eq_trans [OF ones_eq_odd_step [OF a] ones_eq_mult [OF d], of sw]
    have "chk_chain adr (q # qs) sw acc = chk_chain adr qs (\<not> sw) ?b"
      using True by (simp add: Let_def odd_iff_mod_2_eq_one)
    then show ?thesis using Cons.IH [OF _ unat_SWAP(2) [OF a(1)], of "\<not> sw"] Cons.prems(1) ones_eq_trans [OF _ eq]
      by (simp only: chain_wf.simps if_not_P not_not simp_thms) (cases sw; simp only: if_True if_False simp_thms)
  next
    case False
    have d: "ones_eq (unat acc + le_sum (pb_payload q) + le_sum (chain_data qs)) (unat acc + le_sum (chain_data (q # qs)))"
      using ones_eq_sym [OF data] False by (simp only: if_False not_True_eq_False)
    note eq = ones_eq_mult [OF ones_eq_trans [OF ones_eq_add [OF a(2) ones_eq_refl] d], of ?k]
    have "chk_chain adr (q # qs) sw acc = chk_chain adr qs sw ?a"
      using False by (simp add: Let_def odd_iff_mod_2_eq_one)
    then show ?thesis using Cons.IH [OF _ a(1), of sw] Cons.prems(1) ones_eq_trans [OF _ eq]
      by (simp only: chain_wf.simps simp_thms)
  qed
qed

text \<open>
  Stopping inside a pbuf does no harm although the code looks at the parity of the whole pbuf: the
  flag is undone at the end.
\<close>

lemma chk_chain_partial_sum:
  assumes "chain_wf c" and "unat acc \<le> 65535" and "n < 0x7fff"
  shows "\<exists>x. chk_chain_partial adr c n sw acc = Ok x \<and> unat (chk_unswap x) \<le> 65535 \<and>
    ones_eq (unat (chk_unswap x)) ((if sw then 256 else 1) * (unat acc + le_sum (take n (chain_data c))))"
  using assms
proof (induction c arbitrary: sw acc n)
  case Nil
  then show ?case using unat_SWAP by (auto simp: chk_unswap_def)
next
  case (Cons q qs)
  let ?m = "min n (pb_len q)"
  let ?d = "take ?m (pb_payload q)" and ?k = "if sw then 256 else 1 :: nat"
  let ?a = "FOLD_U32T (acc + ucast (LWIP_CHKSUM (adr q) ?d))" and ?R = "le_sum (take (n - ?m) (chain_data qs))"
  have len: "length (pb_payload q) = pb_len q" "pb_len q < 65536" using Cons.prems(1) by (auto simp: pbuf_wf_def pb_payload_def)
  have a: "unat ?a \<le> 65535" "ones_eq (unat ?a) (unat acc + le_sum ?d)"
    by (rule chk_add_pbuf [OF Cons.prems(2)]; use len in simp)+
  have td: "take n (chain_data (q # qs)) = ?d @ take (n - ?m) (chain_data qs)" using len(1) by (simp add: min_def)
  show ?case
  proof (cases "n = 0")
    case True
    then show ?thesis using Cons.prems(2) unat_SWAP by (auto simp: chk_unswap_def)
  next
    case False
    have st: "chk_chain_partial adr (q # qs) n sw acc =
      (if odd (pb_len q) then chk_chain_partial adr qs (n - ?m) (\<not> sw) (SWAP_BYTES_IN_WORD ?a) else chk_chain_partial adr qs (n - ?m) sw ?a)"
      using False Cons.prems(3) by (auto simp: Let_def min_def odd_iff_mod_2_eq_one)
    have d: "ones_eq (unat acc + le_sum ?d + (if odd (pb_len q) then 256 * ?R else ?R)) (unat acc + le_sum (take n (chain_data (q # qs))))"
    proof (cases "pb_len q \<le> n")
      case True
      then show ?thesis unfolding td
        using ones_eq_add [OF ones_eq_refl [of "unat acc"]
            ones_eq_sym [OF le_sum_append [of "pb_payload q" "take (n - pb_len q) (chain_data qs)"]]] len(1)
        by (cases "odd (pb_len q)") (simp_all add: add.assoc min_def)
    next
      case False
      then show ?thesis unfolding td by simp
    qed
    have n: "n - ?m < 0x7fff" using Cons.prems(3) by simp
    have wf: "chain_wf qs" using Cons.prems(1) by simp
    show ?thesis
    proof (cases "odd (pb_len q)")
      case True
      obtain x where x: "chk_chain_partial adr qs (n - ?m) (\<not> sw) (SWAP_BYTES_IN_WORD ?a) = Ok x" "unat (chk_unswap x) \<le> 65535"
        "ones_eq (unat (chk_unswap x)) ((if \<not> sw then 256 else 1) * (unat (SWAP_BYTES_IN_WORD ?a) + ?R))"
        using Cons.IH [OF wf unat_SWAP(2) [OF a(1)] n, of "\<not> sw"] by blast
      have "ones_eq (unat (chk_unswap x)) ((if sw then 1 else 256) * (unat (SWAP_BYTES_IN_WORD ?a) + ?R))"
        using x(3) by (cases sw) (simp_all only: not_True_eq_False not_False_eq_True if_True if_False)
      from ones_eq_trans [OF this ones_eq_trans [OF ones_eq_odd_step [OF a] ones_eq_mult [OF d [unfolded if_P [OF True]]]]] x(1,2) True
      show ?thesis unfolding st by auto
    next
      case False
      obtain x where x: "chk_chain_partial adr qs (n - ?m) sw ?a = Ok x" "unat (chk_unswap x) \<le> 65535"
        "ones_eq (unat (chk_unswap x)) (?k * (unat ?a + ?R))" using Cons.IH [OF wf a(1) n, of sw] by blast
      from ones_eq_trans [OF x(3) ones_eq_mult [OF ones_eq_trans [OF ones_eq_add [OF a(2) ones_eq_refl] d [unfolded if_not_P [OF False]]]]]
      show ?thesis unfolding st using False x(1,2) by auto
    qed
  qed
qed

subsection \<open>Main properties\<close>

text \<open>The checksum of RFC 1071 as a number in network order, and the pseudo header of UDP and TCP.\<close>

definition rfc1071_sum :: "bytes \<Rightarrow> u16" where
  "rfc1071_sum bs = of_nat (ones_sum (be_sum bs))"

definition pseudo_header :: "ip_addr \<Rightarrow> ip_addr \<Rightarrow> u8 \<Rightarrow> u16 \<Rightarrow> bytes" where
  "pseudo_header src dest proto proto_len = le32 src @ le32 dest @ [0, proto] @ rev (le16 proto_len)"

lemma rfc1071I:
  assumes "ones_eq (unat x) (le_sum bs)"
  shows "x = lwip_htons (rfc1071_sum bs)"
proof -
  have "ones_eq (unat (lwip_htons x)) (be_sum bs)"
    by (rule ones_eq_trans [OF htons_eq ones_eq_trans [OF ones_eq_mult [OF assms] ones_eq_sym [OF be_sum_le_sum]]])
  from ones_sum_cong [OF this] have "ones_sum (unat (lwip_htons x)) = ones_sum (be_sum bs)" .
  moreover have "unat (lwip_htons x) \<le> 65535" using unat_u16_less [of "lwip_htons x"] by linarith
  then have "ones_sum (unat (lwip_htons x)) = unat (lwip_htons x)"
    by (intro ones_eq_unique [OF ones_sum_eq ones_sum_le])
  ultimately have "rfc1071_sum bs = of_nat (unat (lwip_htons x))" by (simp only: rfc1071_sum_def)
  then have "rfc1071_sum bs = lwip_htons x" by simp
  then show ?thesis by (metis lwip_htons_invol)
qed

lemma chk_addrs_sum:
  "unat (chk_addrs src dest) \<le> 65535" "ones_eq (unat (chk_addrs src dest)) (le_sum (le32 src @ le32 dest))"
proof -
  show "unat (chk_addrs src dest) \<le> 65535" unfolding chk_addrs_def by (rule FOLD_FOLD_le)
  obtain a b c d where s: "src = u32_of a b c d" by (rule u32_of_cases)
  obtain a' b' c' d' where t: "dest = u32_of a' b' c' d'" by (rule u32_of_cases)
  have m: "(0xffff :: u32) = mask 16" by (simp add: mask_eq_exp_minus_1)
  have lo: "u32_of a b c d AND 0xffff = u32_of a b 0 0" "drop_bit 16 (u32_of a b c d) AND 0xffff = u32_of c d 0 0" for a b c d
    unfolding m by (rule bit_word_eqI, auto simp only: bit_and_iff bit_u32_of bit_drop_bit_eq bit_mask_iff comp_def; auto split: if_splits)+
  let ?w = "(src AND 0xffff) + (drop_bit 16 src AND 0xffff) + (dest AND 0xffff) + (drop_bit 16 dest AND 0xffff)"
  have b: "unat (u32_of x y 0 0) = unat x + 256 * unat y" "unat x + 256 * unat y \<le> 65535" for x y :: u8
    using unat_u8_less [of x] unat_u8_less [of y] by (simp_all add: unat_u32_of del: unat_u8_less)
  have "unat ?w = le_sum (le32 src @ le32 dest)" unfolding s t lo
    using b(2) [of a b] b(2) [of c d] b(2) [of a' b'] b(2) [of c' d']
    by (simp add: unat_add_u32 b(1) le32_def)
  then show "ones_eq (unat (chk_addrs src dest)) (le_sum (le32 src @ le32 dest))"
    unfolding chk_addrs_def using ones_eq_trans [OF FOLD_eq FOLD_eq] by metis
qed

lemma ucast_not_low: "(ucast (NOT (u AND 0xffff :: u32)) :: u16) = NOT (ucast u)"
proof -
  have "(0xffff :: u32) = mask 16" by (simp add: mask_eq_exp_minus_1)
  then show ?thesis
    by (intro bit_word_eqI) (auto simp only: bit_unsigned_iff bit_not_iff bit_and_iff bit_mask_iff possible_bit_word; auto)
qed

lemma chk_pseudo_end_sum:
  assumes "unat acc \<le> 65535" and "ones_eq (unat acc) (le_sum (le32 src @ le32 dest) + le_sum d)"
  shows "chk_pseudo_end proto proto_len acc = NOT (lwip_htons (rfc1071_sum (pseudo_header src dest proto proto_len @ d)))"
proof -
  let ?w = "acc + ucast (lwip_htons (ucast proto)) + ucast (lwip_htons proto_len)"
  let ?f = "FOLD_U32T (FOLD_U32T ?w)"
  have p: "unat (lwip_htons (ucast proto)) = 256 * unat proto"
  proof -
    have "ucast proto = u16_of proto 0" by (simp add: u16_of_def)
    then show ?thesis by (simp add: unat_u16_of)
  qed
  have "unat ?w = unat acc + 256 * unat proto + unat (lwip_htons proto_len)"
    using assms(1) unat_u16_less [of "lwip_htons proto_len"] unat_u8_less [of proto]
    by (simp add: unat_add_u32 p del: unat_u16_less unat_u8_less)
  moreover obtain x y where "proto_len = u16_of x y" by (rule u16_of_cases)
  then have "unat (lwip_htons proto_len) = le_sum (rev (le16 proto_len))" by (simp add: le16_def unat_u16_of)
  ultimately have "ones_eq (unat ?f) (unat acc + le_sum ([0, proto] @ rev (le16 proto_len)))"
    using ones_eq_trans [OF FOLD_eq [of "FOLD_U32T ?w"] FOLD_eq [of ?w]] by (simp add: add.assoc)
  moreover have "ones_eq (unat acc + le_sum ([0, proto] @ rev (le16 proto_len))) (le_sum (pseudo_header src dest proto proto_len @ d))"
    using ones_eq_add [OF assms(2) ones_eq_refl [of "le_sum ([0, proto] @ rev (le16 proto_len))"]]
    by (simp add: pseudo_header_def le32_def le16_def algebra_simps)
  ultimately have "ones_eq (unat (ucast ?f :: u16)) (le_sum (pseudo_header src dest proto proto_len @ d))"
    using FOLD_FOLD_le [of ?w] by (simp only: unat_ucast_to_u16) (rule ones_eq_trans)
  from rfc1071I [OF this] have "ucast ?f = lwip_htons (rfc1071_sum (pseudo_header src dest proto proto_len @ d))" .
  then show ?thesis unfolding chk_pseudo_end_def by (simp only: ucast_not_low)
qed

lemma unat_not_u16: "unat (NOT w :: u16) = 65535 - unat w"
proof -
  have "NOT w = - 1 - w" by (simp add: not_eq_complement)
  moreover have "unat (- 1 - w) = unat (- 1 :: u16) - unat w" by (intro unat_sub) simp
  moreover have "unat (- 1 :: u16) = 65535" by (simp add: unsigned_minus_1_eq_mask mask_eq_exp_minus_1)
  ultimately show ?thesis by simp
qed

lemma inet_chksum_zero:
  "length bs \<le> 0x20000 \<Longrightarrow> ones_eq (le_sum bs) 65535 \<Longrightarrow> inet_chksum addr bs = 0"
proof -
  assume "length bs \<le> 0x20000" "ones_eq (le_sum bs) 65535"
  then have "ones_eq (unat (LWIP_CHKSUM addr bs)) 65535" using ones_eq_trans [OF lwip_standard_chksum_sum] by blast
  then have "unat (LWIP_CHKSUM addr bs) = 65535"
    by (rule ones_eq_unique) (use unat_u16_less [of "LWIP_CHKSUM addr bs"] in linarith, simp)
  then have "unat (inet_chksum addr bs) = 0" by (simp add: inet_chksum_def unat_not_u16)
  then show ?thesis by (simp only: unsigned_eq_0_iff)
qed

text \<open>Storing the checksum in a field that was zero makes the whole sum up to zero.\<close>

lemma inet_chksum_field:
  assumes "even (length xs)" and "length xs + 2 + length ys \<le> 0x10000"
  shows "inet_chksum addr' (xs @ le16 (inet_chksum addr (xs @ [0, 0] @ ys)) @ ys) = 0"
proof (rule inet_chksum_zero)
  let ?s = "LWIP_CHKSUM addr (xs @ 0 # 0 # ys)"
  obtain a b where v: "NOT ?s = u16_of a b" by (rule u16_of_cases)
  show "length (xs @ le16 (inet_chksum addr (xs @ [0, 0] @ ys)) @ ys) \<le> 0x20000" using assms(2) by (simp add: le16_def)
  have split: "ones_eq (le_sum (xs @ x # y # ys)) (le_sum xs + le_sum ys + unat (u16_of x y))" for x y
    using le_sum_append [of xs "x # y # ys"] assms(1) by (simp add: unat_u16_of algebra_simps)
  have "ones_eq (unat ?s) (le_sum xs + le_sum ys)"
    using ones_eq_trans [OF lwip_standard_chksum_sum split [of 0 0]] assms(2) by (simp add: unat_u16_of)
  then have "ones_eq (le_sum xs + le_sum ys + unat (NOT ?s)) (unat ?s + unat (NOT ?s))"
    by (rule ones_eq_add [OF ones_eq_sym ones_eq_refl])
  moreover have "unat ?s + unat (NOT ?s) = 65535"
    using unat_u16_less [of ?s] unat_not_u16 [of ?s] by linarith
  ultimately show "ones_eq (le_sum (xs @ le16 (inet_chksum addr (xs @ [0, 0] @ ys)) @ ys)) 65535"
    using ones_eq_trans [OF split [of a b]] by (simp add: inet_chksum_def v le16_def)
qed

lemma inet_chksum_rfc: "length bs \<le> 0x20000 \<Longrightarrow> inet_chksum addr bs = NOT (lwip_htons (rfc1071_sum bs))"
  unfolding inet_chksum_def by (subst rfc1071I [OF lwip_standard_chksum_sum]) simp_all

text \<open>The checksum over a part of a chain, and the one without a pseudo header.\<close>

lemma inet_chksum_pseudo_partial_rfc:
  assumes "chain_wf p" and "n < 0x7fff"
  shows "inet_chksum_pseudo_partial adr p proto proto_len n src dest =
    Ok (NOT (lwip_htons (rfc1071_sum (pseudo_header src dest proto proto_len @ take n (chain_data p)))))"
proof -
  obtain x where x: "chk_chain_partial adr p n False (chk_addrs src dest) = Ok x" "unat (chk_unswap x) \<le> 65535"
    "ones_eq (unat (chk_unswap x)) (unat (chk_addrs src dest) + le_sum (take n (chain_data p)))"
    using chk_chain_partial_sum [OF assms(1) chk_addrs_sum(1) assms(2), of adr False src dest] by auto
  have "ones_eq (unat (chk_unswap x)) (le_sum (le32 src @ le32 dest) + le_sum (take n (chain_data p)))"
    by (rule ones_eq_trans [OF x(3) ones_eq_add [OF chk_addrs_sum(2) ones_eq_refl]])
  from chk_pseudo_end_sum [OF x(2) this] x(1) show ?thesis
    by (simp add: inet_chksum_pseudo_partial_def inet_cksum_pseudo_partial_base_def)
qed

lemma inet_chksum_pbuf_rfc:
  assumes "chain_wf p"
  shows "inet_chksum_pbuf adr p = NOT (lwip_htons (rfc1071_sum (chain_data p)))"
proof -
  let ?x = "chk_unswap (chk_chain adr p False 0)"
  have "unat ?x \<le> 65535" "ones_eq (unat ?x) (le_sum (chain_data p))" using chk_chain_sum [OF assms, of 0 adr False] by simp_all
  then have "ones_eq (unat (ucast ?x :: u16)) (le_sum (chain_data p))" by (simp only: unat_ucast_to_u16)
  from rfc1071I [OF this] show ?thesis by (simp only: inet_chksum_pbuf_def ucast_not_low)
qed

text \<open>
  C24: all three versions of \<^verbatim>\<open>lwip_standard_chksum\<close> compute the one's complement sum of RFC 1071 over the
  data, read as 16-bit numbers in network order with a zero byte added at an odd end, and store it
  in network order; the address of the data makes no difference.
\<close>

theorem chksum_versions_agree:
  assumes "length bs < 0x10000"
  shows "lwip_standard_chksum addr bs = lwip_htons (rfc1071_sum bs) \<and>
    lwip_standard_chksum_1 bs = lwip_htons (rfc1071_sum bs) \<and> lwip_standard_chksum_3 addr bs = lwip_htons (rfc1071_sum bs)"
  using assms rfc1071I [OF lwip_standard_chksum_sum [of bs addr]] rfc1071I [OF lwip_standard_chksum_1_sum [of bs]]
    rfc1071I [OF lwip_standard_chksum_3_sum [of bs addr]] by simp

theorem chksum_versions_agree_witness:
  "lwip_standard_chksum 3 [0x45, 0, 0x12] = 0x0057 \<and> lwip_standard_chksum_1 [0x45, 0, 0x12] = 0x0057 \<and>
   lwip_standard_chksum_3 7 [0x45, 0, 0x12] = 0x0057"
proof -
  have "lwip_htons (rfc1071_sum [0x45, 0, 0x12]) = 0x0057"
    by (simp add: rfc1071_sum_def ones_sum_def lwip_htons_def)
  then show ?thesis
    using chksum_versions_agree [of "[0x45, 0, 0x12]" 3] chksum_versions_agree [of "[0x45, 0, 0x12]" 7] by simp
qed

lemma inet_chksum_pseudo_data:
  assumes "chain_wf p"
  shows "inet_chksum_pseudo adr p proto proto_len src dest =
    NOT (lwip_htons (rfc1071_sum (pseudo_header src dest proto proto_len @ chain_data p)))"
proof -
  let ?x = "chk_unswap (chk_chain adr p False (chk_addrs src dest))"
  have c: "unat ?x \<le> 65535" "ones_eq (unat ?x) (unat (chk_addrs src dest) + le_sum (chain_data p))"
    using chk_chain_sum [OF assms chk_addrs_sum(1), of adr False src dest] by simp_all
  have "ones_eq (unat ?x) (le_sum (le32 src @ le32 dest) + le_sum (chain_data p))"
    by (rule ones_eq_trans [OF c(2) ones_eq_add [OF chk_addrs_sum(2) ones_eq_refl]])
  from chk_pseudo_end_sum [OF c(1) this] show ?thesis by (simp add: inet_chksum_pseudo_def inet_cksum_pseudo_base_def)
qed

text \<open>
  C23: the checksum of UDP and TCP, computed pbuf by pbuf with its swaps for odd lengths, is the
  complement of the sum of RFC 1071 over the pseudo header followed by the bytes of the packet,
  however the packet is cut into pbufs and wherever they lie.
\<close>

theorem inet_chksum_pseudo_rfc:
  assumes "chain_wf p"
  shows "inet_chksum_pseudo adr p proto proto_len src dest =
    NOT (lwip_htons (rfc1071_sum (pseudo_header src dest proto proto_len @ chain_data p)))"
  by (rule inet_chksum_pseudo_data [OF assms])

theorem inet_chksum_pseudo_rfc_witness:
  "inet_chksum_pseudo (\<lambda>q. pb_len q) demo_chain 17 5 (u32_of 10 0 0 2) (u32_of 10 0 0 1) =
     NOT (lwip_htons (rfc1071_sum [10, 0, 0, 2, 10, 0, 0, 1, 0, 17, 0, 5, 1, 2, 3, 4, 5]))"
proof -
  have "le16 5 = [5, 0]" by (simp add: le16_def byte_of_def)
  then show ?thesis
    using inet_chksum_pseudo_rfc [of demo_chain "\<lambda>q. pb_len q" 17 5 "u32_of 10 0 0 2" "u32_of 10 0 0 1"]
    by (simp add: pseudo_header_def le32_def)
qed

text \<open>
  A header whose checksum field, at an even offset, is filled with the checksum computed while the
  field was zero passes the check of the receiver, which sums up everything and expects zero.
\<close>

lemma inet_chksum_verifies:
  assumes "even (length xs)" and "length xs + 2 + length ys \<le> 0x10000"
  shows "inet_chksum addr' (xs @ le16 (inet_chksum addr (xs @ [0, 0] @ ys)) @ ys) = 0"
  by (rule inet_chksum_field [OF assms])

end
