(* ===== verification/Netif.thy ===== *)
theory Netif
  imports Lwip_Addr
begin

text \<open>
  Network interfaces (\<^verbatim>\<open>lwip/src/core/netif.c\<close>) and the choice of one for a destination
  (\<^verbatim>\<open>ip_route\<close> of \<^verbatim>\<open>ip4.c\<close>). Interfaces are objects named by numbers, chained through their
  \<^verbatim>\<open>next\<close> fields from \<^verbatim>\<open>netif_list\<close>; the loops follow the pointers and have no result when the
  chain is cyclic. IPv6, DHCP, ARP, IGMP, SNMP, the loop interface and the status callbacks are
  switched off in \<^verbatim>\<open>lwipopts.h\<close>.
\<close>

subsection \<open>State\<close>

text \<open>\<open>'s\<close> is the type of the device state, \<open>'o\<close> that of output functions.\<close>

record ('s, 'o) netif_obj = netif +
  nif_next :: "nat option"
  nif_num :: u8
  nif_state :: "'s option"
  nif_output :: "'o option"

text \<open>
  The globals of the file, with the local addresses of the TCP connections and listeners, which
  \<^verbatim>\<open>netif_set_ipaddr\<close> goes through.
\<close>

record ('s, 'o) netifs =
  nf_obj :: "nat \<Rightarrow> ('s, 'o) netif_obj"
  netif_list :: "nat option"
  netif_default :: "nat option"
  netif_num :: u8
  nf_active :: "(nat \<times> ip_addr) list"
  nf_listen :: "(nat \<times> ip_addr) list"

abbreviation (input) NETIF_FLAG_LINK_UP :: u8 where "NETIF_FLAG_LINK_UP \<equiv> 0x10"

definition upd_netif ::
    "nat \<Rightarrow> (('s, 'o) netif_obj \<Rightarrow> ('s, 'o) netif_obj) \<Rightarrow> ('s, 'o) netifs \<Rightarrow> ('s, 'o) netifs" where
  "upd_netif n f st = st\<lparr>nf_obj := (nf_obj st)(n := f (nf_obj st n))\<rparr>"

definition netif_is_up :: "('s, 'o) netifs \<Rightarrow> nat \<Rightarrow> bool" where
  "netif_is_up st n \<longleftrightarrow> nif_flags (nf_obj st n) AND NETIF_FLAG_UP \<noteq> 0"

subsection \<open>Addresses\<close>

text \<open>A NULL address is stored as \<open>0.0.0.0\<close> (\<^verbatim>\<open>ip_addr_set\<close>).\<close>

definition netif_set_ipaddr :: "nat \<Rightarrow> ip_addr option \<Rightarrow> ('s, 'o) netifs \<Rightarrow> ('s, 'o) netifs" where
  "netif_set_ipaddr n ipaddr st =
     (let old = nif_ip_addr (nf_obj st n);
          st1 = (case ipaddr of
                   Some a \<Rightarrow>
                     if a \<noteq> old
                     then st\<lparr>nf_active := filter (\<lambda>(_, local). local \<noteq> old) (nf_active st),
                             nf_listen := map (\<lambda>(p, local). (p, if local \<noteq> IPADDR_ANY \<and> local = old then a else local))
                                            (nf_listen st)\<rparr>
                     else st
                 | None \<Rightarrow> st)
      in upd_netif n (\<lambda>k. k\<lparr>nif_ip_addr := (case ipaddr of Some a \<Rightarrow> a | None \<Rightarrow> 0)\<rparr>) st1)"

definition netif_set_gw :: "nat \<Rightarrow> ip_addr option \<Rightarrow> ('s, 'o) netifs \<Rightarrow> ('s, 'o) netifs" where
  "netif_set_gw n gw = upd_netif n (\<lambda>k. k\<lparr>nif_gw := (case gw of Some a \<Rightarrow> a | None \<Rightarrow> 0)\<rparr>)"

definition netif_set_netmask :: "nat \<Rightarrow> ip_addr option \<Rightarrow> ('s, 'o) netifs \<Rightarrow> ('s, 'o) netifs" where
  "netif_set_netmask n netmask = upd_netif n (\<lambda>k. k\<lparr>nif_netmask := (case netmask of Some a \<Rightarrow> a | None \<Rightarrow> 0)\<rparr>)"

definition netif_set_addr ::
    "nat \<Rightarrow> ip_addr option \<Rightarrow> ip_addr option \<Rightarrow> ip_addr option \<Rightarrow> ('s, 'o) netifs \<Rightarrow> ('s, 'o) netifs" where
  "netif_set_addr n ipaddr netmask gw st =
     netif_set_gw n gw (netif_set_netmask n netmask (netif_set_ipaddr n ipaddr st))"

definition netif_set_default :: "nat option \<Rightarrow> ('s, 'o) netifs \<Rightarrow> ('s, 'o) netifs" where
  "netif_set_default n st = st\<lparr>netif_default := n\<rparr>"

definition netif_set_up :: "nat \<Rightarrow> ('s, 'o) netifs \<Rightarrow> ('s, 'o) netifs" where
  "netif_set_up n st =
     (if \<not> netif_is_up st n then upd_netif n (\<lambda>k. k\<lparr>nif_flags := nif_flags k OR NETIF_FLAG_UP\<rparr>) st else st)"

definition netif_set_down :: "nat \<Rightarrow> ('s, 'o) netifs \<Rightarrow> ('s, 'o) netifs" where
  "netif_set_down n st =
     (if netif_is_up st n then upd_netif n (\<lambda>k. k\<lparr>nif_flags := nif_flags k AND NOT NETIF_FLAG_UP\<rparr>) st else st)"

definition netif_set_link_up :: "nat \<Rightarrow> ('s, 'o) netifs \<Rightarrow> ('s, 'o) netifs" where
  "netif_set_link_up n st =
     (if nif_flags (nf_obj st n) AND NETIF_FLAG_LINK_UP = 0
      then upd_netif n (\<lambda>k. k\<lparr>nif_flags := nif_flags k OR NETIF_FLAG_LINK_UP\<rparr>) st else st)"

definition netif_set_link_down :: "nat \<Rightarrow> ('s, 'o) netifs \<Rightarrow> ('s, 'o) netifs" where
  "netif_set_link_down n st =
     (if nif_flags (nf_obj st n) AND NETIF_FLAG_LINK_UP \<noteq> 0
      then upd_netif n (\<lambda>k. k\<lparr>nif_flags := nif_flags k AND NOT NETIF_FLAG_LINK_UP\<rparr>) st else st)"

subsection \<open>The list of interfaces\<close>

definition netif_add ::
    "nat \<Rightarrow> ip_addr option \<Rightarrow> ip_addr option \<Rightarrow> ip_addr option \<Rightarrow> 's option \<Rightarrow>
     (('s, 'o) netif_obj \<Rightarrow> err_t \<times> ('s, 'o) netif_obj) \<Rightarrow> ('s, 'o) netifs \<Rightarrow> nat option \<times> ('s, 'o) netifs" where
  "netif_add n ipaddr netmask gw state init st =
     (let st1 = upd_netif n (\<lambda>k. k\<lparr>nif_ip_addr := 0, nif_netmask := 0, nif_gw := 0, nif_flags := 0,
                                   nif_state := state, nif_num := netif_num st\<rparr>) st;
          st2 = netif_set_addr n ipaddr netmask gw (st1\<lparr>netif_num := netif_num st + 1\<rparr>);
          (err, k) = init (nf_obj st2 n);
          st3 = upd_netif n (\<lambda>_. k) st2
      in if err \<noteq> ERR_OK then (None, st3)
         else (Some n, (upd_netif n (\<lambda>k. k\<lparr>nif_next := netif_list st3\<rparr>) st3)\<lparr>netif_list := Some n\<rparr>))"

text \<open>The search for the interface before \<open>n\<close>; the flag tells whether there was one.\<close>

partial_function (option) netif_unlink ::
    "nat \<Rightarrow> nat option \<Rightarrow> ('s, 'o) netifs \<Rightarrow> (bool \<times> ('s, 'o) netifs) option" where
  "netif_unlink n t st =
     (case t of
        None \<Rightarrow> Some (False, st)
      | Some m \<Rightarrow>
          if nif_next (nf_obj st m) = Some n
          then Some (True, upd_netif m (\<lambda>k. k\<lparr>nif_next := nif_next (nf_obj st n)\<rparr>) st)
          else netif_unlink n (nif_next (nf_obj st m)) st)"

definition netif_remove :: "nat option \<Rightarrow> ('s, 'o) netifs \<Rightarrow> ('s, 'o) netifs option" where
  "netif_remove netif st =
     (case netif of
        None \<Rightarrow> Some st
      | Some n \<Rightarrow>
          let st1 = (if netif_is_up st n then netif_set_down n st else st) in
          map_option (\<lambda>(found, st2).
              if \<not> found then st2
              else if netif_default st2 = Some n then netif_set_default None st2 else st2)
            (if netif_list st1 = Some n then Some (True, st1\<lparr>netif_list := nif_next (nf_obj st1 n)\<rparr>)
             else netif_unlink n (netif_list st1) st1))"

text \<open>\<open>name\<close> is a C string with its NUL.\<close>

partial_function (option) netif_find_loop ::
    "u8 \<Rightarrow> u8 \<times> u8 \<Rightarrow> nat option \<Rightarrow> ('s, 'o) netifs \<Rightarrow> nat option option" where
  "netif_find_loop num nm t st =
     (case t of
        None \<Rightarrow> Some None
      | Some n \<Rightarrow>
          if num = nif_num (nf_obj st n) \<and> nm = nif_name (nf_obj st n) then Some (Some n)
          else netif_find_loop num nm (nif_next (nf_obj st n)) st)"

definition netif_find :: "bytes option \<Rightarrow> ('s, 'o) netifs \<Rightarrow> nat option option res" where
  "netif_find name st =
     (case name of
        None \<Rightarrow> Ok (Some None)
      | Some b \<Rightarrow>
          if length b < 3 then Stop Fault
          else Ok (netif_find_loop (b ! 2 - 48) (b ! 0, b ! 1) (netif_list st) st))"

partial_function (option) ip_route_loop :: "ip_addr \<Rightarrow> nat option \<Rightarrow> ('s, 'o) netifs \<Rightarrow> nat option option" where
  "ip_route_loop dest t st =
     (case t of
        None \<Rightarrow> Some None
      | Some n \<Rightarrow>
          if netif_is_up st n \<and> ip_addr_netcmp dest (nif_ip_addr (nf_obj st n)) (nif_netmask (nf_obj st n))
          then Some (Some n)
          else ip_route_loop dest (nif_next (nf_obj st n)) st)"

definition ip_route :: "ip_addr \<Rightarrow> ('s, 'o) netifs \<Rightarrow> nat option option" where
  "ip_route dest st =
     (case ip_route_loop dest (netif_list st) st of
        None \<Rightarrow> None
      | Some (Some n) \<Rightarrow> Some (Some n)
      | Some None \<Rightarrow>
          (case netif_default st of
             None \<Rightarrow> Some None
           | Some d \<Rightarrow> if netif_is_up st d then Some (Some d) else Some None))"

subsection \<open>The chain of interfaces\<close>

text \<open>The interfaces that are installed, in the order of the chain.\<close>

definition installed :: "('s, 'o) netifs \<Rightarrow> nat list \<Rightarrow> bool" where
  "installed st xs \<longleftrightarrow> linked (\<lambda>n. nif_next (nf_obj st n)) (netif_list st) xs \<and> distinct xs"

lemma upd_netif_simps [simp]:
  "nf_obj (upd_netif n f st) = (nf_obj st)(n := f (nf_obj st n))" "netif_list (upd_netif n f st) = netif_list st"
  "netif_default (upd_netif n f st) = netif_default st" "netif_num (upd_netif n f st) = netif_num st"
  by (simp_all add: upd_netif_def)

lemma linked_upd_netif:
  "n \<notin> set xs \<or> nif_next k = nif_next (nf_obj st n) \<Longrightarrow>
     linked (\<lambda>m. nif_next (((nf_obj st)(n := k)) m)) h xs = linked (\<lambda>m. nif_next (nf_obj st m)) h xs"
  by (rule linked_cong) auto

lemma netif_set_addr_simps [simp]:
  "netif_list (netif_set_addr n a m g st) = netif_list st" "netif_default (netif_set_addr n a m g st) = netif_default st"
  "nf_obj (netif_set_addr n a m g st) = (nf_obj st)(n := (nf_obj st n)
     \<lparr>nif_ip_addr := case_option 0 id a, nif_netmask := case_option 0 id m, nif_gw := case_option 0 id g\<rparr>)"
  by (auto simp: netif_set_addr_def netif_set_gw_def netif_set_netmask_def netif_set_ipaddr_def Let_def upd_netif_def
      split: option.split)

lemma netif_add_installed:
  assumes "installed st xs" and "n \<notin> set xs" and "netif_add n a m g s init st = (Some r, st')"
  shows "r = n \<and> installed st' (n # xs) \<and> netif_default st' = netif_default st"
  using assms linked_upd_netif [of n xs _ st "netif_list st"]
  by (auto simp: netif_add_def installed_def Let_def split: prod.splits if_splits)

lemma netif_unlink_simps [simp]:
  "netif_unlink n None st = Some (False, st)"
  "netif_unlink n (Some m) st =
     (if nif_next (nf_obj st m) = Some n
      then Some (True, upd_netif m (\<lambda>k. k\<lparr>nif_next := nif_next (nf_obj st n)\<rparr>) st)
      else netif_unlink n (nif_next (nf_obj st m)) st)"
  by (subst netif_unlink.simps, simp)+

lemma netif_find_loop_simps [simp]:
  "netif_find_loop num nm None st = Some None"
  "netif_find_loop num nm (Some n) st =
     (if num = nif_num (nf_obj st n) \<and> nm = nif_name (nf_obj st n) then Some (Some n)
      else netif_find_loop num nm (nif_next (nf_obj st n)) st)"
  by (subst netif_find_loop.simps, simp)+

lemma ip_route_loop_simps [simp]:
  "ip_route_loop dest None st = Some None"
  "ip_route_loop dest (Some n) st =
     (if netif_is_up st n \<and> ip_addr_netcmp dest (nif_ip_addr (nf_obj st n)) (nif_netmask (nf_obj st n))
      then Some (Some n) else ip_route_loop dest (nif_next (nf_obj st n)) st)"
  by (subst ip_route_loop.simps, simp)+

lemma netif_unlink_linked:
  assumes "linked (\<lambda>m. nif_next (nf_obj st m)) t xs" and "distinct xs" and "xs = [] \<or> hd xs \<noteq> n"
  shows "\<exists>st'. netif_unlink n t st = Some (n \<in> set xs, st') \<and>
    linked (\<lambda>m. nif_next (nf_obj st' m)) t (removeAll n xs) \<and>
    netif_list st' = netif_list st \<and> netif_default st' = netif_default st \<and>
    (\<forall>k. k \<notin> set xs \<longrightarrow> nf_obj st' k = nf_obj st k)"
  using assms
proof (induction xs arbitrary: t)
  case Nil
  then show ?case by simp
next
  case (Cons x xs)
  show ?case
  proof (cases "nif_next (nf_obj st x) = Some n")
    case True
    then obtain ys where ys: "xs = n # ys" using Cons.prems(1) by (cases xs) auto
    have "linked (\<lambda>m. nif_next (((nf_obj st)(x := (nf_obj st x)\<lparr>nif_next := nif_next (nf_obj st n)\<rparr>)) m))
        (nif_next (nf_obj st n)) ys"
      using Cons.prems ys by (subst linked_upd_netif) auto
    then show ?thesis
      using Cons.prems True ys by auto
  next
    case False
    have l: "linked (\<lambda>m. nif_next (nf_obj st m)) (nif_next (nf_obj st x)) xs" and x: "x \<noteq> n" "x \<notin> set xs" "t = Some x"
      using Cons.prems by simp_all
    have "xs = [] \<or> hd xs \<noteq> n" using l False by (cases xs) auto
    with Cons.IH [OF l] Cons.prems(2) obtain st' where st':
      "netif_unlink n (nif_next (nf_obj st x)) st = Some (n \<in> set xs, st')"
      "linked (\<lambda>m. nif_next (nf_obj st' m)) (nif_next (nf_obj st x)) (removeAll n xs)"
      "netif_list st' = netif_list st" "netif_default st' = netif_default st" "\<forall>k. k \<notin> set xs \<longrightarrow> nf_obj st' k = nf_obj st k"
      by auto
    then have "nf_obj st' x = nf_obj st x" using x(2) by simp
    with st' x False show ?thesis by (intro exI [of _ st']) simp
  qed
qed

lemma netif_set_down_frame [simp]:
  "netif_list (netif_set_down n st) = netif_list st" "netif_default (netif_set_down n st) = netif_default st"
  "nif_next (nf_obj (netif_set_down n st) k) = nif_next (nf_obj st k)"
  by (simp_all add: netif_set_down_def)

lemma netif_remove_installed:
  assumes "installed st xs"
  shows "\<exists>st'. netif_remove (Some n) st = Some st' \<and> installed st' (removeAll n xs) \<and>
    netif_default st' = (if n \<in> set xs \<and> netif_default st = Some n then None else netif_default st)"
proof -
  let ?st = "if netif_is_up st n then netif_set_down n st else st"
  have nx: "(\<lambda>m. nif_next (nf_obj ?st m)) = (\<lambda>m. nif_next (nf_obj st m))" "netif_list ?st = netif_list st"
    "netif_default ?st = netif_default st" by auto
  have l: "linked (\<lambda>m. nif_next (nf_obj ?st m)) (netif_list ?st) xs" "distinct xs"
    using assms unfolding installed_def nx by auto
  show ?thesis
  proof (cases "netif_list ?st = Some n")
    case True
    then obtain ys where "xs = n # ys" using l(1) by (cases xs) auto
    then show ?thesis using True l nx(3)
      by (auto simp: netif_remove_def Let_def installed_def netif_set_default_def)
  next
    case False
    then have "xs = [] \<or> hd xs \<noteq> n" using l(1) by (cases xs) auto
    from netif_unlink_linked [OF l this] obtain st' where st':
      "netif_unlink n (netif_list ?st) ?st = Some (n \<in> set xs, st')"
      "linked (\<lambda>m. nif_next (nf_obj st' m)) (netif_list ?st) (removeAll n xs)"
      "netif_list st' = netif_list ?st" "netif_default st' = netif_default ?st" by blast
    then show ?thesis using False l(2) nx(2,3)
      by (auto simp: netif_remove_def Let_def installed_def netif_set_default_def distinct_removeAll)
  qed
qed

text \<open>
  Routing as a table look-up: the first interface that is up and whose network holds the
  destination, else the default one if it is up.
\<close>

definition route_spec :: "ip_addr \<Rightarrow> ('s, 'o) netifs \<Rightarrow> nat list \<Rightarrow> nat option" where
  "route_spec dest st xs =
     (case List.find (\<lambda>n. netif_is_up st n \<and>
                 dest AND nif_netmask (nf_obj st n) = nif_ip_addr (nf_obj st n) AND nif_netmask (nf_obj st n)) xs of
        Some n \<Rightarrow> Some n
      | None \<Rightarrow> (case netif_default st of Some d \<Rightarrow> if netif_is_up st d then Some d else None | None \<Rightarrow> None))"

lemma ip_route_loop_linked:
  "linked (\<lambda>m. nif_next (nf_obj st m)) t xs \<Longrightarrow>
     ip_route_loop dest t st = Some (List.find (\<lambda>n. netif_is_up st n \<and>
       dest AND nif_netmask (nf_obj st n) = nif_ip_addr (nf_obj st n) AND nif_netmask (nf_obj st n)) xs)"
  by (induction xs arbitrary: t) (auto simp: ip_addr_netcmp_def)

lemma ip_route_installed: "installed st xs \<Longrightarrow> ip_route dest st = Some (route_spec dest st xs)"
  by (auto simp: ip_route_def route_spec_def installed_def ip_route_loop_linked split: option.split)

lemma netif_find_installed:
  assumes "installed st xs" and "3 \<le> length b"
  shows "netif_find (Some b) st = Ok (Some (List.find (\<lambda>n. nif_num (nf_obj st n) = b ! 2 - 48 \<and>
    nif_name (nf_obj st n) = (b ! 0, b ! 1)) xs))"
proof -
  have "linked (\<lambda>m. nif_next (nf_obj st m)) t xs \<Longrightarrow>
     netif_find_loop num nm t st = Some (List.find (\<lambda>n. nif_num (nf_obj st n) = num \<and> nif_name (nf_obj st n) = nm) xs)"
    for t num nm by (induction xs arbitrary: t) auto
  with assms show ?thesis by (simp add: netif_find_def installed_def)
qed

subsection \<open>Main properties\<close>

definition demo_netif :: "(nat, nat) netif_obj" where
  "demo_netif = \<lparr>nif_ip_addr = 0, nif_netmask = 0, nif_gw = 0, nif_mtu = 1500, nif_flags = 0, nif_name = (101, 116),
     nif_next = None, nif_num = 0, nif_state = None, nif_output = Some 0\<rparr>"

definition demo_netifs :: "(nat, nat) netifs" where
  "demo_netifs = \<lparr>nf_obj = (\<lambda>_. demo_netif)
       (4 := demo_netif\<lparr>nif_ip_addr := u32_of 10 1 0 1, nif_netmask := u32_of 255 255 0 0, nif_flags := 1, nif_next := Some 7\<rparr>,
        7 := demo_netif\<lparr>nif_ip_addr := u32_of 10 2 0 1, nif_netmask := u32_of 255 255 0 0, nif_flags := 1, nif_num := 1\<rparr>),
     netif_list = Some 4, netif_default = Some 7, netif_num = 2, nf_active = [], nf_listen = []\<rparr>"

text \<open>
  C32: \<^verbatim>\<open>ip_route\<close> on a proper chain of interfaces always returns, and returns the first interface
  that is up and whose network contains the destination, or else the default interface when that
  is up.
\<close>

theorem ip_route_correct:
  assumes "linked (\<lambda>n. nif_next (nf_obj st n)) (netif_list st) xs" and "distinct xs"
  shows "ip_route dest st = Some (route_spec dest st xs)"
  by (rule ip_route_installed) (use assms in \<open>simp add: installed_def\<close>)

theorem ip_route_correct_witness: "ip_route (u32_of 10 2 0 9) demo_netifs = Some (Some 7)"
  by (subst ip_route_correct [of _ "[4, 7]"])
    (simp_all add: demo_netifs_def demo_netif_def route_spec_def netif_is_up_def u32_of_def)

text \<open>
  Adding an interface that is not in the chain and removing it again succeeds, gives back the
  chain of before, and leaves no default route through the removed interface.
\<close>

lemma netif_add_remove:
  assumes "linked (\<lambda>n. nif_next (nf_obj st n)) (netif_list st) xs" and "distinct xs" and "n \<notin> set xs"
    and "\<And>k. fst (init k) = ERR_OK"
  shows "\<exists>st1 st2. netif_add n a m g s init st = (Some n, st1) \<and>
    netif_remove (Some n) (netif_set_default (Some n) st1) = Some st2 \<and>
    linked (\<lambda>n. nif_next (nf_obj st2 n)) (netif_list st2) xs \<and> netif_default st2 = None"
proof -
  obtain st1 where st1: "netif_add n a m g s init st = (Some n, st1)"
    using assms(4) by (simp add: netif_add_def Let_def split_def)
  have "installed st1 (n # xs)" using netif_add_installed [OF _ assms(3) st1] assms(1,2) by (simp add: installed_def)
  then have "installed (netif_set_default (Some n) st1) (n # xs)" by (simp add: installed_def netif_set_default_def)
  from netif_remove_installed [OF this, of n] st1 assms(3) show ?thesis
    by (auto simp: installed_def netif_set_default_def)
qed

end
