(* ===== verification/Ip_Base.thy ===== *)
theory Ip_Base
  imports Chksum Netif
begin

text \<open>
  What the IPv4 theories share: the layout of \<^verbatim>\<open>struct ip_hdr\<close> (\<^verbatim>\<open>lwip/src/include/ipv4/lwip/ip4.h\<close>)
  with its access macros, the globals of \<^verbatim>\<open>ip4.c\<close>, \<^verbatim>\<open>ip_frag.c\<close>, \<^verbatim>\<open>udp.c\<close> and the counters of
  \<^verbatim>\<open>stats.h\<close>, and the calls that leave these files. An allocation and an output function of an
  interface are answered by the environment; the state records every packet given to an interface
  and every packet given to an upper layer.
\<close>

unbundle bit_operations_syntax

subsection \<open>The IP header\<close>

text \<open>A header is its 20 bytes; 16-bit fields are read as they are in memory.\<close>

abbreviation (input) IP_HLEN :: nat where "IP_HLEN \<equiv> 20"
abbreviation (input) IP_MF :: u16 where "IP_MF \<equiv> 0x2000"
abbreviation (input) IP_OFFMASK :: u16 where "IP_OFFMASK \<equiv> 0x1fff"
abbreviation (input) IP_PROTO_ICMP :: u8 where "IP_PROTO_ICMP \<equiv> 1"
abbreviation (input) IP_PROTO_TCP :: u8 where "IP_PROTO_TCP \<equiv> 6"
abbreviation (input) IP_PROTO_UDP :: u8 where "IP_PROTO_UDP \<equiv> 17"

definition IPH_V :: "bytes \<Rightarrow> u8" where "IPH_V h = drop_bit 4 (h ! 0)"
definition IPH_HL :: "bytes \<Rightarrow> u8" where "IPH_HL h = h ! 0 AND 0x0f"
definition IPH_LEN :: "bytes \<Rightarrow> u16" where "IPH_LEN h = u16_of (h ! 2) (h ! 3)"
definition IPH_ID :: "bytes \<Rightarrow> u16" where "IPH_ID h = u16_of (h ! 4) (h ! 5)"
definition IPH_OFFSET :: "bytes \<Rightarrow> u16" where "IPH_OFFSET h = u16_of (h ! 6) (h ! 7)"
definition IPH_PROTO :: "bytes \<Rightarrow> u8" where "IPH_PROTO h = h ! 9"
definition iph_src :: "bytes \<Rightarrow> ip_addr" where "iph_src h = u32_of (h ! 12) (h ! 13) (h ! 14) (h ! 15)"
definition iph_dest :: "bytes \<Rightarrow> ip_addr" where "iph_dest h = u32_of (h ! 16) (h ! 17) (h ! 18) (h ! 19)"

definition IPH_VHL_SET :: "u8 \<Rightarrow> u8 \<Rightarrow> bytes \<Rightarrow> bytes" where "IPH_VHL_SET v hl = buf_put 0 [push_bit 4 v OR hl]"
definition IPH_TOS_SET :: "u8 \<Rightarrow> bytes \<Rightarrow> bytes" where "IPH_TOS_SET tos = buf_put 1 [tos]"
definition IPH_LEN_SET :: "u16 \<Rightarrow> bytes \<Rightarrow> bytes" where "IPH_LEN_SET len = buf_put 2 (le16 len)"
definition IPH_ID_SET :: "u16 \<Rightarrow> bytes \<Rightarrow> bytes" where "IPH_ID_SET ipid = buf_put 4 (le16 ipid)"
definition IPH_OFFSET_SET :: "u16 \<Rightarrow> bytes \<Rightarrow> bytes" where "IPH_OFFSET_SET off = buf_put 6 (le16 off)"
definition IPH_TTL_SET :: "u8 \<Rightarrow> bytes \<Rightarrow> bytes" where "IPH_TTL_SET ttl = buf_put 8 [ttl]"
definition IPH_PROTO_SET :: "u8 \<Rightarrow> bytes \<Rightarrow> bytes" where "IPH_PROTO_SET proto = buf_put 9 [proto]"
definition IPH_CHKSUM_SET :: "u16 \<Rightarrow> bytes \<Rightarrow> bytes" where "IPH_CHKSUM_SET chk = buf_put 10 (le16 chk)"
definition iph_src_set :: "ip_addr \<Rightarrow> bytes \<Rightarrow> bytes" where "iph_src_set a = buf_put 12 (le32 a)"
definition iph_dest_set :: "ip_addr \<Rightarrow> bytes \<Rightarrow> bytes" where "iph_dest_set a = buf_put 16 (le32 a)"

definition ip_addr_ismulticast :: "ip_addr \<Rightarrow> bool" where
  "ip_addr_ismulticast a \<longleftrightarrow> a AND 0xf0 = 0xe0"

text \<open>The header at the payload pointer of a chain, within the memory of its first pbuf.\<close>

definition rd_iphdr :: "chain \<Rightarrow> bytes res" where
  "rd_iphdr c = (case c of [] \<Rightarrow> Stop Fault | p # _ \<Rightarrow> rdn (pb_mem p) (pb_off p) IP_HLEN)"

text \<open>Writing bytes at an offset from the payload pointer, within the memory of the first pbuf.\<close>

definition wr_hdr :: "int \<Rightarrow> bytes \<Rightarrow> chain \<Rightarrow> chain res" where
  "wr_hdr off d c =
     (case c of
        [] \<Rightarrow> Stop Fault
      | p # ps \<Rightarrow>
          let i = int (pb_off p) + off
          in if 0 \<le> i \<and> nat i + length d \<le> length (pb_mem p)
             then Ok (p\<lparr>pb_mem := buf_put (nat i) d (pb_mem p)\<rparr> # ps) else Stop Fault)"

subsection \<open>Globals\<close>

datatype stat_layer = S_ip | S_ip_frag | S_icmp | S_udp

datatype stat_proto =
  S_xmit | S_recv | S_fw | S_drop | S_chkerr | S_lenerr | S_memerr | S_rterr | S_proterr | S_opterr | S_err | S_cachehit

text \<open>
  A datagram being reassembled. The queue holds its fragments in the order of their offsets; the
  \<^verbatim>\<open>struct ip_reass_helper\<close> that the code keeps in the first bytes of a fragment's IP header is the
  pair \<open>fr_start\<close>, \<open>fr_end\<close> beside the fragment, its \<^verbatim>\<open>next_pbuf\<close> the next element. The bytes it
  overwrites are written again or hidden before anything reads them.
\<close>

record frag =
  fr_p :: chain
  fr_start :: nat
  fr_end :: nat

record reassdata =
  ra_p :: "frag list"
  ra_iphdr :: bytes
  ra_datagram_len :: nat
  ra_lastfrag :: bool
  ra_timer :: nat

record udp_pcb =
  up_local_ip :: ip_addr
  up_remote_ip :: ip_addr
  up_local_port :: u16
  up_remote_port :: u16
  up_flags :: u8
  up_tos :: u8
  up_ttl :: u8
  up_recv :: bool

text \<open>What ip_input hands over to TCP and what udp_input hands to a receive function.\<close>

datatype delivery =
    To_tcp (dl_chain: chain) (dl_src: ip_addr) (dl_dest: ip_addr)
  | To_udp (dl_pcb: nat) (dl_chain: chain) (dl_src: ip_addr) (dl_port: u16)

record stack =
  ip_id :: u16
  reassdatagrams :: "reassdata list"
  ip_reass_pbufcount :: nat
  udp_pcbs :: "nat list"
  udp_obj :: "nat \<Rightarrow> udp_pcb"
  udp_port :: u16
  lwip_stats :: "stat_layer \<Rightarrow> stat_proto \<Rightarrow> u16"
  nw_sent :: "(nat \<times> chain \<times> ip_addr) list"
  nw_up :: "delivery list"
  nw_calls :: nat

definition STATS_INC :: "stat_layer \<Rightarrow> stat_proto \<Rightarrow> stack \<Rightarrow> stack" where
  "STATS_INC l k st = st\<lparr>lwip_stats := (lwip_stats st)(l := (lwip_stats st l)(k := lwip_stats st l k + 1))\<rparr>"

subsection \<open>Calls that leave the stack\<close>

text \<open>The answers of the environment to the \<open>n\<close>-th call, and the addresses at which payloads lie.\<close>

record ip_env =
  ie_alloc :: "nat \<Rightarrow> alloc_env"
  ie_memp :: "nat \<Rightarrow> bool"
  ie_out :: "nat \<Rightarrow> err_t"
  ie_adr :: "pbuf \<Rightarrow> nat"

definition called :: "stack \<Rightarrow> stack" where
  "called st = st\<lparr>nw_calls := Suc (nw_calls st)\<rparr>"

definition nw_alloc :: "ip_env \<Rightarrow> pbuf_layer \<Rightarrow> nat \<Rightarrow> pbuf_type \<Rightarrow> stack \<Rightarrow> (chain option \<times> stack) res" where
  "nw_alloc e l n t st = res_bind (pbuf_alloc (ie_alloc e (nw_calls st)) l n t) (\<lambda>c. Ok (c, called st))"

text \<open>\<^verbatim>\<open>netif->output(netif, p, dest)\<close>.\<close>

definition nw_output :: "ip_env \<Rightarrow> ('s, 'o) netifs \<Rightarrow> nat \<Rightarrow> chain \<Rightarrow> ip_addr \<Rightarrow> stack \<Rightarrow> (err_t \<times> stack) res" where
  "nw_output e nf n p dest st =
     (if nif_output (nf_obj nf n) = None then Stop Fault
      else Ok (ie_out e (nw_calls st), called (st\<lparr>nw_sent := nw_sent st @ [(n, p, dest)]\<rparr>)))"

text \<open>Freeing a packet that is dropped: the counters are adjusted after it.\<close>

definition nw_free :: "chain \<Rightarrow> stack \<Rightarrow> stack res" where
  "nw_free c st = res_bind (pbuf_free c) (\<lambda>_. Ok st)"

subsection \<open>Headers field by field\<close>

definition mk_iphdr :: "u8 \<Rightarrow> u8 \<Rightarrow> u16 \<Rightarrow> u16 \<Rightarrow> u16 \<Rightarrow> u8 \<Rightarrow> u8 \<Rightarrow> u16 \<Rightarrow> ip_addr \<Rightarrow> ip_addr \<Rightarrow> bytes" where
  "mk_iphdr vhl tos len ipid off ttl proto chk src dest =
     ([vhl, tos] @ le16 len @ le16 ipid @ le16 off @ [ttl, proto]) @ le16 chk @ le32 src @ le32 dest"

lemma length_mk_iphdr [simp]: "length (mk_iphdr vhl tos len ipid off ttl proto chk src dest) = 20"
  by (simp add: mk_iphdr_def le16_def le32_def)

lemmas iph_get_defs = IPH_V_def IPH_HL_def IPH_LEN_def IPH_ID_def IPH_OFFSET_def IPH_PROTO_def iph_src_def iph_dest_def

lemmas iph_set_defs = IPH_VHL_SET_def IPH_TOS_SET_def IPH_LEN_SET_def IPH_ID_SET_def IPH_OFFSET_SET_def IPH_TTL_SET_def
  IPH_PROTO_SET_def IPH_CHKSUM_SET_def iph_src_set_def iph_dest_set_def

lemma iph_get_mk [simp]:
  "IPH_V (mk_iphdr vhl tos len ipid off ttl proto chk src dest) = drop_bit 4 vhl"
  "IPH_HL (mk_iphdr vhl tos len ipid off ttl proto chk src dest) = vhl AND 0x0f"
  "IPH_LEN (mk_iphdr vhl tos len ipid off ttl proto chk src dest) = len"
  "IPH_ID (mk_iphdr vhl tos len ipid off ttl proto chk src dest) = ipid"
  "IPH_OFFSET (mk_iphdr vhl tos len ipid off ttl proto chk src dest) = off"
  "IPH_PROTO (mk_iphdr vhl tos len ipid off ttl proto chk src dest) = proto"
  "iph_src (mk_iphdr vhl tos len ipid off ttl proto chk src dest) = src"
  "iph_dest (mk_iphdr vhl tos len ipid off ttl proto chk src dest) = dest"
  by (simp_all add: iph_get_defs mk_iphdr_def le16_def le32_def)

lemma iph_set_mk [simp]:
  "IPH_VHL_SET v hl (mk_iphdr vhl tos len ipid off ttl proto chk src dest) =
     mk_iphdr (push_bit 4 v OR hl) tos len ipid off ttl proto chk src dest"
  "IPH_TOS_SET tos' (mk_iphdr vhl tos len ipid off ttl proto chk src dest) = mk_iphdr vhl tos' len ipid off ttl proto chk src dest"
  "IPH_LEN_SET len' (mk_iphdr vhl tos len ipid off ttl proto chk src dest) = mk_iphdr vhl tos len' ipid off ttl proto chk src dest"
  "IPH_ID_SET ipid' (mk_iphdr vhl tos len ipid off ttl proto chk src dest) = mk_iphdr vhl tos len ipid' off ttl proto chk src dest"
  "IPH_OFFSET_SET off' (mk_iphdr vhl tos len ipid off ttl proto chk src dest) = mk_iphdr vhl tos len ipid off' ttl proto chk src dest"
  "IPH_TTL_SET ttl' (mk_iphdr vhl tos len ipid off ttl proto chk src dest) = mk_iphdr vhl tos len ipid off ttl' proto chk src dest"
  "IPH_PROTO_SET proto' (mk_iphdr vhl tos len ipid off ttl proto chk src dest) = mk_iphdr vhl tos len ipid off ttl proto' chk src dest"
  "IPH_CHKSUM_SET chk' (mk_iphdr vhl tos len ipid off ttl proto chk src dest) = mk_iphdr vhl tos len ipid off ttl proto chk' src dest"
  "iph_src_set src' (mk_iphdr vhl tos len ipid off ttl proto chk src dest) = mk_iphdr vhl tos len ipid off ttl proto chk src' dest"
  "iph_dest_set dest' (mk_iphdr vhl tos len ipid off ttl proto chk src dest) = mk_iphdr vhl tos len ipid off ttl proto chk src dest'"
  by (simp_all add: iph_set_defs mk_iphdr_def le16_def le32_def buf_put_def)

lemma iphdr_cases:
  assumes "length h = 20"
  obtains vhl tos len ipid off ttl proto chk src dest where "h = mk_iphdr vhl tos len ipid off ttl proto chk src dest"
proof -
  have c: "\<And>n xs. length xs = Suc n \<Longrightarrow> \<exists>y ys. xs = y # ys \<and> length (ys :: bytes) = n" by (case_tac xs) simp_all
  have "length h = Suc (Suc (Suc (Suc (Suc (Suc (Suc (Suc (Suc (Suc (Suc (Suc (Suc (Suc (Suc (Suc (Suc (Suc (Suc (Suc 0)))))))))))))))))))"
    using assms by simp
  then obtain a0 a1 a2 a3 a4 a5 a6 a7 a8 a9 b0 b1 b2 b3 b4 b5 b6 b7 b8 b9
    where "h = [a0, a1, a2, a3, a4, a5, a6, a7, a8, a9, b0, b1, b2, b3, b4, b5, b6, b7, b8, b9]"
    by (auto dest!: c)
  then have "h = mk_iphdr a0 a1 (u16_of a2 a3) (u16_of a4 a5) (u16_of a6 a7) a8 a9 (u16_of b0 b1)
      (u32_of b2 b3 b4 b5) (u32_of b6 b7 b8 b9)"
    by (simp add: mk_iphdr_def le16_def le32_def)
  then show thesis by (rule that)
qed

text \<open>A header whose checksum field was filled in with the checksum of the rest sums up to zero.\<close>

definition iph_sum_ok :: "bytes \<Rightarrow> bool" where
  "iph_sum_ok h \<longleftrightarrow> (\<forall>addr. inet_chksum addr h = 0)"

lemma iph_chksum_ok:
  "iph_sum_ok (mk_iphdr vhl tos len ipid off ttl proto
     (inet_chksum addr (mk_iphdr vhl tos len ipid off ttl proto 0 src dest)) src dest)"
proof -
  have z: "le16 0 = [0, 0]" by (simp add: le16_def byte_of_def)
  have "inet_chksum addr' (([vhl, tos] @ le16 len @ le16 ipid @ le16 off @ [ttl, proto]) @
      le16 (inet_chksum addr (([vhl, tos] @ le16 len @ le16 ipid @ le16 off @ [ttl, proto]) @ [0, 0] @ le32 src @ le32 dest)) @
      le32 src @ le32 dest) = 0" for addr'
    by (rule inet_chksum_field) (simp_all add: le16_def le32_def)
  then show ?thesis by (simp only: iph_sum_ok_def mk_iphdr_def z) blast
qed

end
