(* ===== verification/Ip_Frag.thy ===== *)
theory Ip_Frag
  imports Ip_Base
begin

text \<open>
  Cutting a datagram into fragments: \<^verbatim>\<open>ip_frag\<close> of \<^verbatim>\<open>lwip/src/core/ipv4/ip_frag.c\<close>, in the
  configuration without a static buffer. A fragment is a header of its own followed by pbufs that
  point into the datagram; the loop moves the payload pointers of the datagram itself. The loop
  over the fragments need not end, so it is a partial function. The lemmas show that for a
  reasonable MTU it ends and sends exactly the fragments of RFC 791, in order.
\<close>

unbundle bit_operations_syntax

subsection \<open>The code\<close>

text \<open>
  The free function of a pbuf that refers to the \<open>i\<close>-th pbuf of the datagram: its reference is
  given back (\<^verbatim>\<open>ipfrag_free_pbuf_custom\<close>).
\<close>

definition ipfrag_free_pbuf_custom :: "nat \<Rightarrow> chain \<Rightarrow> chain res" where
  "ipfrag_free_pbuf_custom i c = res_bind (pbuf_free (drop i c)) (\<lambda>(n, r). Ok (take i c @ r))"

text \<open>\<^verbatim>\<open>pbuf_free(rambuf)\<close>, where \<open>held\<close> are the positions its pbufs refer to.\<close>

definition frag_free :: "chain \<Rightarrow> nat list \<Rightarrow> chain \<Rightarrow> chain res" where
  "frag_free rambuf held c = res_bind (pbuf_free rambuf) (\<lambda>_. res_fold ipfrag_free_pbuf_custom held c)"

text \<open>
  The loop \<^verbatim>\<open>while (left_to_copy)\<close>. The datagram is split at the pbuf the pointer \<open>p\<close> is at into
  \<open>past\<close> and \<open>p\<close>; the result has no fragment when an allocation failed.
\<close>

fun frag_copy ::
    "ip_env \<Rightarrow> chain \<Rightarrow> nat \<Rightarrow> nat \<Rightarrow> nat list \<Rightarrow> chain \<Rightarrow> chain \<Rightarrow> stack \<Rightarrow>
     ((chain \<times> nat \<times> nat list) option \<times> chain \<times> chain \<times> stack) res" where
  "frag_copy e rambuf left_to_copy newpbuflen held past [] st =
     (if left_to_copy = 0 then Ok (Some (rambuf, newpbuflen, held), past, [], st) else Stop Fault)"
| "frag_copy e rambuf left_to_copy newpbuflen held past (q # qs) st =
     (if left_to_copy = 0 then Ok (Some (rambuf, newpbuflen, held), past, q # qs, st)
      else
        let nl = (if left_to_copy < pb_len q then left_to_copy else pb_len q)
        in if nl = 0 then frag_copy e rambuf left_to_copy nl held (past @ [q]) qs st
           else if \<not> ie_memp e (nw_calls st) then
             res_bind (frag_free rambuf held (past @ q # qs))
               (\<lambda>c. Ok (None, take (length past) c, drop (length past) c, called st))
           else
             (case pbuf_alloced_custom PBUF_RAW nl PBUF_REF (Some (drop (pb_off q) (pb_mem q))) nl of
                None \<Rightarrow>
                  res_bind (frag_free rambuf held (past @ q # qs))
                    (\<lambda>c. Ok (None, take (length past) c, drop (length past) c, called st))
              | Some newpbuf \<Rightarrow>
                  let q' = q\<lparr>pb_ref := u16_add (pb_ref q) 1\<rparr>; held' = held @ [length past]
                  in res_bind (pbuf_cat rambuf newpbuf)
                       (\<lambda>rambuf'.
                         if left_to_copy - nl \<noteq> 0
                         then frag_copy e rambuf' (left_to_copy - nl) nl held' (past @ [q']) qs (called st)
                         else Ok (Some (rambuf', nl, held'), past, q' # qs, called st))))"

text \<open>The variables of the outer loop.\<close>

record frag_vars =
  fv_left :: nat
  fv_ofo :: u16
  fv_poff :: nat
  fv_newpbuflen :: nat
  fv_past :: chain
  fv_p :: chain
  fv_st :: stack

text \<open>\<^verbatim>\<open>(mtu - IP_HLEN) / 8\<close>, an \<^verbatim>\<open>int\<close> division stored in a \<^verbatim>\<open>u16_t\<close>.\<close>

definition frag_nfb :: "nat \<Rightarrow> nat" where
  "frag_nfb mtu = (if mtu \<ge> IP_HLEN then (mtu - IP_HLEN) div 8 else (65536 - (IP_HLEN - mtu) div 8) mod 65536)"

definition frag_hdr :: "nat \<Rightarrow> u16 \<Rightarrow> nat \<Rightarrow> bytes \<Rightarrow> bytes" where
  "frag_hdr addr tmp cop h =
     (let h' = IPH_CHKSUM_SET 0 (IPH_LEN_SET (lwip_htons (of_nat (cop + IP_HLEN))) (IPH_OFFSET_SET (lwip_htons tmp) h))
      in IPH_CHKSUM_SET (inet_chksum addr h') h')"

text \<open>One turn of the loop: the function returns, or the loop goes on.\<close>

definition ip_frag_step ::
    "ip_env \<Rightarrow> ('s, 'o) netifs \<Rightarrow> nat \<Rightarrow> ip_addr \<Rightarrow> bytes \<Rightarrow> nat \<Rightarrow> u16 \<Rightarrow> frag_vars \<Rightarrow>
     (err_t \<times> chain \<times> stack + frag_vars) res" where
  "ip_frag_step e nf n dest original_iphdr mtu omf v =
     (let is_last = (int (fv_left v) \<le> int mtu - int IP_HLEN);
          tmp = (if is_last then omf OR (IP_OFFMASK AND fv_ofo v) else (omf OR (IP_OFFMASK AND fv_ofo v)) OR IP_MF);
          cop = (if is_last then fv_left v else frag_nfb mtu * 8 mod 65536)
      in res_bind (nw_alloc e PBUF_LINK IP_HLEN PBUF_RAM (fv_st v)) (\<lambda>(rb, st1).
           case rb of
             None \<Rightarrow> Ok (Inl (ERR_MEM, fv_past v @ fv_p v, st1))
           | Some rambuf0 \<Rightarrow>
               (case fv_p v of
                  [] \<Rightarrow> Stop Fault
                | q # qs \<Rightarrow>
                    if \<not> pb_len q \<ge> IP_HLEN then Stop Assert
                    else
                      res_bind (wr_hdr 0 original_iphdr rambuf0) (\<lambda>rambuf1.
                      let q' = q\<lparr>pb_off := pb_off q + fv_poff v, pb_len := (pb_len q + 65536 - fv_poff v) mod 65536\<rparr>
                      in res_bind (frag_copy e rambuf1 cop (fv_newpbuflen v) [] (fv_past v) (q' # qs) st1)
                           (\<lambda>(r, past, p, st2).
                             case r of
                               None \<Rightarrow> Ok (Inl (ERR_MEM, past @ p, st2))
                             | Some (rambuf2, nl, held) \<Rightarrow>
                                 res_bind (wr_hdr 0 (frag_hdr (ie_adr e (hd rambuf2)) tmp cop original_iphdr) rambuf2) (\<lambda>rambuf3.
                                 res_bind (nw_output e nf n rambuf3 dest st2) (\<lambda>(_, st3).
                                 res_bind (frag_free rambuf3 held (past @ p)) (\<lambda>c.
                                   Ok (Inr \<lparr>fv_left = (fv_left v + 65536 - cop) mod 65536,
                                            fv_ofo = fv_ofo v + of_nat (frag_nfb mtu), fv_poff = nl, fv_newpbuflen = nl,
                                            fv_past = take (length past) c, fv_p = drop (length past) c,
                                            fv_st = STATS_INC S_ip_frag S_xmit st3\<rparr>)))))))))"

partial_function (option) ip_frag_loop ::
    "ip_env \<Rightarrow> ('s, 'o) netifs \<Rightarrow> nat \<Rightarrow> ip_addr \<Rightarrow> bytes \<Rightarrow> nat \<Rightarrow> u16 \<Rightarrow> frag_vars \<Rightarrow>
     (err_t \<times> chain \<times> stack) res option" where
  "ip_frag_loop e nf n dest original_iphdr mtu omf v =
     (if fv_left v = 0 then Some (Ok (ERR_OK, fv_past v @ fv_p v, fv_st v))
      else case ip_frag_step e nf n dest original_iphdr mtu omf v of
             Stop x \<Rightarrow> Some (Stop x)
           | Ok (Inl r) \<Rightarrow> Some (Ok r)
           | Ok (Inr v') \<Rightarrow> ip_frag_loop e nf n dest original_iphdr mtu omf v')"

definition ip_frag ::
    "ip_env \<Rightarrow> ('s, 'o) netifs \<Rightarrow> nat \<Rightarrow> chain \<Rightarrow> ip_addr \<Rightarrow> stack \<Rightarrow> (err_t \<times> chain \<times> stack) res option" where
  "ip_frag e nf n p dest st =
     (case rd_iphdr p of
        Stop x \<Rightarrow> Some (Stop x)
      | Ok h \<Rightarrow>
          let tmp = lwip_ntohs (IPH_OFFSET h)
          in ip_frag_loop e nf n dest h (unat (nif_mtu (nf_obj nf n))) (tmp AND IP_MF)
               \<lparr>fv_left = (pb_tot_len (hd p) + 65536 - IP_HLEN) mod 65536, fv_ofo = tmp AND IP_OFFMASK,
                fv_poff = IP_HLEN, fv_newpbuflen = 0, fv_past = [], fv_p = p, fv_st = st\<rparr>)"

subsection \<open>The inner loop\<close>

definition inc_ref :: "pbuf \<Rightarrow> pbuf" where
  "inc_ref q = q\<lparr>pb_ref := pb_ref q + 1\<rparr>"

fun inc_at :: "nat list \<Rightarrow> chain \<Rightarrow> chain" where
  "inc_at [] c = c"
| "inc_at (i # is) c = inc_at is (c[i := inc_ref (c ! i)])"

lemma inc_at_frame: "i \<notin> set is \<Longrightarrow> inc_at is c ! i = c ! i" "length (inc_at is c) = length c"
  by (induction "is" arbitrary: c) auto

lemma inc_at_update: "i \<notin> set is \<Longrightarrow> (inc_at is c)[i := x] = inc_at is (c[i := x])"
  by (induction "is" arbitrary: c) (auto simp: list_update_swap)

lemma free_inc_ref:
  assumes "i < length c" and "c ! i = inc_ref q" and "0 < pb_ref q"
  shows "ipfrag_free_pbuf_custom i c = Ok (c[i := q])"
proof -
  have "drop i c = inc_ref q # drop (Suc i) c" using assms(1,2) by (metis Cons_nth_drop_Suc)
  moreover have "q\<lparr>pb_ref := pb_ref q\<rparr> = q" by simp
  ultimately show ?thesis using assms(1,3)
    by (simp add: ipfrag_free_pbuf_custom_def pbuf_free_def inc_ref_def upd_conv_take_nth_drop)
qed

text \<open>Giving back the references restores the datagram.\<close>

lemma free_inc_at:
  "distinct held \<Longrightarrow> \<forall>i\<in>set held. i < length c \<and> 0 < pb_ref (c ! i) \<Longrightarrow>
     res_fold ipfrag_free_pbuf_custom held (inc_at held c) = Ok c"
proof (induction held arbitrary: c)
  case Nil
  then show ?case by simp
next
  case (Cons i held)
  let ?c = "inc_at held (c[i := inc_ref (c ! i)])"
  have i: "i < length c" "i \<notin> set held" "0 < pb_ref (c ! i)" using Cons.prems by auto
  have "?c ! i = inc_ref (c ! i)" using i by (simp add: inc_at_frame)
  then have "ipfrag_free_pbuf_custom i ?c = Ok (?c[i := c ! i])"
    using i by (intro free_inc_ref) (simp_all add: inc_at_frame)
  also have "?c[i := c ! i] = inc_at held c" using i(2) by (simp add: inc_at_update)
  finally show ?case using Cons by simp
qed

definition frag_src :: "chain \<Rightarrow> bool" where
  "frag_src p \<longleftrightarrow> (\<forall>q\<in>set p. pbuf_wf q \<and> pb_len q < 65536 \<and> pb_ref q < 65535)"

lemma frag_src_Cons [simp]:
  "frag_src (q # qs) \<longleftrightarrow> pbuf_wf q \<and> pb_len q < 65536 \<and> pb_ref q < 65535 \<and> frag_src qs"
  by (auto simp: frag_src_def)

text \<open>The pbuf that refers to the first \<open>n\<close> bytes of \<open>q\<close>.\<close>

lemma frag_custom:
  assumes "pbuf_wf q" and "n \<le> pb_len q" and "pb_len q < 65536"
  shows "\<exists>r. pbuf_alloced_custom PBUF_RAW n PBUF_REF (Some (drop (pb_off q) (pb_mem q))) n = Some [r] \<and>
    chain_wf [r] \<and> chain_tot [r] = n \<and> chain_data [r] = take n (pb_payload q)"
  using assms by (auto simp: pbuf_alloced_custom_def LWIP_MEM_ALIGN_SIZE_def Let_def pbuf_wf_def pb_payload_def min_def)

lemma pbuf_cat_hd: "pbuf_cat h t = Ok c \<Longrightarrow> pb_len (hd c) = pb_len (hd h)"
  by (cases h rule: list.exhaust; cases "tl h") (auto simp: pbuf_cat_def split: list.splits if_splits)

lemma frag_copy_ok:
  assumes "\<And>n. ie_memp e n" and "frag_src p" and "chain_wf rb" and "rb \<noteq> []" and "0 < n" and "n \<le> length (chain_data p)"
    and "chain_tot rb + n < 65536"
  shows "\<exists>rb' nl' held' past' p' j k. frag_copy e rb n nl held past p st =
      Ok (Some (rb', nl', held @ held'), past', p', st\<lparr>nw_calls := j\<rparr>) \<and>
    chain_wf rb' \<and> rb' \<noteq> [] \<and> chain_data rb' = chain_data rb @ take n (chain_data p) \<and> pb_len (hd rb') = pb_len (hd rb) \<and>
    past' @ p' = inc_at held' (past @ p) \<and> distinct held' \<and> (\<forall>i\<in>set held'. length past \<le> i \<and> i < length (past @ p)) \<and>
    length past' = length past + k \<and> k < length p \<and> nl' \<le> pb_len (p ! k) \<and>
    drop nl' (chain_data (drop k p)) = drop n (chain_data p) \<and> (k = 0 \<longrightarrow> nl' = n)"
  using assms(2-)
proof (induction p arbitrary: rb n nl held past st)
  case Nil
  then show ?case by simp
next
  case (Cons q qs)
  have q: "pbuf_wf q" "pb_len q < 65536" "pb_ref q < 65535" "frag_src qs" using Cons.prems(1) by simp_all
  show ?case
  proof (cases "pb_len q = 0")
    case True
    then have d: "chain_data (q # qs) = chain_data qs" by (simp add: pb_payload_def)
    have "n \<le> length (chain_data qs)" using Cons.prems(5) d by simp
    from Cons.IH [OF q(4) Cons.prems(2,3,4) this Cons.prems(6), of 0 held "past @ [q]" st] obtain rb' nl' held' past' p' j k where
      r: "frag_copy e rb n 0 held (past @ [q]) qs st = Ok (Some (rb', nl', held @ held'), past', p', st\<lparr>nw_calls := j\<rparr>)"
        "chain_wf rb'" "rb' \<noteq> []" "chain_data rb' = chain_data rb @ take n (chain_data qs)"
        "past' @ p' = inc_at held' ((past @ [q]) @ qs)" "distinct held'"
        "\<forall>i\<in>set held'. length (past @ [q]) \<le> i \<and> i < length ((past @ [q]) @ qs)"
        "length past' = length (past @ [q]) + k" "k < length qs" "nl' \<le> pb_len (qs ! k)"
        "drop nl' (chain_data (drop k qs)) = drop n (chain_data qs)" "pb_len (hd rb') = pb_len (hd rb)" by blast
    have "frag_copy e rb n nl held past (q # qs) st =
        Ok (Some (rb', nl', held @ held'), past', p', st\<lparr>nw_calls := j\<rparr>)"
      using r(1) True Cons.prems(4) by simp
    moreover have "\<forall>i\<in>set held'. length past \<le> i \<and> i < length (past @ q # qs)" using r(7) by auto
    moreover have "past' @ p' = inc_at held' (past @ q # qs)" using r(5) by simp
    ultimately show ?thesis unfolding d using r(2,3,4,6,8,9,10,11,12)
      by (intro exI [of _ rb'] exI [of _ nl'] exI [of _ held'] exI [of _ past'] exI [of _ p'] exI [of _ j] exI [of _ "Suc k"])
        (simp del: frag_copy.simps)
  next
    case False
    define m where "m = (if n < pb_len q then n else pb_len q)"
    have m: "m \<noteq> 0" "m \<le> pb_len q" "m \<le> n" using False Cons.prems(4) by (auto simp: m_def)
    obtain c where c: "pbuf_alloced_custom PBUF_RAW m PBUF_REF (Some (drop (pb_off q) (pb_mem q))) m = Some [c]"
      "chain_wf [c]" "chain_tot [c] = m" "chain_data [c] = take m (pb_payload q)" using frag_custom [OF q(1) m(2) q(2)] by blast
    have "chain_tot rb + chain_tot [c] < 65536" using Cons.prems(6) c(3) m(3) by linarith
    from pbuf_cat_ok [OF Cons.prems(2) c(2) Cons.prems(3) _ this] obtain rb1 where
      rb1: "pbuf_cat rb [c] = Ok rb1" "chain_wf rb1" "chain_tot rb1 = chain_tot rb + m" "rb1 \<noteq> []"
        "chain_data rb1 = chain_data rb @ take m (pb_payload q)" using c(3,4) by auto
    have hd1: "pb_len (hd rb1) = pb_len (hd rb)" by (rule pbuf_cat_hd [OF rb1(1)])
    have step: "frag_copy e rb n nl held past (q # qs) st =
        (if n - m \<noteq> 0 then frag_copy e rb1 (n - m) m (held @ [length past]) (past @ [inc_ref q]) qs (called st)
         else Ok (Some (rb1, m, held @ [length past]), past, inc_ref q # qs, called st))"
      using Cons.prems(4) m(1) c(1) rb1(1) assms(1) q(3) by (simp add: m_def [symmetric] Let_def inc_ref_def)
    show ?thesis
    proof (cases "n \<le> pb_len q")
      case True
      then have mn: "m = n" by (simp add: m_def)
      then show ?thesis using True step rb1 hd1 q(1) Cons.prems(4)
        by (intro exI [of _ rb1] exI [of _ m] exI [of _ "[length past]"] exI [of _ past] exI [of _ "inc_ref q # qs"]
            exI [of _ "Suc (nw_calls st)"] exI [of _ 0]) (simp add: called_def)
    next
      case False
      then have mq: "m = pb_len q" "n - m \<noteq> 0" by (simp_all add: m_def)
      have "n - m \<le> length (chain_data qs)" "0 < n - m" using Cons.prems(5) mq q(1) by auto
      moreover have "chain_tot rb1 + (n - m) < 65536" using rb1(3) Cons.prems(6) m(3) by linarith
      ultimately obtain rb' nl' held' past' p' j k where
        r: "frag_copy e rb1 (n - m) m (held @ [length past]) (past @ [inc_ref q]) qs (called st) =
            Ok (Some (rb', nl', (held @ [length past]) @ held'), past', p', (called st)\<lparr>nw_calls := j\<rparr>)"
          "chain_wf rb'" "rb' \<noteq> []" "chain_data rb' = chain_data rb1 @ take (n - m) (chain_data qs)"
          "past' @ p' = inc_at held' ((past @ [inc_ref q]) @ qs)" "distinct held'"
          "\<forall>i\<in>set held'. length (past @ [inc_ref q]) \<le> i \<and> i < length ((past @ [inc_ref q]) @ qs)"
          "length past' = length (past @ [inc_ref q]) + k" "k < length qs" "nl' \<le> pb_len (qs ! k)"
          "drop nl' (chain_data (drop k qs)) = drop (n - m) (chain_data qs)" "pb_len (hd rb') = pb_len (hd rb1)"
        using Cons.IH [OF q(4) rb1(2,4), of "n - m" m "held @ [length past]" "past @ [inc_ref q]" "called st"] by blast
      have "chain_data rb' = chain_data rb @ take n (chain_data (q # qs))"
        using r(4) rb1(5) mq q(1) m(3) by simp
      moreover have "drop nl' (chain_data (drop k qs)) = drop n (chain_data (q # qs))" using r(11) mq q(1) m(3) by simp
      moreover have "past' @ p' = inc_at (length past # held') (past @ q # qs)" using r(5) by simp
      moreover have "distinct (length past # held')" using r(6,7) by auto
      moreover have "\<forall>i\<in>set (length past # held'). length past \<le> i \<and> i < length (past @ q # qs)" using r(7) by auto
      moreover have "frag_copy e rb n nl held past (q # qs) st =
          Ok (Some (rb', nl', held @ length past # held'), past', p', st\<lparr>nw_calls := j\<rparr>)"
        using step mq(2) r(1) by (simp add: called_def)
      ultimately show ?thesis using r(2,3,8,9,10,12) hd1
        by (intro exI [of _ rb'] exI [of _ nl'] exI [of _ "length past # held'"] exI [of _ past'] exI [of _ p'] exI [of _ j]
            exI [of _ "Suc k"]) (simp del: inc_at.simps frag_copy.simps)
    qed
  qed
qed

subsection \<open>The outer loop\<close>

text \<open>All allocations succeed.\<close>

definition env_mem :: "ip_env \<Rightarrow> bool" where
  "env_mem e \<longleftrightarrow> (\<forall>n. ie_memp e n \<and> ae_ram (ie_alloc e n))"

lemma wr_hdr_ok:
  assumes "chain_wf (p # ps)" and "length d \<le> pb_len p"
  shows "wr_hdr 0 d (p # ps) = Ok (pb_put 0 d p # ps)" and "chain_wf (pb_put 0 d p # ps)"
    and "pb_payload (pb_put 0 d p) = d @ drop (length d) (pb_payload p)"
proof -
  have p: "pbuf_wf p" using assms(1) by simp
  show "wr_hdr 0 d (p # ps) = Ok (pb_put 0 d p # ps)" using p assms(2) by (simp add: wr_hdr_def pb_put_def pbuf_wf_def)
  show "chain_wf (pb_put 0 d p # ps)" using assms pbuf_wf_put [OF p, of 0 d] by simp
  show "pb_payload (pb_put 0 d p) = d @ drop (length d) (pb_payload p)" using payload_put [OF p, of 0 d] assms(2) by (simp add: buf_put_def)
qed

lemma frag_hdr_addr: "length h = 20 \<Longrightarrow> frag_hdr addr tmp cop h = frag_hdr 0 tmp cop h"
  by (erule iphdr_cases) (simp add: frag_hdr_def inet_chksum_rfc)

lemma length_frag_hdr [simp]: "length h = 20 \<Longrightarrow> length (frag_hdr addr tmp cop h) = 20"
  by (erule iphdr_cases) (simp add: frag_hdr_def Let_def)

lemma nw_alloc_hdr:
  assumes "env_mem e" and "length h = 20"
  shows "\<exists>r. nw_alloc e PBUF_LINK 20 PBUF_RAM st = Ok (Some [r], called st) \<and>
    (\<exists>r'. wr_hdr 0 h [r] = Ok [r'] \<and> chain_wf [r'] \<and> chain_data [r'] = h \<and> pb_len r' = 20)"
proof -
  let ?r = "\<lparr>pb_mem = junk_bytes (ie_alloc e (nw_calls st)) (LWIP_MEM_ALIGN_SIZE 16 + LWIP_MEM_ALIGN_SIZE 20),
    pb_off = LWIP_MEM_ALIGN_SIZE 16, pb_tot_len = 20, pb_len = 20, pb_type = PBUF_RAM, pb_flags = 0, pb_ref = 1\<rparr>"
  have "ae_ram (ie_alloc e (nw_calls st))" using assms(1) by (simp add: env_mem_def)
  then have "nw_alloc e PBUF_LINK 20 PBUF_RAM st = Ok (Some [?r], called st)" by (simp add: nw_alloc_def pbuf_alloc_def Let_def)
  moreover have wf: "chain_wf [?r]" by (simp add: pbuf_wf_def LWIP_MEM_ALIGN_SIZE_def)
  then have "length (pb_payload ?r) = 20" by simp
  then have "chain_data [pb_put 0 h ?r] = h" using wr_hdr_ok(3) [OF wf, of h] assms(2) by simp
  ultimately show ?thesis using wr_hdr_ok(1,2) [OF wf, of h] assms(2) by (intro exI [of _ ?r] conjI exI [of _ "pb_put 0 h ?r"]) simp_all
qed

lemma u16_diff: "b \<le> a \<Longrightarrow> a < 65536 \<Longrightarrow> (a + 65536 - b) mod 65536 = (a - b :: nat)"
proof -
  assume "b \<le> a" "a < 65536"
  then have "a + 65536 - b = (a - b) + 65536" "a - b < 65536" by linarith+
  then show ?thesis by (simp only: mod_add_self2 mod_less)
qed

lemma frag_src_drop: "frag_src p \<Longrightarrow> frag_src (drop k p)"
  unfolding frag_src_def using set_drop_subset [of k p] by blast

definition frag_tmp :: "nat \<Rightarrow> u16 \<Rightarrow> u16 \<Rightarrow> nat \<Rightarrow> u16" where
  "frag_tmp mtu omf ofo left =
     (if int left \<le> int mtu - 20 then omf OR (IP_OFFMASK AND ofo) else (omf OR (IP_OFFMASK AND ofo)) OR IP_MF)"

definition frag_cop :: "nat \<Rightarrow> nat \<Rightarrow> nat" where
  "frag_cop mtu left = (if int left \<le> int mtu - 20 then left else frag_nfb mtu * 8 mod 65536)"

lemma frag_cop_le:
  assumes "28 \<le> mtu" and "mtu < 65536" and "0 < left"
  shows "0 < frag_cop mtu left" and "frag_cop mtu left \<le> left" and "frag_cop mtu left < left \<Longrightarrow> frag_cop mtu left = 8 * ((mtu - 20) div 8)"
    and "frag_cop mtu left \<le> mtu - 20"
  using assms by (auto simp: frag_cop_def frag_nfb_def)

text \<open>What one turn sends, and where it leaves off.\<close>

lemma ip_frag_step_ok:
  fixes nf :: "('s, 'o) netifs"
  assumes mem: "env_mem e" and out: "nif_output (nf_obj nf n) \<noteq> None" and h: "length h = 20"
    and src: "frag_src (fv_p v)" and p: "fv_p v = q # qs" "20 \<le> pb_len q" "fv_poff v \<le> pb_len q"
    and d: "d = drop (fv_poff v) (chain_data (fv_p v))" "fv_left v = length d" "0 < length d" "length d + 20 < 65536"
    and mtu: "28 \<le> mtu" "mtu < 65536"
  shows "\<exists>f v' k. ip_frag_step e nf n dest h mtu omf v = Ok (Inr v') \<and> chain_wf f \<and> f \<noteq> [] \<and>
    chain_data f = frag_hdr 0 (frag_tmp mtu omf (fv_ofo v) (length d)) (frag_cop mtu (length d)) h @ take (frag_cop mtu (length d)) d \<and>
    (\<exists>j. fv_st v' = STATS_INC S_ip_frag S_xmit ((fv_st v)\<lparr>nw_sent := nw_sent (fv_st v) @ [(n, f, dest)], nw_calls := j\<rparr>)) \<and>
    fv_left v' = length d - frag_cop mtu (length d) \<and> fv_ofo v' = fv_ofo v + of_nat (frag_nfb mtu) \<and>
    frag_src (fv_p v') \<and> k < length (q # qs) \<and> fv_poff v' \<le> pb_len (hd (fv_p v')) \<and> tl (fv_p v') = drop (Suc k) (q # qs) \<and>
    hd (fv_p v') = (if k = 0 then q\<lparr>pb_off := pb_off q + fv_poff v, pb_len := pb_len q - fv_poff v\<rparr> else (q # qs) ! k) \<and> fv_p v' \<noteq> [] \<and>
    drop (fv_poff v') (chain_data (fv_p v')) = drop (frag_cop mtu (length d)) d \<and> (k = 0 \<longrightarrow> fv_poff v' = frag_cop mtu (length d))"
proof -
  define cop where "cop = frag_cop mtu (length d)"
  define tmp where "tmp = frag_tmp mtu omf (fv_ofo v) (length d)"
  have cop: "0 < cop" "cop \<le> length d" using frag_cop_le(1,2) [OF mtu d(3)] by (simp_all add: cop_def)
  let ?q = "q\<lparr>pb_off := pb_off q + fv_poff v, pb_len := pb_len q - fv_poff v\<rparr>"
  have s: "pbuf_wf q" "pb_len q < 65536" "pb_ref q < 65535" "frag_src qs" using src p(1) by simp_all
  have src': "frag_src (?q # qs)" using s p(3) by (auto simp: pbuf_wf_def)
  have len: "(pb_len q + 65536 - fv_poff v) mod 65536 = pb_len q - fv_poff v"
    by (rule u16_diff [OF p(3) s(2)])
  have "pb_payload ?q = drop (fv_poff v) (pb_payload q)" by (simp add: pb_payload_def drop_take add.commute)
  then have d': "chain_data (?q # qs) = d" using d(1) p(1,3) s(1) by simp
  obtain r r1 where r: "nw_alloc e PBUF_LINK 20 PBUF_RAM (fv_st v) = Ok (Some [r], called (fv_st v))" "wr_hdr 0 h [r] = Ok [r1]"
    "chain_wf [r1]" "chain_data [r1] = h" "pb_len r1 = 20" using nw_alloc_hdr [OF mem h] by blast
  have memp: "\<And>n. ie_memp e n" using mem by (simp add: env_mem_def)
  have tot: "chain_tot [r1] + cop < 65536" using length_chain_data [OF r(3)] r(4) h cop(2) d(4) by simp
  have cd: "cop \<le> length (chain_data (?q # qs))" using d' cop(2) by simp
  note fc = frag_copy_ok [OF memp src' r(3) not_Cons_self2 cop(1) cd tot, of "fv_newpbuflen v" "[]" "fv_past v" "called (fv_st v)", unfolded d' append_Nil]
  obtain rb nl held past p' j k where f: "frag_copy e [r1] cop (fv_newpbuflen v) [] (fv_past v) (?q # qs) (called (fv_st v)) =
      Ok (Some (rb, nl, held), past, p', (called (fv_st v))\<lparr>nw_calls := j\<rparr>)"
    "chain_wf rb" "rb \<noteq> []" "chain_data rb = chain_data [r1] @ take cop d" "pb_len (hd rb) = pb_len (hd [r1])"
    "past @ p' = inc_at held (fv_past v @ ?q # qs)" "distinct held" "\<forall>i\<in>set held. length (fv_past v) \<le> i \<and> i < length (fv_past v @ ?q # qs)"
    "length past = length (fv_past v) + k" "k < length (?q # qs)" "nl \<le> pb_len ((?q # qs) ! k)"
    "drop nl (chain_data (drop k (?q # qs))) = drop cop d" "k = 0 \<longrightarrow> nl = cop"
    using fc by blast
  obtain b bs where rb: "rb = b # bs" using f(3) by (cases rb) auto
  let ?hdr = "frag_hdr (ie_adr e b) tmp cop h" and ?c = "fv_past v @ ?q # qs"
  let ?f = "pb_put 0 ?hdr b # bs"
  have wb: "chain_wf (b # bs)" "pb_len b = 20" using f(2,5) rb r(5) by simp_all
  have "pb_payload b @ chain_data bs = h @ take cop d" "length (pb_payload b) = length h" using f(4) rb r(4) wb h by simp_all
  then have "pb_payload b = h" "chain_data bs = take cop d" by simp_all
  then have w: "wr_hdr 0 ?hdr rb = Ok ?f" "chain_wf ?f" "chain_data ?f = frag_hdr 0 tmp cop h @ take cop d"
    using wr_hdr_ok [OF wb(1), of ?hdr] wb(2) h rb frag_hdr_addr [OF h] by simp_all
  obtain x where x: "pbuf_free ?f = Ok x" using pbuf_free_ok [OF w(2)] by blast
  have "\<forall>i\<in>set held. i < length ?c \<and> 0 < pb_ref (?c ! i)"
  proof
    fix i assume "i \<in> set held"
    then have i: "length (fv_past v) \<le> i" "i < length ?c" using f(8) by simp_all
    then have "?c ! i \<in> set (?q # qs)" using nth_mem [of "i - length (fv_past v)" "?q # qs"] by (simp add: nth_append del: set_simps)
    then show "i < length ?c \<and> 0 < pb_ref (?c ! i)" using i(2) src' by (auto simp: frag_src_def pbuf_wf_def)
  qed
  then have fr: "frag_free ?f held (past @ p') = Ok ?c" using x free_inc_at [OF f(7), of ?c] f(6) by (simp add: frag_free_def)
  define v' where "v' = \<lparr>fv_left = length d - cop, fv_ofo = fv_ofo v + of_nat (frag_nfb mtu), fv_poff = nl, fv_newpbuflen = nl,
    fv_past = take (length past) ?c, fv_p = drop (length past) ?c,
    fv_st = STATS_INC S_ip_frag S_xmit (called ((called (fv_st v))\<lparr>nw_calls := j, nw_sent := nw_sent (fv_st v) @ [(n, ?f, dest)]\<rparr>))\<rparr>"
  have p': "fv_p v' = drop k (?q # qs)" using f(9) by (simp add: v'_def)
  have eqs: "(if int (fv_left v) \<le> int mtu - int 20 then omf OR (0x1fff AND fv_ofo v) else (omf OR (0x1fff AND fv_ofo v)) OR 0x2000) = tmp"
    "(if int (fv_left v) \<le> int mtu - int 20 then fv_left v else frag_nfb mtu * 8 mod 65536) = cop"
    by (simp_all add: tmp_def frag_tmp_def cop_def frag_cop_def d(2))
  have "ip_frag_step e nf n dest h mtu omf v = Ok (Inr v')"
    unfolding ip_frag_step_def Let_def eqs
    using r(1,2) p len f(1) w(1) fr out rb u16_diff [OF cop(2)] d(2,4) by (simp add: nw_output_def v'_def called_def)
  moreover have "\<exists>j. fv_st v' = STATS_INC S_ip_frag S_xmit ((fv_st v)\<lparr>nw_sent := nw_sent (fv_st v) @ [(n, ?f, dest)], nw_calls := j\<rparr>)"
    by (rule exI [of _ "Suc j"]) (simp add: v'_def called_def)
  moreover have "frag_src (fv_p v')" unfolding p' using src' by (rule frag_src_drop)
  moreover have hd: "hd (fv_p v') = (if k = 0 then ?q else (q # qs) ! k)" "tl (fv_p v') = drop (Suc k) (q # qs)" "fv_p v' \<noteq> []"
    unfolding p' using f(10) by (simp_all add: hd_drop_conv_nth drop_Suc tl_drop nth_Cons split: nat.split)
  moreover have "fv_poff v' \<le> pb_len (hd (fv_p v'))" 
  proof -
    have "fv_poff v' = nl" by (simp add: v'_def)
    then show ?thesis using f(11) unfolding hd(1) by (simp add: nth_Cons split: nat.splits)
  qed
  moreover have "drop (fv_poff v') (chain_data (fv_p v')) = drop cop d" unfolding p' using f(12) by (simp add: v'_def)
  ultimately show ?thesis using w(2,3) f(10,13) unfolding cop_def [symmetric] tmp_def [symmetric]
    by (intro exI [of _ ?f] exI [of _ v'] exI [of _ k]) (simp add: v'_def)
qed

text \<open>
  The fragments of a datagram of RFC 791: \<open>d\<close> is the data still to be sent and \<open>k\<close> its offset in
  units of eight bytes.
\<close>

function rfc791_frags :: "bytes \<Rightarrow> nat \<Rightarrow> nat \<Rightarrow> bytes \<Rightarrow> bytes list" where
  "rfc791_frags h mtu k d =
     (if d = [] \<or> mtu < 28 then []
      else if length d \<le> mtu - 20 then [frag_hdr 0 (of_nat k) (length d) h @ d]
      else let n = (mtu - 20) div 8
           in (frag_hdr 0 (of_nat k OR IP_MF) (8 * n) h @ take (8 * n) d) # rfc791_frags h mtu (k + n) (drop (8 * n) d))"
  by pat_completeness auto
termination
  by (relation "measure (\<lambda>(h, mtu, k, d). length d)") auto

declare rfc791_frags.simps [simp del]

lemma frag_tmp_0:
  assumes "k < 8192"
  shows "frag_tmp mtu 0 (of_nat k) left = (if int left \<le> int mtu - 20 then of_nat k else of_nat k OR IP_MF)"
proof -
  have "(0x1fff :: u16) = mask 13" by (simp add: mask_eq_exp_minus_1)
  then have "0x1fff AND (of_nat k :: u16) = of_nat k"
    using assms by (simp only: and.commute [of "mask 13"] flip: take_bit_eq_mask) (simp add: take_bit_of_nat take_bit_nat_eq_self)
  then show ?thesis by (simp add: frag_tmp_def)
qed

lemma ip_frag_loop_simps:
  "fv_left v = 0 \<Longrightarrow> ip_frag_loop e nf n dest h mtu omf v = Some (Ok (ERR_OK, fv_past v @ fv_p v, fv_st v))"
  "fv_left v \<noteq> 0 \<Longrightarrow> ip_frag_step e nf n dest h mtu omf v = Ok (Inr v') \<Longrightarrow>
     ip_frag_loop e nf n dest h mtu omf v = ip_frag_loop e nf n dest h mtu omf v'"
  by (subst ip_frag_loop.simps, simp)+

text \<open>The parts of the state the loop leaves alone.\<close>

definition frag_frame :: "stack \<Rightarrow> stack \<Rightarrow> bool" where
  "frag_frame st st' \<longleftrightarrow> st'\<lparr>nw_sent := nw_sent st, nw_calls := nw_calls st, lwip_stats := lwip_stats st\<rparr> = st"

lemma frag_frame_refl [simp]: "frag_frame a a"
  by (simp add: frag_frame_def)

lemma frag_frame_trans: "frag_frame a b \<Longrightarrow> frag_frame b c \<Longrightarrow> frag_frame a c"
  by (cases a; cases b; cases c; simp add: frag_frame_def)

lemma frag_frame_upd [simp]:
  "frag_frame st (STATS_INC l k (st\<lparr>nw_sent := s, nw_calls := j\<rparr>))" "frag_frame st (called st)" "frag_frame st (STATS_INC l k st)"
  "frag_frame st (st\<lparr>nw_sent := s, nw_calls := j\<rparr>)"
  by (simp_all add: frag_frame_def STATS_INC_def called_def)

lemma ip_frag_loop_ok:
  fixes nf :: "('s, 'o) netifs"
  assumes "env_mem e" and "nif_output (nf_obj nf n) \<noteq> None" and "length h = 20" and "44 \<le> mtu" and "mtu < 65536"
    and "frag_src (fv_p v)" and "fv_left v = length d" and "length d + 20 < 65536" and "8 * k + length d \<le> 65536"
    and "fv_ofo v = of_nat k"
    and "d \<noteq> [] \<longrightarrow> fv_p v \<noteq> [] \<and> 20 \<le> pb_len (hd (fv_p v)) \<and> fv_poff v \<le> pb_len (hd (fv_p v)) \<and>
           (\<forall>q\<in>set (tl (fv_p v)). 20 \<le> pb_len q) \<and> d = drop (fv_poff v) (chain_data (fv_p v))"
  shows "\<exists>fs c st'. ip_frag_loop e nf n dest h mtu 0 v = Some (Ok (ERR_OK, c, st')) \<and> frag_frame (fv_st v) st' \<and>
    nw_sent st' = nw_sent (fv_st v) @ map (\<lambda>f. (n, f, dest)) fs \<and> list_all chain_wf fs \<and> map chain_data fs = rfc791_frags h mtu k d"
  using assms(6-)
proof (induction "length d" arbitrary: v d k rule: less_induct)
  case less
  show ?case
  proof (cases "d = []")
    case True
    then show ?thesis using less.prems by (intro exI [of _ "[]"] exI [of _ "fv_past v @ fv_p v"] exI [of _ "fv_st v"]) (simp add: ip_frag_loop_simps rfc791_frags.simps)
  next
    case False
    then obtain q qs where p: "fv_p v = q # qs" "20 \<le> pb_len q" "fv_poff v \<le> pb_len q" "\<forall>q\<in>set qs. 20 \<le> pb_len q"
      "d = drop (fv_poff v) (chain_data (fv_p v))" using less.prems(6) by (cases "fv_p v") auto
    define cop where "cop = frag_cop mtu (length d)"
    have m: "28 \<le> mtu" "0 < length d" using assms(4) False by simp_all
    note cop = frag_cop_le [OF m(1) assms(5) m(2), folded cop_def]
    obtain f v' i where s: "ip_frag_step e nf n dest h mtu 0 v = Ok (Inr v')" "chain_wf f"
      "chain_data f = frag_hdr 0 (frag_tmp mtu 0 (fv_ofo v) (length d)) cop h @ take cop d"
      "\<exists>j. fv_st v' = STATS_INC S_ip_frag S_xmit ((fv_st v)\<lparr>nw_sent := nw_sent (fv_st v) @ [(n, f, dest)], nw_calls := j\<rparr>)"
      "fv_left v' = length d - cop" "fv_ofo v' = fv_ofo v + of_nat (frag_nfb mtu)" "frag_src (fv_p v')" "i < length (q # qs)"
      "fv_poff v' \<le> pb_len (hd (fv_p v'))" "tl (fv_p v') = drop (Suc i) (q # qs)"
      "hd (fv_p v') = (if i = 0 then q\<lparr>pb_off := pb_off q + fv_poff v, pb_len := pb_len q - fv_poff v\<rparr> else (q # qs) ! i)"
      "fv_p v' \<noteq> []" "drop (fv_poff v') (chain_data (fv_p v')) = drop cop d" "i = 0 \<longrightarrow> fv_poff v' = cop"
      using ip_frag_step_ok [OF assms(1-3) less.prems(1) p(1-3) p(5) less.prems(2) m(2) less.prems(3) m(1) assms(5), folded cop_def] by blast
    have more: "20 \<le> pb_len (hd (fv_p v')) \<and> (\<forall>q\<in>set (tl (fv_p v')). 20 \<le> pb_len q)" if "drop cop d \<noteq> []"
    proof -
      have "24 \<le> cop" using cop(3) that assms(4) by simp
      then have "20 \<le> pb_len (hd (fv_p v'))" using s(9,14) p(4) s(8) s(11) by (cases i) auto
      moreover have "set (tl (fv_p v')) \<subseteq> set qs" unfolding s(10) using set_drop_subset by fastforce
      ultimately show ?thesis using p(4) by blast
    qed
    define k' where "k' = k + (mtu - 20) div 8"
    have nfb: "frag_nfb mtu = (mtu - 20) div 8" using m(1) by (simp add: frag_nfb_def)
    have loop: "ip_frag_loop e nf n dest h mtu 0 v = ip_frag_loop e nf n dest h mtu 0 v'"
      using False s(1) less.prems(2) by (intro ip_frag_loop_simps(2)) simp_all
    have fr: "frag_frame (fv_st v) (fv_st v')" "nw_sent (fv_st v') = nw_sent (fv_st v) @ [(n, f, dest)]"
      using s(4) by (auto simp: STATS_INC_def frag_frame_def)
    have k: "k < 8192" using less.prems(4) False by (cases d) auto
    have fits: "int (length d) \<le> int mtu - 20 \<longleftrightarrow> length d \<le> mtu - 20" using m(1) by linarith
    have f: "chain_data f = frag_hdr 0 (if length d \<le> mtu - 20 then of_nat k else of_nat k OR IP_MF) cop h @ take cop d"
      using s(3) by (simp only: less.prems(5) frag_tmp_0 [OF k] fits)
    show ?thesis
    proof (cases "length d \<le> mtu - 20")
      case True
      then have "cop = length d" by (simp add: cop_def frag_cop_def fits)
      then have "rfc791_frags h mtu k d = [chain_data f]" "fv_left v' = 0"
        using True f False m(1) s(5) by (simp_all add: rfc791_frags.simps)
      then show ?thesis using loop fr s(2) by (intro exI [of _ "[f]"]) (simp add: ip_frag_loop_simps(1))
    next
      case big: False
      then have "cop < length d" using cop(4) by simp
      note c8 = cop(3) [OF this]
      have "rfc791_frags h mtu k d = chain_data f # rfc791_frags h mtu k' (drop cop d)"
        using big f False m(1) c8 by (subst rfc791_frags.simps) (simp add: k'_def Let_def)
      moreover have "\<exists>fs c st'. ip_frag_loop e nf n dest h mtu 0 v' = Some (Ok (ERR_OK, c, st')) \<and> frag_frame (fv_st v') st' \<and>
        nw_sent st' = nw_sent (fv_st v') @ map (\<lambda>f. (n, f, dest)) fs \<and> list_all chain_wf fs \<and>
        map chain_data fs = rfc791_frags h mtu k' (drop cop d)"
      proof (rule less.hyps)
        show "length (drop cop d) < length d" using cop(1) m(2) by simp
        show "length (drop cop d) + 20 < 65536" using less.prems(3) by simp
        show "8 * k' + length (drop cop d) \<le> 65536" using c8 \<open>cop < length d\<close> less.prems(4) by (simp add: k'_def)
        show "fv_ofo v' = of_nat k'" using s(6) less.prems(5) nfb by (simp add: k'_def)
        show "drop cop d \<noteq> [] \<longrightarrow> fv_p v' \<noteq> [] \<and> 20 \<le> pb_len (hd (fv_p v')) \<and> fv_poff v' \<le> pb_len (hd (fv_p v')) \<and>
          (\<forall>q\<in>set (tl (fv_p v')). 20 \<le> pb_len q) \<and> drop cop d = drop (fv_poff v') (chain_data (fv_p v'))"
          using more s(9,12,13) by simp
      qed (use s(5,7) in simp_all)
      then obtain fs c st' where "ip_frag_loop e nf n dest h mtu 0 v' = Some (Ok (ERR_OK, c, st'))" "frag_frame (fv_st v') st'"
        "nw_sent st' = nw_sent (fv_st v') @ map (\<lambda>f. (n, f, dest)) fs" "list_all chain_wf fs"
        "map chain_data fs = rfc791_frags h mtu k' (drop cop d)" by blast
      ultimately show ?thesis using loop fr s(2)
        by (intro exI [of _ "f # fs"] exI [of _ c] exI [of _ st']) (simp add: frag_frame_trans [OF fr(1)])
    qed
  qed
qed


lemma chain_wf_frag_src:
  "chain_wf p \<Longrightarrow> \<forall>q\<in>set p. pb_ref q < 65535 \<Longrightarrow> frag_src p"
  by (induction p) (auto simp: frag_src_def)

lemma rd_iphdr_data:
  assumes "chain_wf (q # qs)" and "20 \<le> pb_len q"
  shows "rd_iphdr (q # qs) = Ok (take 20 (chain_data (q # qs)))"
  using assms by (auto simp: rd_iphdr_def rdn_def pbuf_wf_def pb_payload_def min_def)

text \<open>A datagram that can be cut up: not a fragment itself, and no pbuf of it shorter than a header.\<close>

definition fraggable :: "chain \<Rightarrow> bool" where
  "fraggable p \<longleftrightarrow> chain_wf p \<and> p \<noteq> [] \<and> (\<forall>q\<in>set p. 20 \<le> pb_len q \<and> pb_ref q < 65535) \<and>
     lwip_ntohs (IPH_OFFSET (take 20 (chain_data p))) AND (IP_MF OR IP_OFFMASK) = 0"

lemma ip_frag_ok:
  fixes nf :: "('s, 'o) netifs"
  assumes "env_mem e" and "nif_output (nf_obj nf n) \<noteq> None" and "44 \<le> unat (nif_mtu (nf_obj nf n))" and "fraggable p"
  shows "\<exists>fs c st'. ip_frag e nf n p dest st = Some (Ok (ERR_OK, c, st')) \<and> frag_frame st st' \<and>
    nw_sent st' = nw_sent st @ map (\<lambda>f. (n, f, dest)) fs \<and> list_all chain_wf fs \<and>
    map chain_data fs = rfc791_frags (take 20 (chain_data p)) (unat (nif_mtu (nf_obj nf n))) 0 (drop 20 (chain_data p))"
proof -
  obtain q qs where p: "p = q # qs" using assms(4) by (cases p) (simp_all add: fraggable_def)
  let ?h = "take 20 (chain_data p)" and ?d = "drop 20 (chain_data p)" and ?mtu = "unat (nif_mtu (nf_obj nf n))"
  have wf: "chain_wf (q # qs)" "20 \<le> pb_len q" "\<forall>q\<in>set qs. 20 \<le> pb_len q" "frag_src (q # qs)"
    using assms(4) p chain_wf_frag_src [of p] by (auto simp: fraggable_def)
  have tot: "length (chain_data p) = pb_tot_len q" "20 \<le> pb_tot_len q" "pb_tot_len q < 65536"
    using wf(1,2) length_chain_data [OF wf(1)] p by auto
  have z: "lwip_ntohs (IPH_OFFSET ?h) AND IP_MF = 0" "lwip_ntohs (IPH_OFFSET ?h) AND IP_OFFMASK = 0"
  proof -
    have "x AND a = 0" "x AND b = 0" if "x AND (a OR b) = 0" for x a b :: u16
      using that by (simp_all add: bit.conj_disj_distrib or_eq_0_iff)
    with assms(4) show "lwip_ntohs (IPH_OFFSET ?h) AND IP_MF = 0" "lwip_ntohs (IPH_OFFSET ?h) AND IP_OFFMASK = 0"
      unfolding fraggable_def by blast+
  qed
  let ?v = "\<lparr>fv_left = length ?d, fv_ofo = 0, fv_poff = 20, fv_newpbuflen = 0, fv_past = [], fv_p = p, fv_st = st\<rparr>"
  have "\<exists>fs c st'. ip_frag_loop e nf n dest ?h ?mtu 0 ?v = Some (Ok (ERR_OK, c, st')) \<and> frag_frame (fv_st ?v) st' \<and>
    nw_sent st' = nw_sent (fv_st ?v) @ map (\<lambda>f. (n, f, dest)) fs \<and> list_all chain_wf fs \<and> map chain_data fs = rfc791_frags ?h ?mtu 0 ?d"
    by (rule ip_frag_loop_ok [OF assms(1,2) _ assms(3)]) (use wf tot p in simp_all)
  moreover have "ip_frag e nf n p dest st = ip_frag_loop e nf n dest ?h ?mtu 0 ?v"
  proof -
    have "rd_iphdr p = Ok ?h" "hd p = q" "(pb_tot_len q + 65536 - 20) mod 65536 = length ?d"
      using rd_iphdr_data [OF wf(1,2)] u16_diff [OF tot(2,3)] tot(1) by (simp_all only: p list.sel length_drop)
    then show ?thesis unfolding ip_frag_def by (simp only: Let_def z res.case)
  qed
  ultimately show ?thesis by simp
qed

subsection \<open>A loop that does not end\<close>


lemma ip_frag_loop_some:
  assumes "ip_frag_loop e nf n dest h mtu omf v = Some y"
    and "\<forall>v. I v \<longrightarrow> fv_left v \<noteq> 0 \<and> (\<exists>v'. ip_frag_step e nf n dest h mtu omf v = Ok (Inr v') \<and> I v')"
  shows "\<not> I v"
  using assms
proof (induction rule: ip_frag_loop.raw_induct [rotated, consumes 1, case_names 1])
  case (1 loop e nf n dest h mtu omf v y)
  show ?case
  proof
    assume "I v"
    then obtain v' where "fv_left v \<noteq> 0" "ip_frag_step e nf n dest h mtu omf v = Ok (Inr v')" "I v'" using 1(3) by blast
    moreover from this(1,2) have "loop e nf n dest h mtu omf v' = Some y" using 1(2) by simp
    ultimately show False using 1(1,3) by blast
  qed
qed

definition frag_stuck :: "nat \<Rightarrow> frag_vars \<Rightarrow> bool" where
  "frag_stuck mtu v \<longleftrightarrow> mtu - 20 < fv_left v \<and> fv_left v < 65536 \<and> fv_newpbuflen v = 0 \<and>
     (case fv_p v of [] \<Rightarrow> False | q # _ \<Rightarrow> 20 + fv_poff v \<le> pb_len q \<and> pb_len q < 65536)"

lemma frag_stuck_step:
  fixes nf :: "('s, 'o) netifs"
  assumes "env_mem e" and "nif_output (nf_obj nf n) \<noteq> None" and "length h = 20" and "20 \<le> mtu" and "mtu < 28" and "frag_stuck mtu v"
  shows "fv_left v \<noteq> 0 \<and> (\<exists>v'. ip_frag_step e nf n dest h mtu omf v = Ok (Inr v') \<and> frag_stuck mtu v')"
proof -
  obtain q qs where p: "fv_p v = q # qs" "20 + fv_poff v \<le> pb_len q" "pb_len q < 65536" and
    v: "\<not> int (fv_left v) \<le> int mtu - 20" "fv_left v < 65536" "fv_newpbuflen v = 0" "0 < fv_left v"
    using assms(6) by (cases "fv_p v") (auto simp: frag_stuck_def)
  let ?q = "q\<lparr>pb_off := pb_off q + fv_poff v, pb_len := pb_len q - fv_poff v\<rparr>"
  have len: "(pb_len q + 65536 - fv_poff v) mod 65536 = pb_len q - fv_poff v" by (rule u16_diff) (use p in simp_all)
  have nfb: "frag_nfb mtu = 0" using assms(4,5) by (simp add: frag_nfb_def)
  obtain r r1 where r: "nw_alloc e PBUF_LINK 20 PBUF_RAM (fv_st v) = Ok (Some [r], called (fv_st v))" "wr_hdr 0 h [r] = Ok [r1]"
    "chain_wf [r1]" "chain_data [r1] = h" "pb_len r1 = 20" using nw_alloc_hdr [OF assms(1,3)] by blast
  let ?t = "(omf OR (IP_OFFMASK AND fv_ofo v)) OR IP_MF"
  let ?hdr = "frag_hdr (ie_adr e r1) ?t 0 h"
  have w: "wr_hdr 0 ?hdr [r1] = Ok [pb_put 0 ?hdr r1]" "chain_wf [pb_put 0 ?hdr r1]"
    using wr_hdr_ok [OF r(3), of ?hdr] r(5) assms(3) by simp_all
  obtain x where x: "pbuf_free [pb_put 0 ?hdr r1] = Ok x" using pbuf_free_ok [OF w(2)] by blast
  obtain v' where "ip_frag_step e nf n dest h mtu omf v = Ok (Inr v')" "fv_left v' = fv_left v" "fv_newpbuflen v' = 0"
    "fv_poff v' = 0" "fv_p v' = ?q # qs"
    using r(1,2) p(1,2) v w(1) x assms(2) len by (simp add: ip_frag_step_def Let_def nfb nw_output_def frag_free_def)
  then show ?thesis using assms(4) p v by (auto simp: frag_stuck_def)
qed

lemma ip_frag_stuck:
  fixes nf :: "('s, 'o) netifs"
  assumes "env_mem e" and "nif_output (nf_obj nf n) \<noteq> None" and "20 \<le> unat (nif_mtu (nf_obj nf n))" and "unat (nif_mtu (nf_obj nf n)) < 28"
    and "chain_wf (q # qs)" and "40 \<le> pb_len q"
  shows "ip_frag e nf n (q # qs) dest st = None"
proof -
  let ?p = "q # qs" and ?mtu = "unat (nif_mtu (nf_obj nf n))"
  let ?h = "take 20 (chain_data ?p)"
  have h: "length ?h = 20" "rd_iphdr ?p = Ok ?h" using rd_iphdr_data [OF assms(5)] assms(5,6) by simp_all
  define v where "v = \<lparr>fv_left = (pb_tot_len q + 65536 - 20) mod 65536, fv_ofo = lwip_ntohs (IPH_OFFSET ?h) AND IP_OFFMASK,
    fv_poff = 20, fv_newpbuflen = 0, fv_past = [], fv_p = ?p, fv_st = st\<rparr>"
  have "(pb_tot_len q + 65536 - 20) mod 65536 = pb_tot_len q - 20" by (rule u16_diff) (use assms(5,6) in simp_all)
  then have stuck: "frag_stuck ?mtu v" using assms(3-6) by (auto simp: frag_stuck_def v_def)
  let ?omf = "lwip_ntohs (IPH_OFFSET ?h) AND IP_MF"
  have eq: "ip_frag e nf n ?p dest st = ip_frag_loop e nf n dest ?h ?mtu ?omf v"
    unfolding ip_frag_def h(2) by (simp only: Let_def res.case v_def list.sel)
  have step: "\<forall>v. frag_stuck ?mtu v \<longrightarrow> fv_left v \<noteq> 0 \<and>
      (\<exists>v'. ip_frag_step e nf n dest ?h ?mtu ?omf v = Ok (Inr v') \<and> frag_stuck ?mtu v')"
    using frag_stuck_step [OF assms(1,2) h(1) assms(3,4)] by blast
  show ?thesis
  proof (rule ccontr)
    assume "ip_frag e nf n ?p dest st \<noteq> None"
    then obtain y where "ip_frag_loop e nf n dest ?h ?mtu ?omf v = Some y" unfolding eq by blast
    from ip_frag_loop_some [OF this step] stuck show False by blast
  qed
qed


end
