(* ===== verification/Ip_Output.thy ===== *)
theory Ip_Output
  imports Ip_Frag
begin

text \<open>
  Sending a datagram, \<^verbatim>\<open>ip_output\<close>, \<^verbatim>\<open>ip_output_if\<close> and \<^verbatim>\<open>ip_output_if_src\<close> of
  \<^verbatim>\<open>lwip/src/core/ipv4/ip4.c\<close>: the header with its checksum computed on the way, the choice of the
  interface, and the hand-over to the interface or to \<^verbatim>\<open>ip_frag\<close>. Options are not sent
  (\<^verbatim>\<open>IP_OPTIONS_SEND\<close>) and there is no loopback interface in this configuration.
\<close>

unbundle bit_operations_syntax

subsection \<open>The code\<close>

definition LWIP_MAKE_U16 :: "u8 \<Rightarrow> u8 \<Rightarrow> u32" where
  "LWIP_MAKE_U16 a b = push_bit 8 (ucast a) OR ucast b"

text \<open>The header is written field by field while the checksum adds up; \<open>h\<close> is what was there before.\<close>

definition ip_write_hdr :: "u8 \<Rightarrow> u8 \<Rightarrow> u8 \<Rightarrow> u16 \<Rightarrow> u16 \<Rightarrow> ip_addr option \<Rightarrow> ip_addr \<Rightarrow> bytes \<Rightarrow> bytes" where
  "ip_write_hdr ttl tos proto tot_len ipid src dest h0 =
     (let h1 = IPH_PROTO_SET proto (IPH_TTL_SET ttl h0);
          c1 = LWIP_MAKE_U16 proto ttl;
          h2 = iph_dest_set dest h1;
          c2 = c1 + (iph_dest h2 AND 0xffff) + drop_bit 16 (iph_dest h2);
          h3 = IPH_TOS_SET tos (IPH_VHL_SET 4 (20 div 4) h2);
          c3 = c2 + LWIP_MAKE_U16 tos (h3 ! 0);
          h4 = IPH_LEN_SET (lwip_htons tot_len) h3;
          c4 = c3 + ucast (IPH_LEN h4);
          h5 = IPH_ID_SET (lwip_htons ipid) (IPH_OFFSET_SET 0 h4);
          c5 = c4 + ucast (IPH_ID h5);
          h6 = iph_src_set (case src of None \<Rightarrow> IPADDR_ANY | Some a \<Rightarrow> a) h5;
          c6 = c5 + (iph_src h6 AND 0xffff) + drop_bit 16 (iph_src h6);
          c7 = drop_bit 16 c6 + (c6 AND 0xffff);
          c8 = drop_bit 16 c7 + c7
      in IPH_CHKSUM_SET (ucast (NOT c8)) h6)"

text \<open>
  The first half of \<^verbatim>\<open>ip_output_if_src\<close>: it returns an error, or the packet with its header and its
  destination. A NULL destination is \<^verbatim>\<open>IP_HDRINCL\<close>: the packet has its header already.
\<close>

definition ip_make_hdr ::
    "chain \<Rightarrow> ip_addr option \<Rightarrow> ip_addr option \<Rightarrow> u8 \<Rightarrow> u8 \<Rightarrow> u8 \<Rightarrow> stack \<Rightarrow>
     (err_t \<times> chain \<times> stack + chain \<times> ip_addr \<times> stack) res" where
  "ip_make_hdr p src dest ttl tos proto st =
     (case dest of
        None \<Rightarrow> res_bind (rd_iphdr p) (\<lambda>h. Ok (Inr (p, iph_dest h, st)))
      | Some d \<Rightarrow>
          res_bind (pbuf_header p (int IP_HLEN)) (\<lambda>(r, p1).
            if r \<noteq> 0 then Ok (Inl (ERR_BUF, p1, STATS_INC S_ip S_err st))
            else if \<not> pb_len (hd p1) \<ge> IP_HLEN then Stop Assert
            else
              res_bind (rd_iphdr p1) (\<lambda>h.
              res_bind (wr_hdr 0 (ip_write_hdr ttl tos proto (of_nat (pb_tot_len (hd p1))) (ip_id st) src d h) p1) (\<lambda>p2.
                Ok (Inr (p2, d, st\<lparr>ip_id := ip_id st + 1\<rparr>))))))"

definition ip_output_if_src ::
    "ip_env \<Rightarrow> ('s, 'o) netifs \<Rightarrow> chain \<Rightarrow> ip_addr option \<Rightarrow> ip_addr option \<Rightarrow> u8 \<Rightarrow> u8 \<Rightarrow> u8 \<Rightarrow> nat \<Rightarrow> stack \<Rightarrow>
     (err_t \<times> chain \<times> stack) res option" where
  "ip_output_if_src e nf p src dest ttl tos proto n st =
     (case p of
        [] \<Rightarrow> Some (Stop Fault)
      | q # _ \<Rightarrow>
          if pb_ref q \<noteq> 1 then Some (Stop Assert)
          else
            (case ip_make_hdr p src dest ttl tos proto st of
               Stop x \<Rightarrow> Some (Stop x)
             | Ok (Inl r) \<Rightarrow> Some (Ok r)
             | Ok (Inr (p', d, st1)) \<Rightarrow>
                 let st2 = STATS_INC S_ip S_xmit st1; mtu = nif_mtu (nf_obj nf n)
                 in if mtu \<noteq> 0 \<and> pb_tot_len (hd p') > unat mtu then ip_frag e nf n p' d st2
                    else Some (res_bind (nw_output e nf n p' d st2) (\<lambda>(err, st3). Ok (err, p', st3)))))"

definition ip_output_if ::
    "ip_env \<Rightarrow> ('s, 'o) netifs \<Rightarrow> chain \<Rightarrow> ip_addr option \<Rightarrow> ip_addr option \<Rightarrow> u8 \<Rightarrow> u8 \<Rightarrow> u8 \<Rightarrow> nat \<Rightarrow> stack \<Rightarrow>
     (err_t \<times> chain \<times> stack) res option" where
  "ip_output_if e nf p src dest ttl tos proto n st =
     (let src_used = (if dest \<noteq> None \<and> (src = None \<or> src = Some IPADDR_ANY) then Some (nif_ip_addr (nf_obj nf n)) else src)
      in ip_output_if_src e nf p src_used dest ttl tos proto n st)"

definition ip_output ::
    "ip_env \<Rightarrow> ('s, 'o) netifs \<Rightarrow> chain \<Rightarrow> ip_addr option \<Rightarrow> ip_addr \<Rightarrow> u8 \<Rightarrow> u8 \<Rightarrow> u8 \<Rightarrow> stack \<Rightarrow>
     (err_t \<times> chain \<times> stack) res option" where
  "ip_output e nf p src dest ttl tos proto st =
     (case p of
        [] \<Rightarrow> Some (Stop Fault)
      | q # _ \<Rightarrow>
          if pb_ref q \<noteq> 1 then Some (Stop Assert)
          else
            (case ip_route dest nf of
               None \<Rightarrow> None
             | Some None \<Rightarrow> Some (Ok (ERR_RTE, p, STATS_INC S_ip S_rterr st))
             | Some (Some n) \<Rightarrow> ip_output_if e nf p src (Some dest) ttl tos proto n st))"

subsection \<open>The checksum of the header\<close>

lemma unat_LWIP_MAKE_U16: "unat (LWIP_MAKE_U16 a b) = unat b + 256 * unat a"
proof -
  have "LWIP_MAKE_U16 a b = u32_of b a 0 0"
    unfolding LWIP_MAKE_U16_def by (rule bit_word_eqI) (auto simp: bit_u32_of bit_simps dest: bit_imp_le_length)
  then show ?thesis by (simp add: unat_u32_of)
qed

lemma unat_halves:
  "unat (u32_of a b c d AND 0xffff) = unat a + 256 * unat b" "unat (drop_bit 16 (u32_of a b c d)) = unat c + 256 * unat d"
proof -
  have m: "(0xffff :: u32) = mask 16" by (simp add: mask_eq_exp_minus_1)
  have "u32_of a b c d AND mask 16 = u32_of a b 0 0"
    by (rule bit_word_eqI) (auto simp: bit_u32_of bit_simps dest: bit_imp_le_length)
  then show "unat (u32_of a b c d AND 0xffff) = unat a + 256 * unat b" unfolding m by (simp add: unat_u32_of)
  have "drop_bit 16 (u32_of a b c d) = u32_of c d 0 0"
    by (rule bit_word_eqI) (auto simp: bit_u32_of bit_simps dest: bit_imp_le_length)
  then show "unat (drop_bit 16 (u32_of a b c d)) = unat c + 256 * unat d" by (simp add: unat_u32_of)
qed

lemma ucast_fold: "(ucast (drop_bit 16 x + x) :: u16) = ucast (FOLD_U32T x)"
proof (rule unsigned_word_eqI)
  have u: "unat (ucast y :: u16) = unat y mod 65536" for y :: u32 by (simp add: unsigned_ucast_eq take_bit_eq_mod)
  have "unat (drop_bit 16 x + x) mod 65536 = (unat (drop_bit 16 x) + unat x) mod 2 ^ 32 mod 2 ^ 16" by (simp add: unat_word_ariths)
  also have "\<dots> = (unat x div 65536 + unat x) mod 65536" by (subst mod_mod_cancel) (simp_all add: drop_bit_eq_div unat_div)
  finally show "unat (ucast (drop_bit 16 x + x) :: u16) = unat (ucast (FOLD_U32T x) :: u16)"
    by (simp add: u unat_FOLD mod_simps)
qed

lemma unat_sum_list: "sum_list (map unat ws) < 2 ^ 32 \<Longrightarrow> unat (sum_list ws :: u32) = sum_list (map unat ws)"
  by (induction ws) (simp_all add: unat_add_u32)

text \<open>The header that is written, with the checksum that \<^verbatim>\<open>inet_chksum\<close> gives for it.\<close>

definition ip_hdr_of :: "u8 \<Rightarrow> u8 \<Rightarrow> u8 \<Rightarrow> u16 \<Rightarrow> u16 \<Rightarrow> ip_addr \<Rightarrow> ip_addr \<Rightarrow> bytes" where
  "ip_hdr_of ttl tos proto tot_len ipid src dest =
     mk_iphdr 0x45 tos (lwip_htons tot_len) (lwip_htons ipid) 0 ttl proto
       (inet_chksum 0 (mk_iphdr 0x45 tos (lwip_htons tot_len) (lwip_htons ipid) 0 ttl proto 0 src dest)) src dest"

lemma ip_inline_chksum:
  fixes ttl tos proto :: u8 and len ipid :: u16 and src dest :: ip_addr
  defines "c \<equiv> LWIP_MAKE_U16 proto ttl + (dest AND 0xffff) + drop_bit 16 dest + LWIP_MAKE_U16 tos 0x45 + ucast len + ucast ipid +
    (src AND 0xffff) + drop_bit 16 src"
  shows "ucast (NOT (drop_bit 16 (FOLD_U32T c) + FOLD_U32T c)) = inet_chksum 0 (mk_iphdr 0x45 tos len ipid 0 ttl proto 0 src dest)"
proof -
  obtain a0 a1 a2 a3 where s: "src = u32_of a0 a1 a2 a3" by (rule u32_of_cases)
  obtain b0 b1 b2 b3 where d: "dest = u32_of b0 b1 b2 b3" by (rule u32_of_cases)
  obtain l0 l1 where l: "len = u16_of l0 l1" by (rule u16_of_cases)
  obtain i0 i1 where i: "ipid = u16_of i0 i1" by (rule u16_of_cases)
  let ?h = "mk_iphdr 0x45 tos len ipid 0 ttl proto 0 src dest"
  have z: "byte_of k (0 :: u16) = 0" for k by (simp add: byte_of_def)
  have "unat c = le_sum ?h"
  proof -
    let ?ws = "[LWIP_MAKE_U16 proto ttl, dest AND 0xffff, drop_bit 16 dest, LWIP_MAKE_U16 tos 0x45, ucast len, ucast ipid,
      src AND 0xffff, drop_bit 16 src]"
    have b: "unat (x :: u8) \<le> 255" for x using unat_u8_less [of x] by linarith
    have m: "map unat ?ws = [unat ttl + 256 * unat proto, unat b0 + 256 * unat b1, unat b2 + 256 * unat b3, 69 + 256 * unat tos,
        unat l0 + 256 * unat l1, unat i0 + 256 * unat i1, unat a0 + 256 * unat a1, unat a2 + 256 * unat a3]"
      by (simp add: s d l i unat_halves unat_LWIP_MAKE_U16 unat_u16_of)
    then have "sum_list (map unat ?ws) = le_sum ?h"
      by (simp only:) (simp add: mk_iphdr_def le16_def le32_def s d l i z)
    moreover have "sum_list (map unat ?ws) < 2 ^ 32"
      unfolding m using b [of ttl] b [of proto] b [of b0] b [of b1] b [of b2] b [of b3] b [of tos] b [of l0] b [of l1] b [of i0] b [of i1]
        b [of a0] b [of a1] b [of a2] b [of a3] by (simp only: sum_list_simps) simp
    moreover have "c = sum_list ?ws" by (simp add: c_def ac_simps)
    ultimately show ?thesis using unat_sum_list [of ?ws] by simp
  qed
  then have "ones_eq (unat (ucast (FOLD_U32T (FOLD_U32T c)) :: u16)) (le_sum ?h)"
    using ones_eq_trans [OF FOLD_eq FOLD_eq, of c] by (simp only: unat_ucast_to_u16 [OF FOLD_FOLD_le])
  from rfc1071I [OF this] have "ucast (FOLD_U32T (FOLD_U32T c)) = lwip_htons (rfc1071_sum ?h)" .
  moreover have "(ucast (NOT x) :: u16) = NOT (ucast x)" for x :: u32 by (rule bit_word_eqI) (auto simp: bit_simps)
  ultimately show ?thesis by (simp add: ucast_fold inet_chksum_rfc)
qed

lemma ip_write_hdr_eq:
  assumes "length h = 20"
  shows "ip_write_hdr ttl tos proto tot_len ipid src dest h = ip_hdr_of ttl tos proto tot_len ipid (case src of None \<Rightarrow> 0 | Some a \<Rightarrow> a) dest"
proof -
  obtain vhl tos' len ipid' off ttl' proto' chk src' dest' where h: "h = mk_iphdr vhl tos' len ipid' off ttl' proto' chk src' dest'"
    by (rule iphdr_cases [OF assms])
  have n: "mk_iphdr vhl tos len ipid off ttl proto chk src dest ! 0 = vhl" for vhl tos len ipid off ttl proto chk src dest
    by (simp add: mk_iphdr_def)
  have v: "(push_bit 4 4 OR 20 div 4 :: u8) = 0x45" by code_simp
  show ?thesis
    unfolding ip_write_hdr_def h ip_hdr_of_def Let_def
    by (simp only: iph_set_mk iph_get_mk n v FOLD_U32T_def [symmetric] ip_inline_chksum)
qed

lemma length_ip_hdr_of [simp]: "length (ip_hdr_of ttl tos proto tot_len ipid src dest) = 20"
  by (simp add: ip_hdr_of_def)

lemma ip_hdr_of_sum_ok: "iph_sum_ok (ip_hdr_of ttl tos proto tot_len ipid src dest)"
  unfolding ip_hdr_of_def by (rule iph_chksum_ok)

subsection \<open>Packets that are sent\<close>

lemma pbuf_header_reveal:
  assumes "chain_wf (q # qs)" and "0 < n" and "n \<le> pb_off q" and "pb_type q = PBUF_RAM \<or> pb_type q = PBUF_POOL"
    and "pb_tot_len q + n < 65536"
  defines "q' \<equiv> q\<lparr>pb_off := pb_off q - n, pb_len := pb_len q + n, pb_tot_len := pb_tot_len q + n\<rparr>"
  shows "pbuf_header (q # qs) (int n) = Ok (0, q' # qs)" and "chain_wf (q' # qs)"
    and "pb_payload q' = take n (drop (pb_off q - n) (pb_mem q)) @ pb_payload q"
proof -
  have q: "pbuf_wf q" "pb_tot_len q = pb_len q + chain_tot qs" "chain_wf qs" using assms(1) by auto
  have m: "nat ((int (pb_len q) + int n) mod 65536) = pb_len q + n" "nat ((int (pb_tot_len q) + int n) mod 65536) = pb_tot_len q + n"
    using assms(5) q(2) by (simp_all flip: of_nat_add)
  show "pbuf_header (q # qs) (int n) = Ok (0, q' # qs)"
    using assms(2-4) by (auto simp: pbuf_header_def Let_def m q'_def nat_diff_distrib)
  show "chain_wf (q' # qs)" using q assms(3,5) by (auto simp: q'_def pbuf_wf_def)
  have "take (pb_len q + n) (drop (pb_off q - n) (pb_mem q)) =
      take n (drop (pb_off q - n) (pb_mem q)) @ take (pb_len q) (drop n (drop (pb_off q - n) (pb_mem q)))"
    by (metis add.commute take_add)
  then show "pb_payload q' = take n (drop (pb_off q - n) (pb_mem q)) @ pb_payload q"
    using assms(3) by (simp add: pb_payload_def q'_def)
qed

text \<open>A packet with room for the IP header in its first pbuf.\<close>

definition ip_ready :: "chain \<Rightarrow> bool" where
  "ip_ready p \<longleftrightarrow> (case p of [] \<Rightarrow> False | q # _ \<Rightarrow>
     chain_wf p \<and> 20 \<le> pb_off q \<and> (pb_type q = PBUF_RAM \<or> pb_type q = PBUF_POOL) \<and> pb_tot_len q + 20 < 65536 \<and> pb_ref q = 1)"

definition ip_packet :: "u8 \<Rightarrow> u8 \<Rightarrow> u8 \<Rightarrow> u16 \<Rightarrow> ip_addr \<Rightarrow> ip_addr \<Rightarrow> bytes \<Rightarrow> bytes" where
  "ip_packet ttl tos proto ipid src dest d = ip_hdr_of ttl tos proto (of_nat (length d + 20)) ipid src dest @ d"

lemma ip_make_hdr_ok:
  assumes "ip_ready p"
  shows "\<exists>q. ip_make_hdr p src (Some dest) ttl tos proto st = Ok (Inr (q # tl p, dest, st\<lparr>ip_id := ip_id st + 1\<rparr>)) \<and>
    chain_wf (q # tl p) \<and> pb_len q = pb_len (hd p) + 20 \<and> pb_ref q = 1 \<and> pb_type q = pb_type (hd p) \<and>
    chain_data (q # tl p) = ip_packet ttl tos proto (ip_id st) (case src of None \<Rightarrow> 0 | Some a \<Rightarrow> a) dest (chain_data p)"
proof -
  obtain q qs where p: "p = q # qs" using assms by (cases p) (simp_all add: ip_ready_def)
  have r: "chain_wf (q # qs)" "20 \<le> pb_off q" "pb_type q = PBUF_RAM \<or> pb_type q = PBUF_POOL" "pb_tot_len q + 20 < 65536" "pb_ref q = 1"
    using assms by (simp_all add: ip_ready_def p)
  let ?q = "q\<lparr>pb_off := pb_off q - 20, pb_len := pb_len q + 20, pb_tot_len := pb_tot_len q + 20\<rparr>"
  note rev = pbuf_header_reveal [OF r(1) _ r(2-4)]
  have h: "pbuf_header (q # qs) (int 20) = Ok (0, ?q # qs)" "chain_wf (?q # qs)" by (rule rev(1), simp) (rule rev(2), simp)
  have pl: "pb_payload ?q = take 20 (drop (pb_off q - 20) (pb_mem q)) @ pb_payload q" by (rule rev(3)) simp
  have rd: "rd_iphdr (?q # qs) = Ok (take 20 (chain_data (?q # qs)))" by (rule rd_iphdr_data [OF h(2)]) simp
  let ?hdr = "ip_hdr_of ttl tos proto (of_nat (pb_tot_len q + 20)) (ip_id st) (case src of None \<Rightarrow> 0 | Some a \<Rightarrow> a) dest"
  have "length (take 20 (chain_data (?q # qs))) = 20"
    using length_chain_data [OF h(2)] by (simp only: length_take chain_tot_simps) simp
  then have wh: "ip_write_hdr ttl tos proto (of_nat (pb_tot_len q + 20)) (ip_id st) src dest (take 20 (chain_data (?q # qs))) = ?hdr"
    by (rule ip_write_hdr_eq)
  note w = wr_hdr_ok [OF h(2), of ?hdr]
  have "chain_tot (q # qs) = length (chain_data p)" using length_chain_data [OF r(1)] p by simp
  moreover have "length (take 20 (drop (pb_off q - 20) (pb_mem q))) = 20" using r(1,2) by (auto simp: pbuf_wf_def)
  ultimately have d: "chain_data (pb_put 0 ?hdr ?q # qs) =
      ip_packet ttl tos proto (ip_id st) (case src of None \<Rightarrow> 0 | Some a \<Rightarrow> a) dest (chain_data p)"
    using w(3) pl by (simp add: ip_packet_def p)
  have m: "ip_make_hdr p src (Some dest) ttl tos proto st = Ok (Inr (pb_put 0 ?hdr ?q # qs, dest, st\<lparr>ip_id := ip_id st + 1\<rparr>))"
    using h(1) rd w(1) wh by (simp add: ip_make_hdr_def p)
  define q2 where "q2 = pb_put 0 ?hdr ?q"
  have "pb_len q2 = pb_len q + 20" "pb_ref q2 = 1" "pb_type q2 = pb_type q" using r(5) by (simp_all add: q2_def)
  moreover have "chain_wf (q2 # qs)" unfolding q2_def by (rule w(2)) simp
  ultimately show ?thesis using d m unfolding q2_def [symmetric] by (intro exI [of _ q2]) (simp add: p)
qed

lemma length_ip_packet [simp]: "length (ip_packet ttl tos proto ipid src dest d) = length d + 20"
  by (simp add: ip_packet_def)

lemma ip_ready_tot: "ip_ready p \<Longrightarrow> chain_tot p = length (chain_data p) \<and> length (chain_data p) + 20 < 65536 \<and> p \<noteq> []"
  by (cases p) (auto simp: ip_ready_def dest!: length_chain_data)

text \<open>A packet that fits is given to the interface as it is.\<close>

lemma ip_output_if_src_fits:
  assumes "ip_ready p" and "nif_output (nf_obj nf n) \<noteq> None"
    and "nif_mtu (nf_obj nf n) = 0 \<or> length (chain_data p) + 20 \<le> unat (nif_mtu (nf_obj nf n))"
  shows "\<exists>p' st'. ip_output_if_src e nf p src (Some dest) ttl tos proto n st = Some (Ok (ie_out e (nw_calls st), p', st')) \<and>
    chain_wf p' \<and> chain_data p' = ip_packet ttl tos proto (ip_id st) (case src of None \<Rightarrow> 0 | Some a \<Rightarrow> a) dest (chain_data p) \<and>
    frag_frame (st\<lparr>ip_id := ip_id st + 1\<rparr>) st' \<and> nw_sent st' = nw_sent st @ [(n, p', dest)]"
proof -
  obtain q where q: "ip_make_hdr p src (Some dest) ttl tos proto st = Ok (Inr (q # tl p, dest, st\<lparr>ip_id := ip_id st + 1\<rparr>))"
    "chain_wf (q # tl p)" "chain_data (q # tl p) = ip_packet ttl tos proto (ip_id st) (case src of None \<Rightarrow> 0 | Some a \<Rightarrow> a) dest (chain_data p)"
    using ip_make_hdr_ok [OF assms(1)] by blast
  have "pb_tot_len q = length (chain_data p) + 20" using length_chain_data [OF q(2)] unfolding q(3) by simp
  moreover obtain r rs where p: "p = r # rs" "pb_ref r = 1" using assms(1) by (cases p) (simp_all add: ip_ready_def)
  ultimately show ?thesis using q assms(2,3)
    by (intro exI [of _ "q # tl p"] exI [of _ "called ((STATS_INC S_ip S_xmit (st\<lparr>ip_id := ip_id st + 1\<rparr>))\<lparr>nw_sent := nw_sent st @ [(n, q # tl p, dest)]\<rparr>)"])
      (auto simp: ip_output_if_src_def nw_output_def STATS_INC_def called_def frag_frame_def)
qed

text \<open>A packet that is too big is cut up.\<close>

lemma ip_output_if_src_frags:
  fixes nf :: "('s, 'o) netifs"
  assumes "ip_ready p" and "nif_output (nf_obj nf n) \<noteq> None" and "env_mem e"
    and "44 \<le> unat (nif_mtu (nf_obj nf n))" and "unat (nif_mtu (nf_obj nf n)) < length (chain_data p) + 20"
    and "\<forall>q\<in>set (tl p). 20 \<le> pb_len q \<and> pb_ref q < 65535"
  shows "\<exists>fs c st'. ip_output_if_src e nf p src (Some dest) ttl tos proto n st = Some (Ok (ERR_OK, c, st')) \<and>
    frag_frame (st\<lparr>ip_id := ip_id st + 1\<rparr>) st' \<and>
    nw_sent st' = nw_sent st @ map (\<lambda>f. (n, f, dest)) fs \<and> list_all chain_wf fs \<and>
    map chain_data fs = rfc791_frags (ip_hdr_of ttl tos proto (of_nat (length (chain_data p) + 20)) (ip_id st)
      (case src of None \<Rightarrow> 0 | Some a \<Rightarrow> a) dest) (unat (nif_mtu (nf_obj nf n))) 0 (chain_data p)"
proof -
  let ?src = "case src of None \<Rightarrow> 0 | Some a \<Rightarrow> a" and ?mtu = "unat (nif_mtu (nf_obj nf n))"
  obtain q where q: "ip_make_hdr p src (Some dest) ttl tos proto st = Ok (Inr (q # tl p, dest, st\<lparr>ip_id := ip_id st + 1\<rparr>))"
    "chain_wf (q # tl p)" "pb_len q = pb_len (hd p) + 20" "pb_ref q = 1"
    "chain_data (q # tl p) = ip_packet ttl tos proto (ip_id st) ?src dest (chain_data p)"
    using ip_make_hdr_ok [OF assms(1)] by blast
  have tot: "pb_tot_len q = length (chain_data p) + 20" using length_chain_data [OF q(2)] unfolding q(5) by simp
  have "IPH_OFFSET (ip_hdr_of ttl tos proto l ipid s d) = 0" for l ipid s d by (simp add: ip_hdr_of_def)
  moreover have "lwip_ntohs 0 = 0" by (simp add: lwip_ntohs_def lwip_htons_def)
  ultimately have "fraggable (q # tl p)" using q(2-4) assms(6) unfolding fraggable_def q(5) by (simp add: ip_packet_def)
  from ip_frag_ok [OF assms(3,2,4) this, of dest "STATS_INC S_ip S_xmit (st\<lparr>ip_id := ip_id st + 1\<rparr>)"]
  obtain fs c st' where f: "ip_frag e nf n (q # tl p) dest (STATS_INC S_ip S_xmit (st\<lparr>ip_id := ip_id st + 1\<rparr>)) = Some (Ok (ERR_OK, c, st'))"
    "frag_frame (STATS_INC S_ip S_xmit (st\<lparr>ip_id := ip_id st + 1\<rparr>)) st'"
    "nw_sent st' = nw_sent (STATS_INC S_ip S_xmit (st\<lparr>ip_id := ip_id st + 1\<rparr>)) @ map (\<lambda>f. (n, f, dest)) fs" "list_all chain_wf fs"
    "map chain_data fs = rfc791_frags (take 20 (chain_data (q # tl p))) ?mtu 0 (drop 20 (chain_data (q # tl p)))" by blast
  have "frag_frame (st\<lparr>ip_id := ip_id st + 1\<rparr>) st'" by (rule frag_frame_trans [OF _ f(2)]) simp
  moreover have "nif_mtu (nf_obj nf n) \<noteq> 0" using assms(4) by auto
  moreover obtain r rs where p: "p = r # rs" "pb_ref r = 1" using assms(1) by (cases p) (simp_all add: ip_ready_def)
  ultimately show ?thesis using f(1,3,4,5) q(1) assms(5) tot unfolding q(5)
    by (intro exI [of _ fs] exI [of _ c] exI [of _ st']) (simp add: ip_output_if_src_def Let_def ip_packet_def STATS_INC_def)
qed

end
