(* ===== verification/Icmp.thy ===== *)
theory Icmp
  imports Ip_Output
begin

text \<open>
  \<^verbatim>\<open>lwip/src/core/ipv4/icmp.c\<close>: the answer to an echo request and the error messages. A function
  that sends has no value when sending does not return.
\<close>

unbundle bit_operations_syntax

subsection \<open>The code\<close>

abbreviation (input) ICMP_ER :: u8 where "ICMP_ER \<equiv> 0"
abbreviation (input) ICMP_DUR :: u8 where "ICMP_DUR \<equiv> 3"
abbreviation (input) ICMP_ECHO :: u8 where "ICMP_ECHO \<equiv> 8"
abbreviation (input) ICMP_TE :: u8 where "ICMP_TE \<equiv> 11"
abbreviation (input) ICMP_TTL :: u8 where "ICMP_TTL \<equiv> 255"

datatype icmp_dur_type = ICMP_DUR_NET | ICMP_DUR_HOST | ICMP_DUR_PROTO | ICMP_DUR_PORT | ICMP_DUR_FRAG | ICMP_DUR_SR

datatype icmp_te_type = ICMP_TE_TTL | ICMP_TE_FRAG

primrec dur_code :: "icmp_dur_type \<Rightarrow> u8" where
  "dur_code ICMP_DUR_NET = 0"
| "dur_code ICMP_DUR_HOST = 1"
| "dur_code ICMP_DUR_PROTO = 2"
| "dur_code ICMP_DUR_PORT = 3"
| "dur_code ICMP_DUR_FRAG = 4"
| "dur_code ICMP_DUR_SR = 5"

primrec te_code :: "icmp_te_type \<Rightarrow> u8" where
  "te_code ICMP_TE_TTL = 0"
| "te_code ICMP_TE_FRAG = 1"

definition icmp_send_response :: "ip_env \<Rightarrow> ('s, 'o) netifs \<Rightarrow> chain \<Rightarrow> u8 \<Rightarrow> u8 \<Rightarrow> stack \<Rightarrow> stack run" where
  "icmp_send_response e nf p type code st =
     run_res (nw_alloc e PBUF_IP (8 + IP_HLEN + 8) PBUF_RAM st) (\<lambda>(r, st1).
       case r of
         None \<Rightarrow> Some (Ok st1)
       | Some q \<Rightarrow>
           if \<not> pb_len (hd q) \<ge> 8 + IP_HLEN + 8 then Some (Stop Assert)
           else
             (case p of
                [] \<Rightarrow> Some (Stop Fault)
              | p0 # _ \<Rightarrow>
                  run_res (rdn (pb_mem p0) (pb_off p0) (IP_HLEN + 8)) (\<lambda>orig.
                  let msg = [type, code, 0, 0, 0, 0, 0, 0] @ orig
                  in run_res (wr_hdr 0 msg q) (\<lambda>q1.
                     run_res (wr_hdr 2 (le16 (inet_chksum (ie_adr e (hd q1)) msg)) q1) (\<lambda>q2.
                     run_bind (ip_output e nf q2 None (iph_src orig) ICMP_TTL 0 IP_PROTO_ICMP (STATS_INC S_icmp S_xmit st1)) (\<lambda>(_, q3, st2).
                     Some (nw_free q3 st2)))))))"

definition icmp_dest_unreach :: "ip_env \<Rightarrow> ('s, 'o) netifs \<Rightarrow> chain \<Rightarrow> icmp_dur_type \<Rightarrow> stack \<Rightarrow> stack run" where
  "icmp_dest_unreach e nf p t st = icmp_send_response e nf p ICMP_DUR (dur_code t) st"

definition icmp_time_exceeded :: "ip_env \<Rightarrow> ('s, 'o) netifs \<Rightarrow> chain \<Rightarrow> icmp_te_type \<Rightarrow> stack \<Rightarrow> stack run" where
  "icmp_time_exceeded e nf p t st = icmp_send_response e nf p ICMP_TE (te_code t) st"

text \<open>
  Room for the headers in front of an echo request: the packet itself, or a copy of it. The
  payload pointer is at the ICMP header, \<open>hlen\<close> bytes behind the IP header. No packet in the result
  is the \<^verbatim>\<open>memerr\<close> exit.
\<close>

definition icmp_echo_room :: "ip_env \<Rightarrow> chain \<Rightarrow> nat \<Rightarrow> stack \<Rightarrow> (chain option \<times> chain \<times> stack) res" where
  "icmp_echo_room e p hlen st =
     res_bind (pbuf_header p (20 + 16)) (\<lambda>(c, p1).
       if c \<noteq> 0 then
         res_bind (pbuf_header p1 (int hlen)) (\<lambda>(c, p2).
           if c \<noteq> 0 then Stop Assert
           else
             res_bind (nw_alloc e PBUF_LINK (pb_tot_len (hd p2)) PBUF_RAM st) (\<lambda>(r, st1).
               case r of
                 None \<Rightarrow> Ok (None, p2, st1)
               | Some r \<Rightarrow>
                   if \<not> pb_len (hd r) \<ge> hlen + 8 then Stop Assert
                   else
                     res_bind (pbuf_copy r p2) (\<lambda>r1.
                     res_bind (pbuf_header r1 (- int hlen)) (\<lambda>(c, r2).
                       if c \<noteq> 0 then Stop Assert
                       else res_bind (nw_free p2 st1) (\<lambda>st2. Ok (Some r2, [], st2))))))
       else
         res_bind (pbuf_header p1 (- (20 + 16))) (\<lambda>(c, p2). if c \<noteq> 0 then Stop Assert else Ok (Some p2, [], st)))"

text \<open>The adjusted checksum, in memory order.\<close>

definition icmp_adjust :: "u16 \<Rightarrow> u16" where
  "icmp_adjust chk =
     (if chk \<ge> lwip_htons (0xffff - push_bit 8 (ucast ICMP_ECHO)) then chk + lwip_htons (push_bit 8 (ucast ICMP_ECHO)) + 1
      else chk + lwip_htons (push_bit 8 (ucast ICMP_ECHO)))"

text \<open>The request is turned into the reply in place and sent back.\<close>

definition icmp_echo_reply ::
    "ip_env \<Rightarrow> ('s, 'o) netifs \<Rightarrow> nat \<Rightarrow> ip_addr \<Rightarrow> ip_addr \<Rightarrow> nat \<Rightarrow> chain \<Rightarrow> stack \<Rightarrow> stack run" where
  "icmp_echo_reply e nf inp cur_src cur_dest hlen p st =
     (case p of
        [] \<Rightarrow> Some (Stop Fault)
      | q # _ \<Rightarrow>
          if pb_off q < hlen then Some (Stop Fault)
          else
            run_res (rdn (pb_mem q) (pb_off q - hlen) IP_HLEN) (\<lambda>h.
            run_res (rdn (pb_mem q) (pb_off q + 2) 2) (\<lambda>c.
            let h1 = IPH_CHKSUM_SET 0 (IPH_TTL_SET ICMP_TTL (iph_dest_set cur_src (iph_src_set cur_dest h)));
                h2 = IPH_CHKSUM_SET (inet_chksum (ie_adr e q - hlen) h1) h1
            in run_res (wr_hdr (- int hlen) h2 p) (\<lambda>p1.
               run_res (wr_hdr 0 [ICMP_ER] p1) (\<lambda>p2.
               run_res (wr_hdr 2 (le16 (icmp_adjust (u16_of (c ! 0) (c ! 1)))) p2) (\<lambda>p3.
               run_res (pbuf_header p3 (int hlen)) (\<lambda>(r, p4).
                 if r \<noteq> 0 then Some (Stop Assert)
                 else
                   run_bind (ip_output_if e nf p4 (Some cur_dest) None ICMP_TTL 0 IP_PROTO_ICMP inp (STATS_INC S_icmp S_xmit st))
                     (\<lambda>(_, p5, st1). Some (nw_free p5 st1)))))))))"

definition icmp_input :: "ip_env \<Rightarrow> ('s, 'o) netifs \<Rightarrow> nat \<Rightarrow> ip_addr \<Rightarrow> ip_addr \<Rightarrow> nat \<Rightarrow> chain \<Rightarrow> stack \<Rightarrow> stack run" where
  "icmp_input e nf inp cur_src cur_dest hlen p st0 =
     (let st = STATS_INC S_icmp S_recv st0
      in case p of
           [] \<Rightarrow> Some (Stop Fault)
         | q # _ \<Rightarrow>
             if pb_len q < 4 then Some (nw_free p (STATS_INC S_icmp S_lenerr st))
             else
               run_res (rd (pb_mem q) (pb_off q)) (\<lambda>type.
                 if type = ICMP_ER then Some (nw_free p st)
                 else if type = ICMP_ECHO then
                   (if ip_addr_ismulticast cur_dest \<or> ip4_addr_isbroadcast cur_dest (netif.truncate (nf_obj nf inp)) then
                      Some (nw_free p (STATS_INC S_icmp S_err st))
                    else if pb_tot_len q < 8 then Some (nw_free p (STATS_INC S_icmp S_lenerr st))
                    else if inet_chksum_pbuf (ie_adr e) p \<noteq> 0 then Some (nw_free p (STATS_INC S_icmp S_chkerr st))
                    else
                      run_res (icmp_echo_room e p hlen st) (\<lambda>(r, p1, st1).
                        case r of
                          None \<Rightarrow> Some (nw_free p1 (STATS_INC S_icmp S_err st1))
                        | Some p2 \<Rightarrow> icmp_echo_reply e nf inp cur_src cur_dest hlen p2 st1))
                 else Some (nw_free p (STATS_INC S_icmp S_drop (STATS_INC S_icmp S_proterr st)))))"

end
