(* ===== verification/Ip_Reass.thy ===== *)
theory Ip_Reass
  imports Icmp
begin

text \<open>
  Putting fragments together: the reassembly half of \<^verbatim>\<open>lwip/src/core/ipv4/ip_frag.c\<close>. The list
  of datagrams is a list, a datagram is named by its position in it and the predecessor that the
  code passes around is a position too; \<open>None\<close> is NULL.
\<close>

unbundle bit_operations_syntax

subsection \<open>The code\<close>

abbreviation (input) IP_REASS_MAX_PBUFS :: nat where "IP_REASS_MAX_PBUFS \<equiv> 10"
abbreviation (input) IP_REASS_MAXAGE :: nat where "IP_REASS_MAXAGE \<equiv> 3"

definition IP_ADDRESSES_AND_ID_MATCH :: "bytes \<Rightarrow> bytes \<Rightarrow> bool" where
  "IP_ADDRESSES_AND_ID_MATCH a b \<longleftrightarrow> iph_src a = iph_src b \<and> iph_dest a = iph_dest b \<and> IPH_ID a = IPH_ID b"

text \<open>\<^verbatim>\<open>prev->next = ipr->next\<close>; a predecessor that does not come before the datagram would make the list cyclic.\<close>

definition ip_reass_dequeue_datagram :: "nat \<Rightarrow> nat option \<Rightarrow> reassdata list \<Rightarrow> reassdata list res" where
  "ip_reass_dequeue_datagram i prev xs =
     (if i = 0 then Ok (tl xs)
      else case prev of
             None \<Rightarrow> Stop Assert
           | Some j \<Rightarrow> if j < i then Ok (take (Suc j) xs @ drop (Suc i) xs) else Stop Fault)"

fun reass_free_frags :: "frag list \<Rightarrow> nat \<Rightarrow> nat res" where
  "reass_free_frags [] pbufs_freed = Ok pbufs_freed"
| "reass_free_frags (f # fs) pbufs_freed =
     (let clen = pbuf_clen (fr_p f)
      in if \<not> pbufs_freed + clen \<le> 0xffff then Stop Assert
         else res_bind (pbuf_free (fr_p f)) (\<lambda>_. reass_free_frags fs (pbufs_freed + clen)))"

text \<open>
  The first fragment, when it is there, goes out in a message that the time is exceeded; it is
  freed like the others.
\<close>

definition reass_report :: "ip_env \<Rightarrow> ('s, 'o) netifs \<Rightarrow> reassdata \<Rightarrow> stack \<Rightarrow> stack run" where
  "reass_report e nf ipr st =
     (case ra_p ipr of
        [] \<Rightarrow> Some (Stop Fault)
      | f # fs \<Rightarrow>
          if fr_start f = 0 then
            run_res (wr_hdr 0 (ra_iphdr ipr) (fr_p f)) (\<lambda>p. icmp_time_exceeded e nf p ICMP_TE_FRAG st)
          else Some (Ok st))"

definition ip_reass_free_complete_datagram ::
    "ip_env \<Rightarrow> ('s, 'o) netifs \<Rightarrow> nat \<Rightarrow> nat option \<Rightarrow> stack \<Rightarrow> (nat \<times> stack) run" where
  "ip_reass_free_complete_datagram e nf i prev st =
     (if prev = Some i then Some (Stop Assert)
      else if prev \<noteq> None \<and> Suc (the prev) \<noteq> i then Some (Stop Assert)
      else if \<not> i < length (reassdatagrams st) then Some (Stop Fault)
      else
        let ipr = reassdatagrams st ! i
        in run_bind (reass_report e nf ipr st) (\<lambda>st1.
           run_res (reass_free_frags (ra_p ipr) 0) (\<lambda>pbufs_freed.
           run_res (ip_reass_dequeue_datagram i prev (reassdatagrams st1)) (\<lambda>xs.
             if \<not> ip_reass_pbufcount st1 \<ge> pbufs_freed then Some (Stop Assert)
             else Some (Ok (pbufs_freed, st1\<lparr>reassdatagrams := xs, ip_reass_pbufcount := ip_reass_pbufcount st1 - pbufs_freed\<rparr>))))))"

text \<open>The loop of \<^verbatim>\<open>ip_reass_tmr\<close>, with the number of datagrams it has still to visit.\<close>

fun reass_tmr_loop :: "ip_env \<Rightarrow> ('s, 'o) netifs \<Rightarrow> nat \<Rightarrow> nat \<Rightarrow> nat option \<Rightarrow> stack \<Rightarrow> stack run" where
  "reass_tmr_loop e nf 0 r prev st = Some (Ok st)"
| "reass_tmr_loop e nf (Suc n) r prev st =
     (let ipr = reassdatagrams st ! r
      in if ra_timer ipr > 0 then
           reass_tmr_loop e nf n (Suc r) (Some r)
             (st\<lparr>reassdatagrams := (reassdatagrams st)[r := ipr\<lparr>ra_timer := ra_timer ipr - 1\<rparr>]\<rparr>)
         else run_bind (ip_reass_free_complete_datagram e nf r prev st) (\<lambda>(_, st1). reass_tmr_loop e nf n r prev st1))"

definition ip_reass_tmr :: "ip_env \<Rightarrow> ('s, 'o) netifs \<Rightarrow> stack \<Rightarrow> stack run" where
  "ip_reass_tmr e nf st = reass_tmr_loop e nf (length (reassdatagrams st)) 0 None st"

text \<open>
  The search for the oldest datagram of another packet: its position and timer, the pointer
  \<^verbatim>\<open>prev\<close> and the number of other datagrams.
\<close>

fun reass_oldest ::
    "bytes \<Rightarrow> nat \<Rightarrow> reassdata list \<Rightarrow> (nat \<times> nat) option \<Rightarrow> nat option \<Rightarrow> nat \<Rightarrow> (nat \<times> nat) option \<times> nat option \<times> nat" where
  "reass_oldest fraghdr i [] oldest prev others = (oldest, prev, others)"
| "reass_oldest fraghdr i (r # rs) oldest prev others =
     (let oldest' =
            (if \<not> IP_ADDRESSES_AND_ID_MATCH (ra_iphdr r) fraghdr then
               (case oldest of
                  None \<Rightarrow> Some (i, ra_timer r)
                | Some (_, t) \<Rightarrow> if ra_timer r \<le> t then Some (i, ra_timer r) else oldest)
             else oldest);
          others' = (if \<not> IP_ADDRESSES_AND_ID_MATCH (ra_iphdr r) fraghdr then others + 1 else others)
      in reass_oldest fraghdr (Suc i) rs oldest' (if rs \<noteq> [] then Some i else prev) others')"

partial_function (option) reass_remove_loop ::
    "ip_env \<Rightarrow> ('s, 'o) netifs \<Rightarrow> bytes \<Rightarrow> nat \<Rightarrow> nat \<Rightarrow> stack \<Rightarrow> (nat \<times> stack) run" where
  "reass_remove_loop e nf fraghdr pbufs_needed pbufs_freed st =
     (case reass_oldest fraghdr 0 (reassdatagrams st) None None 0 of
        (None, _, _) \<Rightarrow> Some (Ok (pbufs_freed, st))
      | (Some (i, _), prev, other_datagrams) \<Rightarrow>
          (case ip_reass_free_complete_datagram e nf i prev st of
             None \<Rightarrow> None
           | Some (Stop x) \<Rightarrow> Some (Stop x)
           | Some (Ok (n, st1)) \<Rightarrow>
               if pbufs_freed + n < pbufs_needed \<and> other_datagrams > 1
               then reass_remove_loop e nf fraghdr pbufs_needed (pbufs_freed + n) st1
               else Some (Ok (pbufs_freed + n, st1))))"

definition ip_reass_remove_oldest_datagram ::
    "ip_env \<Rightarrow> ('s, 'o) netifs \<Rightarrow> bytes \<Rightarrow> nat \<Rightarrow> stack \<Rightarrow> (nat \<times> stack) run" where
  "ip_reass_remove_oldest_datagram e nf fraghdr pbufs_needed st = reass_remove_loop e nf fraghdr pbufs_needed 0 st"

text \<open>A new datagram is put at the head of the list; the flag tells whether there was memory for it.\<close>

definition ip_reass_enqueue_new_datagram ::
    "ip_env \<Rightarrow> ('s, 'o) netifs \<Rightarrow> bytes \<Rightarrow> nat \<Rightarrow> stack \<Rightarrow> (bool \<times> stack) run" where
  "ip_reass_enqueue_new_datagram e nf fraghdr clen st =
     (let enqueue = (\<lambda>st. st\<lparr>reassdatagrams := \<lparr>ra_p = [], ra_iphdr = fraghdr, ra_datagram_len = 0, ra_lastfrag = False,
                                             ra_timer = IP_REASS_MAXAGE\<rparr> # reassdatagrams st\<rparr>)
      in if ie_memp e (nw_calls st) then Some (Ok (True, enqueue (called st)))
         else
           run_bind (ip_reass_remove_oldest_datagram e nf fraghdr clen (called st)) (\<lambda>(n, st1).
             if n \<ge> clen then
               (if ie_memp e (nw_calls st1) then Some (Ok (True, enqueue (called st1)))
                else Some (Ok (False, STATS_INC S_ip_frag S_memerr (called st1))))
             else Some (Ok (False, STATS_INC S_ip_frag S_memerr st1))))"

text \<open>
  Where a fragment goes: the fragments before it, then itself and those after it, and whether no
  hole was seen on the way; no result when it is thrown away.
\<close>

fun reass_insert :: "frag \<Rightarrow> frag list \<Rightarrow> bool \<Rightarrow> frag list \<Rightarrow> (frag list \<times> frag list \<times> bool) option res" where
  "reass_insert nw pre valid [] =
     (if pre = [] then Ok (Some ([], [nw], valid))
      else if \<not> fr_end (last pre) \<le> fr_start nw then Stop Assert
      else Ok (Some (pre, [nw], valid \<and> fr_end (last pre) = fr_start nw)))"
| "reass_insert nw pre valid (q # qs) =
     (if fr_start nw < fr_start q then
        (if pre \<noteq> [] \<and> (fr_start nw < fr_end (last pre) \<or> fr_end nw > fr_start q) then Ok None
         else Ok (Some (pre, nw # q # qs, valid)))
      else if fr_start nw = fr_start q then Ok None
      else if fr_start nw < fr_end q then Ok None
      else reass_insert nw (pre @ [q]) (valid \<and> (pre = [] \<or> fr_end (last pre) = fr_start q)) qs)"

fun reass_no_holes :: "frag \<Rightarrow> frag list \<Rightarrow> bool" where
  "reass_no_holes f [] = True"
| "reass_no_holes f (q # qs) \<longleftrightarrow> fr_end f = fr_start q \<and> reass_no_holes q qs"

definition frag_offset :: "bytes \<Rightarrow> nat" where
  "frag_offset h = unat (lwip_ntohs (IPH_OFFSET h) AND IP_OFFMASK) * 8"

definition frag_len :: "bytes \<Rightarrow> nat" where
  "frag_len h = (unat (lwip_ntohs (IPH_LEN h)) + 65536 - unat (IPH_HL h) * 4) mod 65536"

text \<open>
  \<^verbatim>\<open>ip_reass_chain_frag_into_datagram_and_validate\<close>: the result, and the datagram; \<open>None\<close> when the
  fragment was not taken.
\<close>

definition ip_reass_chain_frag_into_datagram_and_validate :: "reassdata \<Rightarrow> bytes \<Rightarrow> chain \<Rightarrow> (bool \<times> reassdata) option res" where
  "ip_reass_chain_frag_into_datagram_and_validate ipr h p =
     (let offset = frag_offset h;
          nw = \<lparr>fr_p = p, fr_start = offset, fr_end = (offset + frag_len h) mod 65536\<rparr>
      in res_bind (reass_insert nw [] True (ra_p ipr)) (\<lambda>r.
           case r of
             None \<Rightarrow> Ok None
           | Some (pre, suf, valid) \<Rightarrow>
               let fs = pre @ suf; ipr' = ipr\<lparr>ra_p := fs\<rparr>
               in if ra_lastfrag ipr then
                    (if valid \<and> fr_start (hd fs) = 0 \<and> reass_no_holes nw (tl suf) then
                       (if length fs = 1 then Stop Assert
                        else if fr_end (last fs) \<noteq> ra_datagram_len ipr then Stop Assert
                        else Ok (Some (True, ipr')))
                     else Ok (Some (False, ipr')))
                  else Ok (Some (False, ipr'))))"

text \<open>The fragments joined behind the first one, each without its header.\<close>

fun reass_join :: "chain \<Rightarrow> frag list \<Rightarrow> chain res" where
  "reass_join p [] = Ok p"
| "reass_join p (f # fs) =
     res_bind (pbuf_header (fr_p f) (- int IP_HLEN)) (\<lambda>(_, r). res_bind (pbuf_cat p r) (\<lambda>p'. reass_join p' fs))"

definition reass_hdr :: "nat \<Rightarrow> reassdata \<Rightarrow> bytes" where
  "reass_hdr addr ipr =
     (let h = IPH_CHKSUM_SET 0 (IPH_OFFSET_SET 0 (IPH_LEN_SET (lwip_htons (of_nat (ra_datagram_len ipr + IP_HLEN))) (ra_iphdr ipr)))
      in IPH_CHKSUM_SET (inet_chksum addr h) h)"

definition reass_complete :: "ip_env \<Rightarrow> reassdata \<Rightarrow> chain res" where
  "reass_complete e ipr =
     (case ra_p ipr of
        [] \<Rightarrow> Stop Fault
      | f # fs \<Rightarrow> res_bind (wr_hdr 0 (reass_hdr (ie_adr e (hd (fr_p f))) ipr) (fr_p f)) (\<lambda>p. reass_join p fs))"

definition reass_drop :: "chain \<Rightarrow> stack \<Rightarrow> (chain option \<times> stack) run" where
  "reass_drop p st = run_res (pbuf_free p) (\<lambda>_. Some (Ok (None, STATS_INC S_ip_frag S_drop st)))"

text \<open>The second half of \<^verbatim>\<open>ip_reass\<close>, for the \<open>i\<close>-th datagram.\<close>

definition reass_add :: "ip_env \<Rightarrow> nat \<Rightarrow> bytes \<Rightarrow> chain \<Rightarrow> stack \<Rightarrow> (chain option \<times> stack) res" where
  "reass_add e i h p st =
     (let clen = pbuf_clen p;
          st1 = st\<lparr>ip_reass_pbufcount := u16_add (ip_reass_pbufcount st) clen\<rparr>;
          ipr0 = reassdatagrams st ! i;
          ipr = (if IPH_OFFSET h AND lwip_ntohs IP_MF = 0
                 then ipr0\<lparr>ra_lastfrag := True, ra_datagram_len := (frag_offset h + frag_len h) mod 65536\<rparr> else ipr0)
      in res_bind (ip_reass_chain_frag_into_datagram_and_validate ipr h p) (\<lambda>r.
           case r of
             None \<Rightarrow>
               res_bind (pbuf_free p) (\<lambda>_.
                 Ok (None, st1\<lparr>ip_reass_pbufcount := (ip_reass_pbufcount st1 + 65536 - clen) mod 65536,
                               reassdatagrams := (reassdatagrams st)[i := ipr]\<rparr>))
           | Some (False, ipr') \<Rightarrow> Ok (None, st1\<lparr>reassdatagrams := (reassdatagrams st)[i := ipr']\<rparr>)
           | Some (True, ipr') \<Rightarrow>
               res_bind (reass_complete e ipr') (\<lambda>c.
               res_bind (ip_reass_dequeue_datagram i (if i = 0 then None else Some (i - 1)) ((reassdatagrams st)[i := ipr'])) (\<lambda>xs.
                 Ok (Some c, st1\<lparr>reassdatagrams := xs,
                                 ip_reass_pbufcount := (ip_reass_pbufcount st1 + 65536 - pbuf_clen c) mod 65536\<rparr>)))))"

fun reass_find :: "bytes \<Rightarrow> nat \<Rightarrow> reassdata list \<Rightarrow> nat option" where
  "reass_find fraghdr i [] = None"
| "reass_find fraghdr i (r # rs) = (if IP_ADDRESSES_AND_ID_MATCH (ra_iphdr r) fraghdr then Some i else reass_find fraghdr (Suc i) rs)"

definition ip_reass :: "ip_env \<Rightarrow> ('s, 'o) netifs \<Rightarrow> chain \<Rightarrow> stack \<Rightarrow> (chain option \<times> stack) run" where
  "ip_reass e nf p st0 =
     (let st = STATS_INC S_ip_frag S_recv st0
      in run_res (rd_iphdr p) (\<lambda>h.
           if unat (IPH_HL h) * 4 \<noteq> IP_HLEN then reass_drop p (STATS_INC S_ip_frag S_err st)
           else
             let clen = pbuf_clen p
             in run_bind
                  (if ip_reass_pbufcount st + clen > IP_REASS_MAX_PBUFS
                   then run_bind (ip_reass_remove_oldest_datagram e nf h clen st) (\<lambda>(n, st1).
                          Some (Ok (n = 0 \<or> ip_reass_pbufcount st1 + clen > IP_REASS_MAX_PBUFS, st1)))
                   else Some (Ok (False, st)))
                  (\<lambda>(overflow, st1).
                    if overflow then reass_drop p (STATS_INC S_ip_frag S_memerr st1)
                    else
                      (case reass_find h 0 (reassdatagrams st1) of
                         None \<Rightarrow>
                           run_bind (ip_reass_enqueue_new_datagram e nf h clen st1) (\<lambda>(ok, st2).
                             if \<not> ok then reass_drop p st2 else Some (reass_add e 0 h p st2))
                       | Some i \<Rightarrow>
                           let ipr = reassdatagrams st1 ! i;
                               ipr' = (if frag_offset h = 0 \<and> frag_offset (ra_iphdr ipr) \<noteq> 0 then ipr\<lparr>ra_iphdr := h\<rparr> else ipr)
                           in Some (reass_add e i h p
                                ((STATS_INC S_ip_frag S_cachehit st1)\<lparr>reassdatagrams := (reassdatagrams st1)[i := ipr']\<rparr>))))))"

end
