(* ===== verification/Ip_Reass_Props.thy ===== *)
theory Ip_Reass_Props
  imports Ip_Reass "HOL-Library.Multiset"
begin

text \<open>
  Reassembly puts a datagram together again. The code keeps the fragments of a datagram sorted by
  their offsets and checks for holes only once the last fragment is known, so the lemmas follow a
  datagram through two phases: while fragments with the MF flag arrive, in any order, they are
  collected (the predicate \<open>collecting\<close>); the last one then completes it. The end of the theory
  composes this with \<^verbatim>\<open>ip_frag\<close>: what was cut is put together, byte for byte.
\<close>

unbundle bit_operations_syntax

subsection \<open>State\<close>

lemma stats_called_sel [simp]:
  "reassdatagrams (STATS_INC l k st) = reassdatagrams st" "ip_reass_pbufcount (STATS_INC l k st) = ip_reass_pbufcount st"
  "nw_calls (STATS_INC l k st) = nw_calls st" "nw_sent (STATS_INC l k st) = nw_sent st" "nw_up (STATS_INC l k st) = nw_up st"
  "ip_id (STATS_INC l k st) = ip_id st"
  "udp_pcbs (STATS_INC l k st) = udp_pcbs st" "udp_obj (STATS_INC l k st) = udp_obj st" "udp_port (STATS_INC l k st) = udp_port st"
  "reassdatagrams (called st) = reassdatagrams st" "ip_reass_pbufcount (called st) = ip_reass_pbufcount st"
  "nw_calls (called st) = Suc (nw_calls st)" "nw_sent (called st) = nw_sent st" "nw_up (called st) = nw_up st"
  "ip_id (called st) = ip_id st"
  "udp_pcbs (called st) = udp_pcbs st" "udp_obj (called st) = udp_obj st" "udp_port (called st) = udp_port st"
  by (simp_all add: STATS_INC_def called_def)

subsection \<open>Fragments\<close>

definition pk_hdr :: "chain \<Rightarrow> bytes" where
  "pk_hdr p = take 20 (chain_data p)"

definition pk_data :: "chain \<Rightarrow> bytes" where
  "pk_data p = drop 20 (chain_data p)"

definition pk_start :: "chain \<Rightarrow> nat" where
  "pk_start p = frag_offset (pk_hdr p)"

definition pk_end :: "chain \<Rightarrow> nat" where
  "pk_end p = pk_start p + length (pk_data p)"

definition pk_key :: "bytes \<Rightarrow> ip_addr \<times> ip_addr \<times> u16" where
  "pk_key h = (iph_src h, iph_dest h, IPH_ID h)"

definition frag_of :: "chain \<Rightarrow> frag" where
  "frag_of p = \<lparr>fr_p = p, fr_start = pk_start p, fr_end = pk_end p\<rparr>"

lemma frag_of_sel [simp]: "fr_p (frag_of p) = p" "fr_start (frag_of p) = pk_start p" "fr_end (frag_of p) = pk_end p"
  by (simp_all add: frag_of_def)

text \<open>A fragment without options whose header states its length.\<close>

definition good_frag :: "chain \<Rightarrow> bool" where
  "good_frag p \<longleftrightarrow> chain_wf p \<and> p \<noteq> [] \<and> 20 \<le> pb_len (hd p) \<and> unat (IPH_HL (pk_hdr p)) = 5 \<and>
     unat (lwip_ntohs (IPH_LEN (pk_hdr p))) = length (chain_data p) \<and> 20 < length (chain_data p) \<and> pk_end p < 65516"

definition more_frags :: "chain \<Rightarrow> bool" where
  "more_frags p \<longleftrightarrow> IPH_OFFSET (pk_hdr p) AND lwip_ntohs IP_MF \<noteq> 0"

lemma good_frag_facts:
  assumes "good_frag p"
  shows "rd_iphdr p = Ok (pk_hdr p)" "frag_len (pk_hdr p) = length (pk_data p)" "0 < length (pk_data p)" "length (pk_hdr p) = 20"
    "chain_data p = pk_hdr p @ pk_data p" "chain_tot p = 20 + length (pk_data p)"
proof -
  obtain q qs where p: "p = q # qs" using assms by (cases p) (simp_all add: good_frag_def)
  have g0: "chain_wf p" "20 \<le> pb_len (hd p)" and g3: "20 < length (chain_data p)" using assms by (simp_all add: good_frag_def)
  have g: "chain_wf (q # qs)" "20 \<le> pb_len q" using g0 by (simp_all add: p)
  show "rd_iphdr p = Ok (pk_hdr p)" unfolding p pk_hdr_def by (rule rd_iphdr_data [OF g(1,2)])
  show "0 < length (pk_data p)" "length (pk_hdr p) = 20" using g3 by (simp_all add: pk_data_def pk_hdr_def)
  show d: "chain_data p = pk_hdr p @ pk_data p" by (simp add: pk_hdr_def pk_data_def)
  show "chain_tot p = 20 + length (pk_data p)" using length_chain_data [OF g(1)] g3 by (simp add: p pk_data_def)
  have "length (chain_data p) < 65536" using length_chain_data [OF g(1)] chain_tot_less [OF g(1)] by (simp add: p)
  then show "frag_len (pk_hdr p) = length (pk_data p)"
    using assms g3 u16_diff [of 20 "length (chain_data p)"] by (simp add: frag_len_def good_frag_def pk_data_def)
qed

subsection \<open>Putting a fragment in its place\<close>

definition fr_disj :: "frag \<Rightarrow> frag \<Rightarrow> bool" where
  "fr_disj a b \<longleftrightarrow> fr_end a \<le> fr_start b \<or> fr_end b \<le> fr_start a"

lemma reass_insert_sorted:
  "fr_start nw < fr_end nw \<Longrightarrow> \<forall>q\<in>set qs. fr_start q < fr_end q \<and> fr_disj nw q \<Longrightarrow> pre = [] \<or> fr_end (last pre) \<le> fr_start nw \<Longrightarrow>
     \<exists>pre' suf v. reass_insert nw pre valid qs = Ok (Some (pre', suf, v)) \<and> pre' @ suf = pre @ insort_key fr_start nw qs"
proof (induction qs arbitrary: pre valid)
  case Nil
  then show ?case by auto
next
  case (Cons q qs)
  have q: "fr_start q < fr_end q" "fr_disj nw q" using Cons.prems(2) by simp_all
  show ?case
  proof (cases "fr_start nw < fr_start q")
    case True
    then show ?thesis using q Cons.prems(1,3) by (auto simp: fr_disj_def)
  next
    case False
    then have a: "fr_end q \<le> fr_start nw" "fr_start q < fr_start nw" using q Cons.prems(1) by (auto simp: fr_disj_def)
    then have "\<exists>pre' suf v. reass_insert nw (pre @ [q]) (valid \<and> (pre = [] \<or> fr_end (last pre) = fr_start q)) qs = Ok (Some (pre', suf, v)) \<and>
        pre' @ suf = (pre @ [q]) @ insort_key fr_start nw qs"
      using Cons.prems(1,2) by (intro Cons.IH) simp_all
    then show ?thesis using a by simp
  qed
qed

lemma reass_insert_after:
  "\<forall>q\<in>set qs. fr_start q < fr_start nw \<and> fr_end q \<le> fr_start nw \<Longrightarrow> pre \<noteq> [] \<Longrightarrow> fr_end (last pre) \<le> fr_start nw \<Longrightarrow>
     reass_no_holes (last pre) (qs @ [nw]) \<Longrightarrow> reass_insert nw pre True qs = Ok (Some (pre @ qs, [nw], True))"
  by (induction qs arbitrary: pre) auto

lemma reass_insert_last:
  assumes "\<forall>q\<in>set (f # fs). fr_start q < fr_start nw \<and> fr_end q \<le> fr_start nw" and "reass_no_holes f (fs @ [nw])"
  shows "reass_insert nw [] True (f # fs) = Ok (Some (f # fs, [nw], True))"
  using assms reass_insert_after [of fs nw "[f]"] by auto

subsection \<open>Joining the fragments\<close>

lemma pbuf_cat_loop_length: "pbuf_cat_loop h t tot = Ok c \<Longrightarrow> length c = length h + length t"
  by (induction h t tot arbitrary: c rule: pbuf_cat_loop.induct) (auto split: if_splits)

lemma pbuf_cat_length: "pbuf_cat h t = Ok c \<Longrightarrow> length c = length h + length t"
  by (auto simp: pbuf_cat_def pbuf_cat_loop_length split: list.splits if_splits)

lemma pbuf_header_length: "pbuf_header c n = Ok (r, c') \<Longrightarrow> length c' = length c"
  by (auto simp: pbuf_header_def Let_def split: list.splits if_splits)

lemma reass_join_ok:
  "chain_wf p \<Longrightarrow> p \<noteq> [] \<Longrightarrow> \<forall>x\<in>set ps. good_frag x \<Longrightarrow> chain_tot p + sum_list (map (\<lambda>x. length (pk_data x)) ps) < 65536 \<Longrightarrow>
     \<exists>c. reass_join p (map frag_of ps) = Ok c \<and> chain_wf c \<and> c \<noteq> [] \<and> chain_data c = chain_data p @ concat (map pk_data ps) \<and>
         length c = length p + sum_list (map length ps)"
proof (induction ps arbitrary: p)
  case Nil
  then show ?case by simp
next
  case (Cons x ps)
  obtain q qs where x: "x = q # qs" "chain_wf (q # qs)" "20 \<le> pb_len q" using Cons.prems(3) by (cases x) (auto simp: good_frag_def)
  have d: "chain_data x = pk_hdr x @ pk_data x" "length (pk_hdr x) = 20" using Cons.prems(3) good_frag_facts(4,5) by simp_all
  obtain q' where q': "pbuf_header x (- int 20) = Ok (0, q' # qs)" "chain_wf (q' # qs)" "chain_data (q' # qs) = pk_data x"
    using pbuf_header_hide [OF x(2) zero_less_numeral x(3)] unfolding pk_data_def x(1) by blast
  have "chain_tot (q' # qs) = length (pk_data x)" using length_chain_data [OF q'(2)] unfolding q'(3) by simp
  then have "chain_tot p + chain_tot (q' # qs) < 65536" using Cons.prems(4) by simp
  from pbuf_cat_ok [OF Cons.prems(1) q'(2) Cons.prems(2) _ this] obtain c where c: "pbuf_cat p (q' # qs) = Ok c" "chain_wf c"
    "chain_tot c = chain_tot p + length (pk_data x)" "c \<noteq> []" "chain_data c = chain_data p @ pk_data x"
    using q'(3) \<open>chain_tot (q' # qs) = length (pk_data x)\<close> by auto
  have "chain_tot c + sum_list (map (\<lambda>x. length (pk_data x)) ps) < 65536" using Cons.prems(4) c(3) by simp
  from Cons.IH [OF c(2,4) _ this] Cons.prems(3) obtain c' where c': "reass_join c (map frag_of ps) = Ok c'" "chain_wf c'" "c' \<noteq> []"
    "chain_data c' = chain_data c @ concat (map pk_data ps)" "length c' = length c + sum_list (map length ps)" by auto
  have "length c = length p + length x" using pbuf_cat_length [OF c(1)] x(1) by simp
  then show ?case using c' c(1,5) q'(1) by (intro exI [of _ c']) simp
qed

subsection \<open>The state between two fragments\<close>

definition reass_frame :: "stack \<Rightarrow> stack \<Rightarrow> bool" where
  "reass_frame st0 st \<longleftrightarrow> st\<lparr>reassdatagrams := reassdatagrams st0, ip_reass_pbufcount := ip_reass_pbufcount st0,
     lwip_stats := lwip_stats st0, nw_calls := nw_calls st0\<rparr> = st0"

text \<open>The head of the list collects the fragments \<open>rv\<close>; nothing else has changed since \<open>st0\<close>.\<close>

definition collecting :: "stack \<Rightarrow> chain list \<Rightarrow> reassdata \<Rightarrow> stack \<Rightarrow> bool" where
  "collecting st0 rv ipr st \<longleftrightarrow>
     reassdatagrams st = ipr # reassdatagrams st0 \<and> ra_p ipr = sort_key fr_start (map frag_of rv) \<and> \<not> ra_lastfrag ipr \<and>
     ra_iphdr ipr \<in> pk_hdr ` set rv \<and> ((\<exists>p\<in>set rv. pk_start p = 0) \<longrightarrow> frag_offset (ra_iphdr ipr) = 0) \<and>
     ip_reass_pbufcount st = ip_reass_pbufcount st0 + sum_list (map length rv) \<and> reass_frame st0 st"

lemma pbuf_clen_small: "length p < 256 \<Longrightarrow> pbuf_clen p = length p"
  by (simp add: pbuf_clen_def pbuf_clen_loop_spec)

lemma validate_more:
  assumes "good_frag p" and "\<not> ra_lastfrag ipr" and "\<forall>q\<in>set (ra_p ipr). fr_start q < fr_end q \<and> fr_disj (frag_of p) q"
  shows "ip_reass_chain_frag_into_datagram_and_validate ipr (pk_hdr p) p =
    Ok (Some (False, ipr\<lparr>ra_p := insort_key fr_start (frag_of p) (ra_p ipr)\<rparr>))"
proof -
  have nw: "\<lparr>fr_p = p, fr_start = frag_offset (pk_hdr p), fr_end = (frag_offset (pk_hdr p) + frag_len (pk_hdr p)) mod 65536\<rparr> = frag_of p"
    using assms(1) good_frag_facts(2) [OF assms(1)] by (simp add: frag_of_def pk_start_def pk_end_def good_frag_def)
  have "fr_start (frag_of p) < fr_end (frag_of p)" using good_frag_facts(3) [OF assms(1)] by (simp add: pk_end_def)
  then obtain pre suf v where "reass_insert (frag_of p) [] True (ra_p ipr) = Ok (Some (pre, suf, v))"
    "pre @ suf = insort_key fr_start (frag_of p) (ra_p ipr)" using reass_insert_sorted [of "frag_of p" "ra_p ipr" "[]" True] assms(3) by auto
  then show ?thesis using assms(2) unfolding ip_reass_chain_frag_into_datagram_and_validate_def Let_def nw by simp
qed

lemma reass_add_more:
  assumes "good_frag p" and "more_frags p" and "reassdatagrams st = ipr # rs" and "\<not> ra_lastfrag ipr"
    and "\<forall>q\<in>set (ra_p ipr). fr_start q < fr_end q \<and> fr_disj (frag_of p) q" and "ip_reass_pbufcount st + length p \<le> 10"
  shows "reass_add e 0 (pk_hdr p) p st = Ok (None, st\<lparr>ip_reass_pbufcount := ip_reass_pbufcount st + length p,
    reassdatagrams := ipr\<lparr>ra_p := insort_key fr_start (frag_of p) (ra_p ipr)\<rparr> # rs\<rparr>)"
  using validate_more [OF assms(1,4,5)] assms(2,3,6) by (simp add: reass_add_def Let_def more_frags_def pbuf_clen_small)

lemma ip_reass_nth:
  assumes "good_frag p" and "ip_reass_pbufcount st + length p \<le> 10"
  shows "ip_reass e nf p st =
    (let st1 = STATS_INC S_ip_frag S_recv st; h = pk_hdr p in
     case reass_find h 0 (reassdatagrams st) of
       None \<Rightarrow>
         run_bind (ip_reass_enqueue_new_datagram e nf h (length p) st1) (\<lambda>(ok, st2).
           if \<not> ok then reass_drop p st2 else Some (reass_add e 0 h p st2))
     | Some i \<Rightarrow>
         let ipr = reassdatagrams st ! i;
             ipr' = (if frag_offset h = 0 \<and> frag_offset (ra_iphdr ipr) \<noteq> 0 then ipr\<lparr>ra_iphdr := h\<rparr> else ipr)
         in Some (reass_add e i h p
              ((STATS_INC S_ip_frag S_cachehit st1)\<lparr>reassdatagrams := (reassdatagrams st)[i := ipr']\<rparr>)))"
  using assms good_frag_facts(1) [OF assms(1)]
  by (cases "reass_find (pk_hdr p) 0 (reassdatagrams st)") (simp_all add: ip_reass_def good_frag_def pbuf_clen_small Let_def)

lemma collecting_first:
  assumes "good_frag p" and "more_frags p" and "reass_find (pk_hdr p) 0 (reassdatagrams st) = None" and "ie_memp e (nw_calls st)"
    and "ip_reass_pbufcount st + length p \<le> 10"
  shows "\<exists>st' ipr. ip_reass e nf p st = Some (Ok (None, st')) \<and> collecting st [p] ipr st'"
proof -
  define ipr where "ipr = \<lparr>ra_p = [], ra_iphdr = pk_hdr p, ra_datagram_len = 0, ra_lastfrag = False, ra_timer = 3\<rparr>"
  define st1 where "st1 = (called (STATS_INC S_ip_frag S_recv st))\<lparr>reassdatagrams := ipr # reassdatagrams st\<rparr>"
  have "ip_reass e nf p st = Some (reass_add e 0 (pk_hdr p) p st1)"
    using assms(3,4) by (simp add: ip_reass_nth [OF assms(1,5)] ip_reass_enqueue_new_datagram_def st1_def ipr_def Let_def STATS_INC_def called_def)
  also have "reass_add e 0 (pk_hdr p) p st1 = Ok (None, st1\<lparr>ip_reass_pbufcount := ip_reass_pbufcount st1 + length p,
      reassdatagrams := ipr\<lparr>ra_p := insort_key fr_start (frag_of p) (ra_p ipr)\<rparr> # reassdatagrams st\<rparr>)"
    by (rule reass_add_more [OF assms(1,2)]) (use assms(5) in \<open>simp_all add: st1_def ipr_def called_def STATS_INC_def\<close>)
  finally show ?thesis
    by (auto simp: collecting_def reass_frame_def st1_def ipr_def called_def STATS_INC_def pk_start_def)
qed

lemma collecting_more:
  assumes "collecting st0 rv ipr st" and "good_frag p" and "more_frags p" and "\<forall>q\<in>set rv. pk_key (pk_hdr q) = pk_key (pk_hdr p)"
    and "\<forall>q\<in>set rv. good_frag q \<and> fr_disj (frag_of p) (frag_of q)"
    and "ip_reass_pbufcount st + length p \<le> 10"
  shows "\<exists>st' ipr'. ip_reass e nf p st = Some (Ok (None, st')) \<and> collecting st0 (p # rv) ipr' st'"
proof -
  have c: "reassdatagrams st = ipr # reassdatagrams st0" "ra_p ipr = sort_key fr_start (map frag_of rv)" "\<not> ra_lastfrag ipr"
    "ra_iphdr ipr \<in> pk_hdr ` set rv" "(\<exists>p\<in>set rv. pk_start p = 0) \<longrightarrow> frag_offset (ra_iphdr ipr) = 0"
    "ip_reass_pbufcount st = ip_reass_pbufcount st0 + sum_list (map length rv)" "reass_frame st0 st"
    using assms(1) by (simp_all add: collecting_def)
  define ipr1 where "ipr1 = (if frag_offset (pk_hdr p) = 0 \<and> frag_offset (ra_iphdr ipr) \<noteq> 0 then ipr\<lparr>ra_iphdr := pk_hdr p\<rparr> else ipr)"
  define st1 where "st1 = (STATS_INC S_ip_frag S_cachehit (STATS_INC S_ip_frag S_recv st))\<lparr>reassdatagrams := ipr1 # reassdatagrams st0\<rparr>"
  have "pk_key (ra_iphdr ipr) = pk_key (pk_hdr p)" using c(4) assms(4) by auto
  then have "reass_find (pk_hdr p) 0 (reassdatagrams st) = Some 0" by (simp add: c(1) IP_ADDRESSES_AND_ID_MATCH_def pk_key_def)
  then have "ip_reass e nf p st = Some (reass_add e 0 (pk_hdr p) p st1)"
    by (simp add: ip_reass_nth [OF assms(2,6)] Let_def c(1) st1_def ipr1_def)
  also have "reass_add e 0 (pk_hdr p) p st1 = Ok (None, st1\<lparr>ip_reass_pbufcount := ip_reass_pbufcount st1 + length p,
      reassdatagrams := ipr1\<lparr>ra_p := insort_key fr_start (frag_of p) (ra_p ipr1)\<rparr> # reassdatagrams st0\<rparr>)"
    by (rule reass_add_more [OF assms(2,3)])
      (use assms(5,6) c(2,3) good_frag_facts(3) in \<open>auto simp: st1_def ipr1_def STATS_INC_def pk_end_def\<close>)
  finally show ?thesis using c
    by (auto simp: collecting_def reass_frame_def st1_def ipr1_def STATS_INC_def pk_start_def intro!: image_eqI)
qed

subsection \<open>The whole datagram\<close>

fun contig :: "nat \<Rightarrow> chain list \<Rightarrow> bool" where
  "contig n [] = True"
| "contig n (p # ps) \<longleftrightarrow> pk_start p = n \<and> contig (pk_end p) ps"

lemma contig_append: "contig n (ps @ [l]) \<longleftrightarrow> contig n ps \<and> pk_start l = (if ps = [] then n else pk_end (last ps))"
  by (induction ps arbitrary: n) auto

lemma contig_sorted: "contig n ps \<Longrightarrow> sorted_wrt (\<lambda>p q. pk_end p \<le> pk_start q) ps \<and> (\<forall>p\<in>set ps. n \<le> pk_start p)"
proof (induction ps arbitrary: n)
  case Nil
  then show ?case by simp
next
  case (Cons p ps)
  have "n \<le> pk_end p" using Cons.prems by (simp add: pk_end_def)
  then show ?case using Cons.IH [of "pk_end p"] Cons.prems by fastforce
qed

lemma contig_no_holes: "contig n (p # ps) \<Longrightarrow> reass_no_holes (frag_of p) (map frag_of ps)"
  by (induction ps arbitrary: n p) auto

lemma contig_total: "contig n ps \<Longrightarrow> ps \<noteq> [] \<Longrightarrow> pk_end (last ps) = n + length (concat (map pk_data ps))"
  by (induction ps arbitrary: n) (auto simp: pk_end_def)

definition whole_hdr :: "bytes \<Rightarrow> nat \<Rightarrow> bytes" where
  "whole_hdr h n =
     (let h' = IPH_CHKSUM_SET 0 (IPH_OFFSET_SET 0 (IPH_LEN_SET (lwip_htons (of_nat (n + 20))) h))
      in IPH_CHKSUM_SET (inet_chksum 0 h') h')"

lemma reass_hdr_whole: "length (ra_iphdr ipr) = 20 \<Longrightarrow> reass_hdr addr ipr = whole_hdr (ra_iphdr ipr) (ra_datagram_len ipr)"
  by (erule iphdr_cases) (simp add: reass_hdr_def whole_hdr_def inet_chksum_rfc)

lemma length_whole_hdr [simp]: "length h = 20 \<Longrightarrow> length (whole_hdr h n) = 20"
  by (erule iphdr_cases) (simp add: whole_hdr_def Let_def)

lemma reass_complete_ok:
  assumes "ra_p ipr = map frag_of (z # zs)" and "\<forall>x\<in>set (z # zs). good_frag x" and "length (ra_iphdr ipr) = 20"
    and "20 + length (concat (map pk_data (z # zs))) < 65536"
  shows "\<exists>c. reass_complete e ipr = Ok c \<and> chain_wf c \<and> c \<noteq> [] \<and> length c = sum_list (map length (z # zs)) \<and>
    chain_data c = whole_hdr (ra_iphdr ipr) (ra_datagram_len ipr) @ concat (map pk_data (z # zs))"
proof -
  obtain q qs where z: "z = q # qs" "chain_wf (q # qs)" "20 \<le> pb_len q" using assms(2) by (cases z) (auto simp: good_frag_def)
  let ?h = "whole_hdr (ra_iphdr ipr) (ra_datagram_len ipr)"
  have h: "reass_hdr a ipr = ?h" "length ?h = 20" for a using assms(3) by (simp_all add: reass_hdr_whole)
  note w = wr_hdr_ok [OF z(2), of ?h]
  let ?z = "pb_put 0 ?h q # qs"
  have wz: "wr_hdr 0 ?h z = Ok ?z" "chain_wf ?z" using w(1,2) h z by simp_all
  have gz: "good_frag z" using assms(2) by simp
  have "chain_data ?z = ?h @ drop 20 (chain_data z)" using w(3) h(2) z by simp
  then have d: "chain_data ?z = ?h @ pk_data z" by (simp add: pk_data_def)
  have "chain_tot ?z = 20 + length (pk_data z)" using length_chain_data [OF wz(2)] unfolding d by (simp add: h(2))
  then have "chain_tot ?z + sum_list (map (\<lambda>x. length (pk_data x)) zs) < 65536" using assms(4) by (simp add: length_concat comp_def)
  from reass_join_ok [OF wz(2) _ _ this] assms(2) obtain c where "reass_join ?z (map frag_of zs) = Ok c" "chain_wf c" "c \<noteq> []"
    "chain_data c = chain_data ?z @ concat (map pk_data zs)" "length c = length ?z + sum_list (map length zs)" by auto
  then show ?thesis using assms(1) wz(1) d h(1) z(1) by (intro exI [of _ c]) (simp add: reass_complete_def del: chain_data_simps)
qed

lemma validate_last:
  assumes "ra_p ipr = map frag_of zs" and "zs \<noteq> []" and "contig 0 (zs @ [l])" and "\<forall>x\<in>set (zs @ [l]). good_frag x"
    and "ra_lastfrag ipr" and "ra_datagram_len ipr = pk_end l"
  shows "ip_reass_chain_frag_into_datagram_and_validate ipr (pk_hdr l) l = Ok (Some (True, ipr\<lparr>ra_p := map frag_of (zs @ [l])\<rparr>))"
proof -
  have gl: "good_frag l" using assms(4) by simp
  have nw: "\<lparr>fr_p = l, fr_start = frag_offset (pk_hdr l), fr_end = (frag_offset (pk_hdr l) + frag_len (pk_hdr l)) mod 65536\<rparr> = frag_of l"
    using gl good_frag_facts(2) [OF gl] by (simp add: frag_of_def pk_start_def pk_end_def good_frag_def)
  obtain z zs' where zs: "zs = z # zs'" using assms(2) by (cases zs) auto
  have "\<forall>q\<in>set zs. pk_end q \<le> pk_start l" using contig_sorted [OF assms(3)] by (simp add: sorted_wrt_append)
  moreover have "pk_start q < pk_end q" if "q \<in> set zs" for q using good_frag_facts(3) [of q] assms(4) that by (simp add: pk_end_def)
  ultimately have "\<forall>q\<in>set (frag_of z # map frag_of zs'). fr_start q < fr_start (frag_of l) \<and> fr_end q \<le> fr_start (frag_of l)"
    by (fastforce simp: zs)
  moreover have "reass_no_holes (frag_of z) (map frag_of zs' @ [frag_of l])" using contig_no_holes [of 0 z "zs' @ [l]"] assms(3) zs by simp
  ultimately have "reass_insert (frag_of l) [] True (ra_p ipr) = Ok (Some (ra_p ipr, [frag_of l], True))"
    using reass_insert_last [of "frag_of z" "map frag_of zs'" "frag_of l"] assms(1) zs by simp
  moreover have "pk_start z = 0" using assms(3) zs by simp
  ultimately show ?thesis unfolding ip_reass_chain_frag_into_datagram_and_validate_def Let_def nw
    using assms(1,5,6) zs by simp
qed

lemma collecting_last:
  assumes "collecting st0 rv ipr st" and "ra_p ipr = map frag_of zs" and "set rv = set zs" and "zs \<noteq> []"
    and "contig 0 (zs @ [l])" and "\<forall>x\<in>set (zs @ [l]). good_frag x" and "\<not> more_frags l"
    and "\<forall>q\<in>set zs. pk_key (pk_hdr q) = pk_key (pk_hdr l)"
    and "ip_reass_pbufcount st + length l \<le> 10" and "sum_list (map length rv) = sum_list (map length zs)"
  shows "\<exists>c st'. ip_reass e nf l st = Some (Ok (Some c, st')) \<and> chain_wf c \<and> c \<noteq> [] \<and>
    chain_data c = whole_hdr (pk_hdr (hd zs)) (pk_end l) @ concat (map pk_data (zs @ [l])) \<and> reass_frame st0 st' \<and>
    reassdatagrams st' = reassdatagrams st0 \<and> ip_reass_pbufcount st' = ip_reass_pbufcount st0"
proof -
  have c: "reassdatagrams st = ipr # reassdatagrams st0" "ra_iphdr ipr \<in> pk_hdr ` set zs"
    "(\<exists>p\<in>set zs. pk_start p = 0) \<longrightarrow> frag_offset (ra_iphdr ipr) = 0"
    "ip_reass_pbufcount st = ip_reass_pbufcount st0 + sum_list (map length zs)" "reass_frame st0 st"
    using assms(1,3,10) by (simp_all add: collecting_def)
  obtain z zs' where zs: "zs = z # zs'" using assms(4) by (cases zs) auto
  have z: "pk_start z = 0" "0 < pk_end z" "contig (pk_end z) (zs' @ [l])" using assms(5,6) good_frag_facts(3) [of z] by (auto simp: zs pk_end_def)
  have late: "\<forall>q\<in>set (zs' @ [l]). pk_start q \<noteq> 0" using contig_sorted [OF z(3)] z(2) by auto
  obtain q where q: "q \<in> set zs" "ra_iphdr ipr = pk_hdr q" using c(2) by blast
  have "z \<in> set zs" by (simp add: zs)
  then have "pk_start q = 0" using c(3) z(1) q(2) by (auto simp: pk_start_def)
  with q have hz: "ra_iphdr ipr = pk_hdr z" using late by (auto simp: zs)
  have gl: "good_frag l" using assms(6) by simp
  define ipr1 where "ipr1 = ipr\<lparr>ra_lastfrag := True, ra_datagram_len := pk_end l\<rparr>"
  define ipr2 where "ipr2 = ipr1\<lparr>ra_p := map frag_of (zs @ [l])\<rparr>"
  define st1 where "st1 = STATS_INC S_ip_frag S_cachehit (STATS_INC S_ip_frag S_recv st)"
  have v: "ip_reass_chain_frag_into_datagram_and_validate ipr1 (pk_hdr l) l = Ok (Some (True, ipr2))"
    unfolding ipr2_def by (rule validate_last) (use assms(2,4-6) in \<open>simp_all add: ipr1_def\<close>)
  have len: "pk_end l = length (concat (map pk_data (zs @ [l])))" using contig_total [OF assms(5)] by simp
  moreover have "pk_end l < 65516" using gl by (simp add: good_frag_def)
  ultimately have "20 + length (concat (map pk_data (z # zs' @ [l]))) < 65536" by (simp add: zs)
  from reass_complete_ok [OF _ _ _ this, of ipr2 e] obtain x where x: "reass_complete e ipr2 = Ok x" "chain_wf x" "x \<noteq> []"
    "length x = sum_list (map length (zs @ [l]))" "chain_data x = whole_hdr (pk_hdr z) (pk_end l) @ concat (map pk_data (zs @ [l]))"
    using assms(6) hz good_frag_facts(4) [of z] by (auto simp: ipr2_def ipr1_def zs)
  have "pk_key (ra_iphdr ipr) = pk_key (pk_hdr l)" using assms(8) hz zs by simp
  then have "reass_find (pk_hdr l) 0 (reassdatagrams st) = Some 0" by (simp add: c(1) IP_ADDRESSES_AND_ID_MATCH_def pk_key_def)
  moreover have "frag_offset (pk_hdr l) \<noteq> 0" using late by (simp add: pk_start_def)
  ultimately have "ip_reass e nf l st = Some (reass_add e 0 (pk_hdr l) l (st1\<lparr>reassdatagrams := ipr # reassdatagrams st0\<rparr>))"
    by (simp add: ip_reass_nth [OF gl assms(9)] Let_def c(1) st1_def)
  also have "st1\<lparr>reassdatagrams := ipr # reassdatagrams st0\<rparr> = st1" using c(1) by (simp add: st1_def STATS_INC_def)
  finally have eq: "ip_reass e nf l st = Some (reass_add e 0 (pk_hdr l) l st1)" .
  have "\<exists>st'. reass_add e 0 (pk_hdr l) l st1 = Ok (Some x, st') \<and> reass_frame st0 st' \<and>
    reassdatagrams st' = reassdatagrams st0 \<and> ip_reass_pbufcount st' = ip_reass_pbufcount st0"
  proof -
    have "pbuf_clen x = length x" "pbuf_clen l = length l" "length x = sum_list (map length zs) + length l"
      using x(4) assms(9) c(4) by (simp_all add: pbuf_clen_small)
    moreover have "(frag_offset (pk_hdr l) + frag_len (pk_hdr l)) mod 65536 = pk_end l"
      using good_frag_facts(2) [OF gl] gl by (simp add: pk_end_def pk_start_def good_frag_def)
    moreover have "u16_add (ip_reass_pbufcount st) (length l) = ip_reass_pbufcount st0 + length x" using assms(9) c(4) calculation by simp
    ultimately show ?thesis using assms(7,9) v x(1) c(1,4,5)
      by (simp add: reass_add_def Let_def st1_def more_frags_def ipr1_def ip_reass_dequeue_datagram_def reass_frame_def STATS_INC_def)
  qed
  then show ?thesis using eq x zs by auto
qed

lemma filter_start:
  "distinct ws \<Longrightarrow> z \<in> set ws \<Longrightarrow> \<forall>w\<in>set ws. pk_start w = pk_start z \<longrightarrow> w = z \<Longrightarrow>
     filter (\<lambda>x. fr_start (frag_of z) = fr_start x) (map frag_of ws) = [frag_of z]"
proof (induction ws)
  case (Cons w ws)
  then show ?case by (cases "w = z") (auto simp: filter_empty_conv)
qed simp

fun reass_run :: "ip_env \<Rightarrow> ('s, 'o) netifs \<Rightarrow> chain list \<Rightarrow> stack \<Rightarrow> (chain option list \<times> stack) run" where
  "reass_run e nf [] st = Some (Ok ([], st))"
| "reass_run e nf (p # ps) st =
     run_bind (ip_reass e nf p st) (\<lambda>(r, st1). run_bind (reass_run e nf ps st1) (\<lambda>(rs, st2). Some (Ok (r # rs, st2))))"

lemma collecting_run:
  assumes "collecting st0 rv ipr st" and "distinct (xs @ rv)"
    and "\<forall>p\<in>set (xs @ rv). good_frag p \<and> more_frags p \<and> pk_key (pk_hdr p) = k"
    and "\<forall>p\<in>set (xs @ rv). \<forall>q\<in>set (xs @ rv). p \<noteq> q \<longrightarrow> fr_disj (frag_of p) (frag_of q)"
    and "ip_reass_pbufcount st + sum_list (map length xs) + n \<le> 10"
  shows "\<exists>st' ipr'. reass_run e nf (xs @ ys) st =
      run_bind (reass_run e nf ys st') (\<lambda>(rs, st2). Some (Ok (replicate (length xs) None @ rs, st2))) \<and>
    collecting st0 (rev xs @ rv) ipr' st' \<and> ip_reass_pbufcount st' + n \<le> 10"
  using assms
proof (induction xs arbitrary: rv ipr st)
  case Nil
  have "run_bind m (\<lambda>a. Some (Ok a)) = m" for m :: "(chain option list \<times> stack) run"
    by (auto simp: run_bind_def split: option.split res.split)
  with Nil show ?case by (intro exI [of _ st] exI [of _ ipr]) simp
next
  case (Cons p xs)
  have "\<exists>st' ipr'. ip_reass e nf p st = Some (Ok (None, st')) \<and> collecting st0 (p # rv) ipr' st'"
    by (rule collecting_more [OF Cons.prems(1)]) (use Cons.prems(2-5) in auto)
  then obtain st1 ipr1 where 1: "ip_reass e nf p st = Some (Ok (None, st1))" "collecting st0 (p # rv) ipr1 st1" by blast
  have "ip_reass_pbufcount st1 = ip_reass_pbufcount st + length p" using 1(2) Cons.prems(1) by (simp add: collecting_def)
  then have "\<exists>st' ipr'. reass_run e nf (xs @ ys) st1 =
      run_bind (reass_run e nf ys st') (\<lambda>(rs, st2). Some (Ok (replicate (length xs) None @ rs, st2))) \<and>
    collecting st0 (rev xs @ p # rv) ipr' st' \<and> ip_reass_pbufcount st' + n \<le> 10"
    by (intro Cons.IH [OF 1(2)]) (use Cons.prems(2-5) in auto)
  then obtain st' ipr' where 2: "reass_run e nf (xs @ ys) st1 =
      run_bind (reass_run e nf ys st') (\<lambda>(rs, st2). Some (Ok (replicate (length xs) None @ rs, st2)))"
    "collecting st0 (rev xs @ p # rv) ipr' st'" "ip_reass_pbufcount st' + n \<le> 10" by blast
  have "run_bind (run_bind m (\<lambda>(rs, st2). Some (Ok (xs1 @ rs, st2)))) (\<lambda>(rs, st2). Some (Ok (None # rs, st2))) =
      run_bind m (\<lambda>(rs, st2). Some (Ok (None # xs1 @ rs, st2)))" for m :: "(chain option list \<times> stack) run" and xs1
    by (auto simp: run_bind_def split: option.split res.split)
  with 1 2 show ?case by (intro exI [of _ st'] exI [of _ ipr']) simp
qed

lemma reass_find_None:
  "\<forall>r\<in>set rs. pk_key (ra_iphdr r) \<noteq> pk_key h \<Longrightarrow> reass_find h i rs = None"
  by (induction rs arbitrary: i) (auto simp: IP_ADDRESSES_AND_ID_MATCH_def pk_key_def)

lemma collect_all:
  assumes "xs \<noteq> []" and "distinct xs" and "\<forall>p\<in>set xs. good_frag p \<and> more_frags p \<and> pk_key (pk_hdr p) = k"
    and "\<forall>p\<in>set xs. \<forall>q\<in>set xs. p \<noteq> q \<longrightarrow> fr_disj (frag_of p) (frag_of q)"
    and "\<forall>r\<in>set (reassdatagrams st). pk_key (ra_iphdr r) \<noteq> k" and "ie_memp e (nw_calls st)"
    and "ip_reass_pbufcount st + sum_list (map length xs) + n \<le> 10"
  shows "\<exists>st' ipr. reass_run e nf (xs @ ys) st =
      run_bind (reass_run e nf ys st') (\<lambda>(rs, st2). Some (Ok (replicate (length xs) None @ rs, st2))) \<and>
    collecting st (rev xs) ipr st' \<and> ip_reass_pbufcount st' + n \<le> 10"
proof -
  obtain x xs' where xs: "xs = x # xs'" using assms(1) by (cases xs) auto
  have gx: "good_frag x" "more_frags x" "pk_key (pk_hdr x) = k" using assms(3) xs by auto
  have "reass_find (pk_hdr x) 0 (reassdatagrams st) = None" by (rule reass_find_None) (use assms(5) gx(3) in simp)
  moreover have "ip_reass_pbufcount st + length x \<le> 10" using assms(7) xs by simp
  ultimately obtain st1 ipr1 where 1: "ip_reass e nf x st = Some (Ok (None, st1))" "collecting st [x] ipr1 st1"
    using collecting_first [OF gx(1,2) _ assms(6)] by blast
  have cnt: "ip_reass_pbufcount st1 = ip_reass_pbufcount st + length x" using 1(2) by (simp add: collecting_def)
  have "\<exists>st' ipr'. reass_run e nf (xs' @ ys) st1 =
      run_bind (reass_run e nf ys st') (\<lambda>(rs, st2). Some (Ok (replicate (length xs') None @ rs, st2))) \<and>
    collecting st (rev xs' @ [x]) ipr' st' \<and> ip_reass_pbufcount st' + n \<le> 10"
    by (rule collecting_run [OF 1(2)]) (use assms(2-4,7) xs cnt in auto)
  then obtain st' ipr' where 2: "reass_run e nf (xs' @ ys) st1 =
      run_bind (reass_run e nf ys st') (\<lambda>(rs, st2). Some (Ok (replicate (length xs') None @ rs, st2)))"
    "collecting st (rev xs' @ [x]) ipr' st'" "ip_reass_pbufcount st' + n \<le> 10" by blast
  have "run_bind (run_bind m (\<lambda>(rs, st2). Some (Ok (xs1 @ rs, st2)))) (\<lambda>(rs, st2). Some (Ok (None # rs, st2))) =
      run_bind m (\<lambda>(rs, st2). Some (Ok (None # xs1 @ rs, st2)))" for m :: "(chain option list \<times> stack) run" and xs1
    by (auto simp: run_bind_def split: option.split res.split)
  with 1 2 xs show ?thesis by (intro exI [of _ st'] exI [of _ ipr']) simp
qed

lemma collecting_key:
  "collecting st0 rv ipr st \<Longrightarrow> \<forall>p\<in>set rv. pk_key (pk_hdr p) = k \<Longrightarrow> pk_key (ra_iphdr ipr) = k"
  by (auto simp: collecting_def)

lemma reass_run_ok:
  assumes perm: "mset xs = mset zs" and "zs \<noteq> []" and contig: "contig 0 (zs @ [l])" and good: "\<forall>p\<in>set (zs @ [l]). good_frag p"
    and key: "\<forall>p\<in>set (zs @ [l]). pk_key (pk_hdr p) = k" and more: "\<forall>p\<in>set zs. more_frags p" "\<not> more_frags l"
    and fresh: "\<forall>r\<in>set (reassdatagrams st). pk_key (ra_iphdr r) \<noteq> k" and "ie_memp e (nw_calls st)"
    and room: "ip_reass_pbufcount st + sum_list (map length (zs @ [l])) \<le> 10"
  shows "\<exists>c st'. reass_run e nf (xs @ [l]) st = Some (Ok (replicate (length xs) None @ [Some c], st')) \<and> chain_wf c \<and> c \<noteq> [] \<and>
    chain_data c = whole_hdr (pk_hdr (hd zs)) (pk_end l) @ concat (map pk_data (zs @ [l])) \<and> reass_frame st st' \<and>
    reassdatagrams st' = reassdatagrams st \<and> ip_reass_pbufcount st' = ip_reass_pbufcount st"
proof -
  have sw: "sorted_wrt (\<lambda>p q. pk_end p \<le> pk_start q) zs"
    using contig_sorted [of 0 zs] contig by (simp add: contig_append)
  have ne: "pk_start p < pk_end p" if "p \<in> set zs" for p using good_frag_facts(3) [of p] good that by (simp add: pk_end_def)
  have ne': "\<forall>p\<in>set zs. pk_start p < pk_end p" using ne by blast
  have dz: "distinct zs" using sw ne' by (induction zs) force+
  have disj: "\<forall>p\<in>set zs. \<forall>q\<in>set zs. p \<noteq> q \<longrightarrow> fr_disj (frag_of p) (frag_of q)" using sw by (induction zs) (auto simp: fr_disj_def)
  have sx: "set xs = set zs" "distinct xs" "sum_list (map length xs) = sum_list (map length zs)" "xs \<noteq> []"
    using perm dz \<open>zs \<noteq> []\<close> by (metis set_mset_mset, metis distinct_count_atmost_1 set_mset_mset, metis mset_map sum_mset_sum_list, auto)
  have r: "ip_reass_pbufcount st + sum_list (map length xs) + length l \<le> 10" using room sx(3) by simp
  have "\<forall>p\<in>set xs. good_frag p \<and> more_frags p \<and> pk_key (pk_hdr p) = k" using sx(1) good key more(1) by auto
  moreover have "\<forall>p\<in>set xs. \<forall>q\<in>set xs. p \<noteq> q \<longrightarrow> fr_disj (frag_of p) (frag_of q)" using disj sx(1) by simp
  ultimately obtain st2 ipr2 where 2: "reass_run e nf (xs @ [l]) st =
      run_bind (reass_run e nf [l] st2) (\<lambda>(rs, st2). Some (Ok (replicate (length xs) None @ rs, st2)))"
    "collecting st (rev xs) ipr2 st2" "ip_reass_pbufcount st2 + length l \<le> 10"
    using collect_all [OF sx(4,2) _ _ fresh \<open>ie_memp e (nw_calls st)\<close> r, of nf "[l]"] by blast
  have "sort_key fr_start (map frag_of (rev xs)) = map frag_of zs"
  proof (rule properties_for_sort_key)
    show "mset (map frag_of zs) = mset (map frag_of (rev xs))" using perm by simp
    show "sorted (map fr_start (map frag_of zs))"
      using sw ne' by (induction zs) (force simp: less_le_trans less_imp_le)+
    show "filter (\<lambda>x. fr_start k = fr_start x) (map frag_of zs) = filter (\<lambda>x. fr_start k = fr_start x) (map frag_of (rev xs))"
      if k: "k \<in> set (map frag_of zs)" for k
    proof -
      obtain z where z: "z \<in> set zs" "k = frag_of z" using k by auto
      have "\<forall>w\<in>set zs. pk_start w = pk_start z \<longrightarrow> w = z" using disj ne' z(1) unfolding fr_disj_def frag_of_sel by (metis leD)
      then show ?thesis using z filter_start [OF dz z(1)] filter_start [of "rev xs" z] sx(1,2) by simp
    qed
  qed
  then have "ra_p ipr2 = map frag_of zs" using 2(2) by (simp add: collecting_def)
  from collecting_last [OF 2(2) this _ \<open>zs \<noteq> []\<close> contig good more(2) _ 2(3), of e nf] obtain c st3 where
    3: "ip_reass e nf l st2 = Some (Ok (Some c, st3))" "chain_wf c" "c \<noteq> []"
      "chain_data c = whole_hdr (pk_hdr (hd zs)) (pk_end l) @ concat (map pk_data (zs @ [l]))" "reass_frame st st3"
      "reassdatagrams st3 = reassdatagrams st" "ip_reass_pbufcount st3 = ip_reass_pbufcount st"
    using sx(1,3) key by (auto simp: rev_map [symmetric])
  then show ?thesis using 2(1) by (intro exI [of _ c] exI [of _ st3]) simp
qed

subsection \<open>What was cut is put together\<close>

lemma htons_and: "lwip_htons x AND lwip_ntohs y = lwip_htons (x AND y)"
proof -
  have "bit ((0xff00 :: u16) AND 0xff) n = bit 0 n" for n by simp
  then have "\<not> (bit (0xff00 :: u16) n \<and> bit (0xff :: u16) n)" for n by (simp only: bit_and_iff bit_0_eq) simp
  then show ?thesis by (intro bit_eqI) (auto simp: lwip_htons_def lwip_ntohs_def bit_simps)
qed

lemma off_mask:
  assumes "k < 8192"
  shows "(of_nat k :: u16) AND IP_OFFMASK = of_nat k" "((of_nat k :: u16) OR IP_MF) AND IP_OFFMASK = of_nat k"
    "(of_nat k :: u16) AND IP_MF = 0" "((of_nat k :: u16) OR IP_MF) AND IP_MF = IP_MF"
proof -
  have m: "(0x1fff :: u16) = mask 13" by (simp add: mask_eq_exp_minus_1)
  have k: "take_bit 13 (of_nat k :: u16) = of_nat k" using assms by (simp add: take_bit_of_nat take_bit_nat_eq_self)
  show a: "(of_nat k :: u16) AND IP_OFFMASK = of_nat k" unfolding m using k by (simp flip: take_bit_eq_mask)
  have "(IP_MF AND IP_OFFMASK :: u16) = 0" "(IP_OFFMASK AND IP_MF :: u16) = 0" by simp_all
  then show "((of_nat k :: u16) OR IP_MF) AND IP_OFFMASK = of_nat k" by (simp add: bit.conj_disj_distrib2 a)
  have "(of_nat k :: u16) AND IP_MF = (of_nat k AND IP_OFFMASK) AND IP_MF" by (simp only: a)
  also have "\<dots> = 0" by (simp add: and.assoc)
  finally show b: "(of_nat k :: u16) AND IP_MF = 0" .
  show "((of_nat k :: u16) OR IP_MF) AND IP_MF = IP_MF" by (simp add: bit.conj_disj_distrib2 b)
qed

text \<open>A chain that holds a fragment with the given offset field and data.\<close>

lemma arrived:
  assumes "chain_data c = frag_hdr 0 tmp (length x) h @ x" and "length h = 20" and "IPH_HL h = 5" and "x \<noteq> []" and "chain_wf c" "c \<noteq> []"
    and "20 \<le> pb_len (hd c)" and "unat (tmp AND IP_OFFMASK) * 8 + length x < 65516"
  shows "good_frag c" "pk_data c = x" "pk_start c = unat (tmp AND IP_OFFMASK) * 8" "more_frags c \<longleftrightarrow> tmp AND IP_MF \<noteq> 0"
    "pk_key (pk_hdr c) = pk_key h" "whole_hdr (pk_hdr c) n = whole_hdr h n"
proof -
  obtain vhl tos len ipid off ttl proto chk src dest where h: "h = mk_iphdr vhl tos len ipid off ttl proto chk src dest"
    using assms(2) by (rule iphdr_cases)
  obtain chk' where fh: "frag_hdr 0 tmp (length x) h = mk_iphdr vhl tos (lwip_htons (of_nat (length x + 20))) ipid (lwip_htons tmp) ttl proto chk' src dest"
    by (simp add: frag_hdr_def h Let_def)
  have hc: "pk_hdr c = mk_iphdr vhl tos (lwip_htons (of_nat (length x + 20))) ipid (lwip_htons tmp) ttl proto chk' src dest"
    using assms(1) by (simp add: pk_hdr_def fh)
  show d: "pk_data c = x" using assms(1) by (simp add: pk_data_def fh)
  show s: "pk_start c = unat (tmp AND IP_OFFMASK) * 8" by (simp add: pk_start_def frag_offset_def hc lwip_ntohs_def)
  have "lwip_htons w = 0 \<longleftrightarrow> w = 0" for w
  proof
    assume "lwip_htons w = 0"
    then have "lwip_htons (lwip_htons w) = lwip_htons 0" by (simp only:)
    then show "w = 0" by (simp add: lwip_htons_def [of 0])
  qed (simp add: lwip_htons_def)
  then show "more_frags c \<longleftrightarrow> tmp AND IP_MF \<noteq> 0" by (simp add: more_frags_def hc htons_and)
  show "pk_key (pk_hdr c) = pk_key h" "whole_hdr (pk_hdr c) n = whole_hdr h n" by (simp_all add: hc h pk_key_def whole_hdr_def)
  have "unat (of_nat m :: u16) = m" if "m < 65536" for m using that by (simp add: unat_of_nat)
  from this [of "length x + 20"] have "unat (of_nat (length x + 20) :: u16) = length x + 20" using assms(8) by linarith
  then show "good_frag c" using assms(3-8) s d assms(1)
    by (simp add: good_frag_def pk_end_def hc h lwip_ntohs_def fh del: of_nat_add)
qed

lemma rfc791_arrived:
  assumes "length h = 20" and "IPH_HL h = 5" and "28 \<le> mtu"
  shows "map chain_data cs = rfc791_frags h mtu k d \<Longrightarrow> d \<noteq> [] \<Longrightarrow> 8 * k + length d < 65516 \<Longrightarrow>
    \<forall>c\<in>set cs. chain_wf c \<and> c \<noteq> [] \<and> 20 \<le> pb_len (hd c) \<Longrightarrow>
    cs \<noteq> [] \<and> contig (8 * k) cs \<and> (\<forall>c\<in>set cs. good_frag c \<and> pk_key (pk_hdr c) = pk_key h) \<and> (\<forall>c\<in>set (butlast cs). more_frags c) \<and>
    \<not> more_frags (last cs) \<and> concat (map pk_data cs) = d \<and> (\<forall>n. whole_hdr (pk_hdr (hd cs)) n = whole_hdr h n)"
proof (induction "length d" arbitrary: cs k d rule: less_induct)
  case less
  have k: "k < 8192" using less.prems(3) by simp
  have unat_k: "unat (of_nat k :: u16) = k" using k by (simp add: unat_of_nat)
  note m = off_mask [OF k]
  show ?case
  proof (cases "length d \<le> mtu - 20")
    case True
    then obtain c where c: "cs = [c]" "chain_data c = frag_hdr 0 (of_nat k) (length d) h @ d"
      using less.prems(1,2) assms(3) by (auto simp: rfc791_frags.simps [of h mtu k d])
    have "unat ((of_nat k :: u16) AND IP_OFFMASK) * 8 + length d < 65516" using less.prems(3) by (simp add: m unat_k)
    note a = arrived [OF c(2) assms(1,2) less.prems(2) _ _ _ this]
    show ?thesis using a less.prems(4) by (simp add: c(1) m unat_k)
  next
    case False
    define n where "n = (mtu - 20) div 8"
    have n: "0 < n" "8 * n < length d" using False assms(3) by (auto simp: n_def div_greater_zero_iff)
    obtain c cs' where c: "cs = c # cs'" "chain_data c = frag_hdr 0 (of_nat k OR IP_MF) (8 * n) h @ take (8 * n) d"
      "map chain_data cs' = rfc791_frags h mtu (k + n) (drop (8 * n) d)"
      using less.prems(1,2) assms(3) False by (auto simp: rfc791_frags.simps [of h mtu k d] n_def Let_def)
    have l: "length (take (8 * n) d) = 8 * n" "take (8 * n) d \<noteq> []" using n by auto
    have b: "unat (((of_nat k :: u16) OR IP_MF) AND IP_OFFMASK) * 8 + length (take (8 * n) d) < 65516"
      using less.prems(3) n by (simp add: m unat_k)
    have c2: "chain_data c = frag_hdr 0 (of_nat k OR IP_MF) (length (take (8 * n) d)) h @ take (8 * n) d" unfolding l(1) by (rule c(2))
    note a = arrived [OF c2 assms(1,2) l(2) _ _ _ b, unfolded m unat_k]
    have ih: "cs' \<noteq> [] \<and> contig (8 * (k + n)) cs' \<and> (\<forall>c\<in>set cs'. good_frag c \<and> pk_key (pk_hdr c) = pk_key h) \<and>
      (\<forall>c\<in>set (butlast cs'). more_frags c) \<and> \<not> more_frags (last cs') \<and> concat (map pk_data cs') = drop (8 * n) d \<and>
      (\<forall>n. whole_hdr (pk_hdr (hd cs')) n = whole_hdr h n)"
      by (rule less.hyps) (use n less.prems(3,4) c in auto)
    have "pk_end c = 8 * (k + n)" using a(2,3) l(1) less.prems(4) by (simp add: pk_end_def c(1))
    then show ?thesis using a ih less.prems(4) by (simp add: c(1))
  qed
qed

text \<open>The datagram as the sender had it: 20 bytes of header whose fields agree with the data.\<close>

definition ip_datagram :: "bytes \<Rightarrow> bool" where
  "ip_datagram b \<longleftrightarrow> 20 < length b \<and> IPH_HL (take 20 b) = 5 \<and> take 20 b = whole_hdr (take 20 b) (length b - 20)"

lemma rfc791_reassembled:
  assumes h: "ip_datagram b" and "28 \<le> mtu" and len: "mtu < length b" "length b < 65536"
    and cs: "map chain_data cs = rfc791_frags (take 20 b) mtu 0 (drop 20 b)" "\<forall>c\<in>set cs. chain_wf c \<and> c \<noteq> [] \<and> 20 \<le> pb_len (hd c)"
    and perm: "mset xs = mset (butlast cs)"
    and fresh: "\<forall>r\<in>set (reassdatagrams st). pk_key (ra_iphdr r) \<noteq> pk_key b" and "ie_memp e (nw_calls st)"
    and room: "ip_reass_pbufcount st + sum_list (map length cs) \<le> 10"
  shows "\<exists>c st'. reass_run e nf (xs @ [last cs]) st = Some (Ok (replicate (length xs) None @ [Some c], st')) \<and>
    chain_wf c \<and> chain_data c = b \<and> reassdatagrams st' = reassdatagrams st \<and> ip_reass_pbufcount st' = ip_reass_pbufcount st"
proof -
  let ?h = "take 20 b" and ?d = "drop 20 b"
  have l: "length ?h = 20" "IPH_HL ?h = 5" "?h = whole_hdr ?h (length ?d)" "?d \<noteq> []" using h len by (auto simp: ip_datagram_def)
  have a: "cs \<noteq> [] \<and> contig (8 * 0) cs \<and> (\<forall>c\<in>set cs. good_frag c \<and> pk_key (pk_hdr c) = pk_key ?h) \<and> (\<forall>c\<in>set (butlast cs). more_frags c) \<and>
    \<not> more_frags (last cs) \<and> concat (map pk_data cs) = ?d \<and> (\<forall>n. whole_hdr (pk_hdr (hd cs)) n = whole_hdr ?h n)"
    by (rule rfc791_arrived [OF l(1,2) assms(2) cs(1) l(4) _ cs(2)]) (use len in simp)
  have "length cs \<noteq> 1" 
  proof
    assume "length cs = 1"
    then obtain c where c: "cs = [c]" by (auto simp: length_Suc_conv)
    have ne: "rfc791_frags ?h mtu k x \<noteq> []" if "x \<noteq> []" for k x using that assms(2) by (subst rfc791_frags.simps) (simp add: Let_def)
    have "8 * ((mtu - 20) div 8) < length ?d"
      using len assms(2) times_div_less_eq_dividend [of 8 "mtu - 20"] by simp
    then have "drop (8 * ((mtu - 20) div 8)) ?d \<noteq> []" by (simp only: drop_eq_Nil not_le)
    moreover have "\<not> length ?d \<le> mtu - 20" "\<not> mtu < 28" using len assms(2) by simp_all
    ultimately show False using cs(1) ne [THEN not_sym] l(4) unfolding c
      by (subst (asm) rfc791_frags.simps) (simp only: Let_def if_False list.map list.inject simp_thms)
    qed
  then have two: "butlast cs \<noteq> []" using a by (cases cs) auto
  have e: "butlast cs @ [last cs] = cs" "hd (butlast cs) = hd cs" using a two by (simp, metis append_butlast_last_id hd_append2)
  have k: "pk_key ?h = pk_key b" using h by (simp add: pk_key_def iph_get_defs ip_datagram_def)
  obtain c st' where "reass_run e nf (xs @ [last cs]) st = Some (Ok (replicate (length xs) None @ [Some c], st'))" "chain_wf c"
    "chain_data c = whole_hdr (pk_hdr (hd (butlast cs))) (pk_end (last cs)) @ concat (map pk_data (butlast cs @ [last cs]))"
    "reassdatagrams st' = reassdatagrams st" "ip_reass_pbufcount st' = ip_reass_pbufcount st"
    using reass_run_ok [OF perm two, of "last cs" "pk_key ?h" st e nf] a k assms(8-) unfolding e(1) by auto
  moreover have "pk_end (last cs) = length ?d" using contig_total [of 0 cs] a by simp
  ultimately show ?thesis using a l(3) unfolding e by (intro exI [of _ c] exI [of _ st']) simp
qed

subsection \<open>Making room\<close>

lemma reass_oldest_prev:
  "length rs \<ge> 2 \<Longrightarrow> \<exists>old n. reass_oldest h i rs oldest prev others = (old, Some (i + length rs - 2), n)"
proof (induction rs arbitrary: i oldest prev others)
  case (Cons r rs)
  show ?case
  proof (cases "length rs \<ge> 2")
    case True
    then show ?thesis using Cons.IH [OF True, of "Suc i"] by (auto simp: Let_def)
  next
    case False
    then obtain s where "rs = [s]" using Cons.prems by (cases rs; cases "tl rs") auto
    then show ?thesis by (simp add: Let_def)
  qed
qed simp

lemma reass_oldest_pos:
  "reass_oldest h i rs oldest prev others = (Some (j, t), p, n) \<Longrightarrow>
     oldest = Some (j, t) \<or> (i \<le> j \<and> j < i + length rs \<and> pk_key (ra_iphdr (rs ! (j - i))) \<noteq> pk_key h)"
  by (induction rs arbitrary: i oldest prev others)
    (fastforce simp: Let_def IP_ADDRESSES_AND_ID_MATCH_def pk_key_def nth_Cons' split: if_splits option.splits)+

lemma reass_oldest_some:
  "oldest \<noteq> None \<or> (\<exists>r\<in>set rs. pk_key (ra_iphdr r) \<noteq> pk_key h) \<Longrightarrow> fst (reass_oldest h i rs oldest prev others) \<noteq> None"
proof (induction rs arbitrary: i oldest prev others)
  case (Cons r rs)
  show ?case unfolding reass_oldest.simps Let_def
    by (rule Cons.IH) (use Cons.prems in \<open>auto simp: IP_ADDRESSES_AND_ID_MATCH_def pk_key_def split: option.split\<close>)
qed simp

text \<open>
  The predecessor that the search for the oldest datagram hands on is always the last but one
  element of the list; when the datagram to be removed is not the last one, an assertion fails.
\<close>

lemma remove_oldest_aborts:
  assumes "reassdatagrams st = rs @ [r]" and "pk_key (ra_iphdr r) = pk_key h" and "\<exists>x\<in>set rs. pk_key (ra_iphdr x) \<noteq> pk_key h"
  shows "ip_reass_remove_oldest_datagram e nf h n st = Some (Stop Assert)"
proof -
  have l: "2 \<le> length (rs @ [r])" using assms(3) by (cases rs) auto
  have "fst (reass_oldest h 0 (rs @ [r]) None None 0) \<noteq> None" using assms(3) by (intro reass_oldest_some) auto
  then obtain j t m where o: "reass_oldest h 0 (rs @ [r]) None None 0 = (Some (j, t), Some (length rs - 1), m)"
    using reass_oldest_prev [OF l, of h 0 None None 0] by auto
  have "j < length (rs @ [r]) \<and> pk_key (ra_iphdr ((rs @ [r]) ! j)) \<noteq> pk_key h" using reass_oldest_pos [OF o] by simp
  then have "j < length rs" using assms(2) by (auto simp: nth_append split: if_splits)
  then have "Suc (length rs - 1) \<noteq> j" by simp
  then show ?thesis unfolding ip_reass_remove_oldest_datagram_def
    by (subst reass_remove_loop.simps) (simp add: assms(1) o ip_reass_free_complete_datagram_def)
qed

lemma ip_reass_full_aborts:
  assumes "good_frag p" and "length p < 256" and "10 < ip_reass_pbufcount st + length p"
    and "reassdatagrams st = rs @ [r]" and "pk_key (ra_iphdr r) = pk_key (pk_hdr p)" and "\<exists>x\<in>set rs. pk_key (ra_iphdr x) \<noteq> pk_key (pk_hdr p)"
  shows "ip_reass e nf p st = Some (Stop Assert)"
  using remove_oldest_aborts [of "STATS_INC S_ip_frag S_recv st" rs r "pk_hdr p" e nf "length p"] assms good_frag_facts(1) [OF assms(1)]
  by (simp add: ip_reass_def good_frag_def pbuf_clen_small Let_def)

subsection \<open>A hole\<close>

lemma frag_of_hdr:
  assumes "good_frag p"
  shows "\<lparr>fr_p = p, fr_start = frag_offset (pk_hdr p), fr_end = (frag_offset (pk_hdr p) + frag_len (pk_hdr p)) mod 65536\<rparr> = frag_of p"
    "(frag_offset (pk_hdr p) + frag_len (pk_hdr p)) mod 65536 = pk_end p"
  using assms good_frag_facts(2) [OF assms] by (simp_all add: frag_of_def pk_start_def pk_end_def good_frag_def)

text \<open>
  The fragments \<open>a\<close>, \<open>l\<close> (the last) and \<open>b\<close> arrive in this order. The hole between \<open>a\<close> and \<open>b\<close> is
  not looked for.
\<close>

lemma reass_hole:
  assumes g: "good_frag a" "good_frag b" "good_frag l" and f: "more_frags a" "more_frags b" "\<not> more_frags l"
    and k: "pk_key (pk_hdr b) = pk_key (pk_hdr a)" "pk_key (pk_hdr l) = pk_key (pk_hdr a)"
    and p: "pk_start a = 0" "pk_end a < pk_start b" "pk_end b = pk_start l"
    and fresh: "\<forall>r\<in>set (reassdatagrams st). pk_key (ra_iphdr r) \<noteq> pk_key (pk_hdr a)" and "ie_memp e (nw_calls st)"
    and room: "ip_reass_pbufcount st + (length a + length b + length l) \<le> 10"
  shows "\<exists>c st'. reass_run e nf [a, l, b] st = Some (Ok ([None, None, Some c], st')) \<and> chain_wf c \<and>
    chain_data c = whole_hdr (pk_hdr a) (pk_end l) @ pk_data a @ pk_data b @ pk_data l"
proof -
  have "reass_find (pk_hdr a) 0 (reassdatagrams st) = None" by (rule reass_find_None [OF fresh])
  from collecting_first [OF g(1) f(1) this \<open>ie_memp e (nw_calls st)\<close>, of nf] room obtain st1 ipr where
    1: "ip_reass e nf a st = Some (Ok (None, st1))" "collecting st [a] ipr st1" by auto
  have c: "reassdatagrams st1 = ipr # reassdatagrams st" "ra_p ipr = [frag_of a]" "\<not> ra_lastfrag ipr" "ra_iphdr ipr = pk_hdr a"
    "ip_reass_pbufcount st1 = ip_reass_pbufcount st + length a" using 1(2) by (auto simp: collecting_def)
  have ne: "pk_start x < pk_end x" if "good_frag x" for x using good_frag_facts(3) [OF that] by (simp add: pk_end_def)
  note ne = ne [OF g(1)] ne [OF g(2)] ne [OF g(3)]
  have off: "frag_offset (pk_hdr l) \<noteq> 0" "frag_offset (pk_hdr b) \<noteq> 0" using p ne by (simp_all flip: pk_start_def)
  define ipr2 where "ipr2 = ipr\<lparr>ra_p := [frag_of a, frag_of l], ra_lastfrag := True, ra_datagram_len := pk_end l\<rparr>"
  define ipr3 where "ipr3 = ipr2\<lparr>ra_p := [frag_of a, frag_of b, frag_of l]\<rparr>"
  have fd: "reass_find (pk_hdr l) 0 (ipr # xs) = Some 0" "reass_find (pk_hdr b) 0 (ipr2 # xs) = Some 0" for xs
    using k c(4) by (simp_all add: IP_ADDRESSES_AND_ID_MATCH_def pk_key_def ipr2_def)
  have v2: "ip_reass_chain_frag_into_datagram_and_validate (ipr\<lparr>ra_lastfrag := True, ra_datagram_len := pk_end l\<rparr>) (pk_hdr l) l =
      Ok (Some (False, ipr2))"
    unfolding ip_reass_chain_frag_into_datagram_and_validate_def Let_def frag_of_hdr(1) [OF g(3)] using p ne c by (simp add: ipr2_def)
  have v3: "ip_reass_chain_frag_into_datagram_and_validate ipr2 (pk_hdr b) b = Ok (Some (True, ipr3))"
    unfolding ip_reass_chain_frag_into_datagram_and_validate_def Let_def frag_of_hdr(1) [OF g(2)] using p ne by (simp add: ipr2_def ipr3_def)
  have "\<exists>st2. ip_reass e nf l st1 = Some (Ok (None, st2)) \<and> reassdatagrams st2 = ipr2 # reassdatagrams st \<and>
    ip_reass_pbufcount st2 = ip_reass_pbufcount st + length a + length l"
    using p ne off c room f(3) fd(1) [of "reassdatagrams st"]
    by (simp add: ip_reass_nth [OF g(3)] Let_def reass_add_def more_frags_def pbuf_clen_small frag_of_hdr(2) [OF g(3)] v2)
  then obtain st2 where 2: "ip_reass e nf l st1 = Some (Ok (None, st2))" "reassdatagrams st2 = ipr2 # reassdatagrams st"
    "ip_reass_pbufcount st2 = ip_reass_pbufcount st + length a + length l" by blast
  have tot: "20 + length (concat (map pk_data [a, b, l])) < 65536"
    using p g by (auto simp: pk_end_def good_frag_def)
  obtain x where x: "reass_complete e ipr3 = Ok x" "chain_wf x" "x \<noteq> []"
    "length x = sum_list (map length [a, b, l])" "chain_data x = whole_hdr (pk_hdr a) (pk_end l) @ concat (map pk_data [a, b, l])"
    using reass_complete_ok [OF _ _ _ tot, of ipr3 e] g good_frag_facts(4) [OF g(1)] c(4) by (auto simp: ipr3_def ipr2_def)
  have "\<exists>st3. ip_reass e nf b st2 = Some (Ok (Some x, st3))"
    using p ne off 2 room f(2) x(1) fd(2) [of "reassdatagrams st"]
    by (simp add: ip_reass_nth [OF g(2)] Let_def reass_add_def more_frags_def v3 ip_reass_dequeue_datagram_def)
  then show ?thesis using 1(1) 2(1) x(2,5) by auto
qed

end
