(* ===== verification/Ip_Datagrams.thy ===== *)
theory Ip_Datagrams
  imports Ip_Reass_Props
begin

text \<open>
  The properties of IPv4 datagrams: cutting up and putting together are inverse to each other, and
  three ways in which they fail: an interface whose MTU leaves no room for data, a hole that is not
  noticed, and an assertion that fragments from the network can make fail.
\<close>

unbundle bit_operations_syntax

subsection \<open>Concrete packets\<close>

text \<open>Packets for the witnesses: one pbuf that holds the bytes, and an environment that always has memory.\<close>

definition one_pbuf :: "bytes \<Rightarrow> chain" where
  "one_pbuf b = [\<lparr>pb_mem = b, pb_off = 0, pb_tot_len = length b, pb_len = length b, pb_type = PBUF_RAM, pb_flags = 0, pb_ref = 1\<rparr>]"

lemma one_pbuf_simps:
  "chain_wf (one_pbuf b) \<longleftrightarrow> length b < 65536" "chain_data (one_pbuf b) = b" "one_pbuf b \<noteq> []" "pb_len (hd (one_pbuf b)) = length b"
  "length (one_pbuf b) = 1"
  by (simp_all add: one_pbuf_def pbuf_wf_def pb_payload_def chain_tot_def)

definition demo_env :: ip_env where
  "demo_env = \<lparr>ie_alloc = (\<lambda>_. \<lparr>ae_pool = 0, ae_ram = True, ae_pbuf = True, ae_junk = (\<lambda>_. 0)\<rparr>), ie_memp = (\<lambda>_. True),
     ie_out = (\<lambda>_. ERR_OK), ie_adr = (\<lambda>_. 0)\<rparr>"

definition demo_netifs :: "u16 \<Rightarrow> (unit, unit) netifs" where
  "demo_netifs mtu = \<lparr>nf_obj = (\<lambda>_. \<lparr>nif_ip_addr = 0x0100000a, nif_netmask = 0x00ffffff, nif_gw = 0, nif_mtu = mtu, nif_flags = 0x11,
     nif_name = (0x76, 0x70), nif_next = None, nif_num = 0, nif_state = None, nif_output = Some ()\<rparr>),
     netif_list = Some 0, netif_default = Some 0, netif_num = 1, nf_active = [], nf_listen = []\<rparr>"

definition demo_stack :: stack where
  "demo_stack = \<lparr>ip_id = 0, reassdatagrams = [], ip_reass_pbufcount = 0, udp_pcbs = [],
     udp_obj = (\<lambda>_. \<lparr>up_local_ip = 0, up_remote_ip = 0, up_local_port = 0, up_remote_port = 0, up_flags = 0, up_tos = 0, up_ttl = 0, up_recv = False\<rparr>),
     udp_port = 0xc000, lwip_stats = (\<lambda>_ _. 0), nw_sent = [], nw_up = [], nw_calls = 0\<rparr>"

text \<open>A fragment of a datagram from 10.0.0.2 to 10.0.0.1, with the given offset field and data.\<close>

definition demo_frag :: "u16 \<Rightarrow> bytes \<Rightarrow> bytes" where
  "demo_frag off d = frag_hdr 0 off (length d) (mk_iphdr 0x45 0 0 7 0 64 17 0 0x0200000a 0x0100000a) @ d"

lemma demo_frag_facts:
  assumes "x \<noteq> []" and "unat (tmp AND IP_OFFMASK) * 8 + length x < 65516"
  shows "good_frag (one_pbuf (demo_frag tmp x))" "pk_data (one_pbuf (demo_frag tmp x)) = x"
    "pk_start (one_pbuf (demo_frag tmp x)) = unat (tmp AND IP_OFFMASK) * 8" "more_frags (one_pbuf (demo_frag tmp x)) \<longleftrightarrow> tmp AND IP_MF \<noteq> 0"
    "pk_key (pk_hdr (one_pbuf (demo_frag tmp x))) = (0x0200000a, 0x0100000a, 7)"
proof -
  let ?h = "mk_iphdr 0x45 0 0 7 0 64 17 0 0x0200000a 0x0100000a"
  have l: "length (demo_frag tmp x) = 20 + length x" by (simp add: demo_frag_def frag_hdr_def Let_def)
  have d: "chain_data (one_pbuf (demo_frag tmp x)) = frag_hdr 0 tmp (length x) ?h @ x" by (simp add: one_pbuf_simps demo_frag_def)
  have hl: "length ?h = 20" "IPH_HL ?h = 5" by simp_all
  have w: "chain_wf (one_pbuf (demo_frag tmp x))" "20 \<le> pb_len (hd (one_pbuf (demo_frag tmp x)))"
    using assms(2) by (simp_all add: one_pbuf_simps l)
  note a = arrived [OF d hl assms(1) w(1) one_pbuf_simps(3) w(2) assms(2)]
  show "good_frag (one_pbuf (demo_frag tmp x))" "pk_data (one_pbuf (demo_frag tmp x)) = x"
    "pk_start (one_pbuf (demo_frag tmp x)) = unat (tmp AND IP_OFFMASK) * 8" "more_frags (one_pbuf (demo_frag tmp x)) \<longleftrightarrow> tmp AND IP_MF \<noteq> 0"
    using a(1-4) by simp_all
  show "pk_key (pk_hdr (one_pbuf (demo_frag tmp x))) = (0x0200000a, 0x0100000a, 7)" using a(5) by (simp add: pk_key_def)
qed

subsection \<open>Fragments and datagrams\<close>

text \<open>
  C13: reassembly does not depend on the order of arrival. When the fragments of a datagram, all but
  the last in any order and then the last, arrive at a stack that has room for them, every call
  of \<^verbatim>\<open>ip_reass\<close> but the final one takes the fragment and returns nothing, and the final one
  returns the whole datagram: the header of the first fragment with the length of the whole, the
  data in the order of the offsets. The list of pending datagrams and the pbuf counter are as
  before.
\<close>

theorem ip_reass_any_order:
  assumes "mset xs = mset zs" and "zs \<noteq> []" and "contig 0 (zs @ [l])" and "\<forall>p\<in>set (zs @ [l]). good_frag p"
    and "\<forall>p\<in>set (zs @ [l]). pk_key (pk_hdr p) = k" and "\<forall>p\<in>set zs. more_frags p" "\<not> more_frags l"
    and "\<forall>r\<in>set (reassdatagrams st). pk_key (ra_iphdr r) \<noteq> k" and "ie_memp e (nw_calls st)"
    and "ip_reass_pbufcount st + sum_list (map length (zs @ [l])) \<le> 10"
  shows "\<exists>c st'. reass_run e nf (xs @ [l]) st = Some (Ok (replicate (length xs) None @ [Some c], st')) \<and> chain_wf c \<and>
    chain_data c = whole_hdr (pk_hdr (hd zs)) (pk_end l) @ concat (map pk_data (zs @ [l])) \<and>
    reassdatagrams st' = reassdatagrams st \<and> ip_reass_pbufcount st' = ip_reass_pbufcount st"
  using reass_run_ok [OF assms] by blast

theorem ip_reass_any_order_witness:
  "let a = one_pbuf (demo_frag 0x2000 [1, 2, 3, 4, 5, 6, 7, 8]); b = one_pbuf (demo_frag 0x2001 [9, 10, 11, 12, 13, 14, 15, 16]);
       l = one_pbuf (demo_frag 2 [17, 18, 19])
   in \<exists>c st'. reass_run demo_env (demo_netifs 1500) [b, a, l] demo_stack = Some (Ok ([None, None, Some c], st')) \<and> chain_wf c \<and>
        chain_data c = whole_hdr (pk_hdr a) 19 @ [1, 2, 3, 4, 5, 6, 7, 8, 9, 10, 11, 12, 13, 14, 15, 16, 17, 18, 19]"
proof -
  let ?a = "one_pbuf (demo_frag 0x2000 [1, 2, 3, 4, 5, 6, 7, 8])" and ?b = "one_pbuf (demo_frag 0x2001 [9, 10, 11, 12, 13, 14, 15, 16])"
  let ?l = "one_pbuf (demo_frag 2 [17, 18, 19])"
  have d: "concat (map pk_data ([?a, ?b] @ [?l])) = [1, 2, 3, 4, 5, 6, 7, 8, 9, 10, 11, 12, 13, 14, 15, 16, 17, 18, 19]" "pk_end ?l = 19"
    by (simp_all add: demo_frag_facts pk_end_def)
  have "\<exists>c st'. reass_run demo_env (demo_netifs 1500) ([?b, ?a] @ [?l]) demo_stack = Some (Ok (replicate (length [?b, ?a]) None @ [Some c], st')) \<and>
    chain_wf c \<and> chain_data c = whole_hdr (pk_hdr (hd [?a, ?b])) (pk_end ?l) @ concat (map pk_data ([?a, ?b] @ [?l])) \<and>
    reassdatagrams st' = reassdatagrams demo_stack \<and> ip_reass_pbufcount st' = ip_reass_pbufcount demo_stack"
    by (rule ip_reass_any_order [of _ _ _ "(0x0200000a, 0x0100000a, 7)"])
      (simp_all add: demo_frag_facts demo_stack_def demo_env_def one_pbuf_simps pk_end_def)
  then show ?thesis unfolding Let_def d by (simp only: list.size append.simps list.sel replicate_Suc replicate_0) auto
qed

lemma ip_packet_datagram: "d \<noteq> [] \<Longrightarrow> length d < 65516 \<Longrightarrow> ip_datagram (ip_packet ttl tos proto ipid src dest d)"
  by (simp add: ip_datagram_def ip_packet_def ip_hdr_of_def whole_hdr_def)

text \<open>
  C12: what is sent is what arrives. A packet that is too big for the interface goes out as exactly
  the fragments of RFC 791; when their bytes arrive at a stack with room for them, all but
  the last in any order, \<^verbatim>\<open>ip_reass\<close> returns the packet as it would have been sent in one piece,
  header and checksum included, byte for byte.
\<close>

theorem ip_output_reass_roundtrip:
  fixes nf nf2 :: "('s, 'o) netifs" and rst :: stack
  assumes "ip_ready p" and "nif_output (nf_obj nf n) \<noteq> None" and "env_mem e"
    and "44 \<le> unat (nif_mtu (nf_obj nf n))" and "unat (nif_mtu (nf_obj nf n)) < length (chain_data p) + 20"
    and "\<forall>q\<in>set (tl p). 20 \<le> pb_len q \<and> pb_ref q < 65535"
    and "\<forall>r\<in>set (reassdatagrams rst). pk_key (ra_iphdr r) \<noteq> (src, dest, lwip_htons (ip_id st))" and "ie_memp e2 (nw_calls rst)"
  shows "\<exists>fs c st'. ip_output_if_src e nf p (Some src) (Some dest) ttl tos proto n st = Some (Ok (ERR_OK, c, st')) \<and>
    nw_sent st' = nw_sent st @ map (\<lambda>f. (n, f, dest)) fs \<and>
    map chain_data fs = rfc791_frags (ip_hdr_of ttl tos proto (of_nat (length (chain_data p) + 20)) (ip_id st) src dest)
      (unat (nif_mtu (nf_obj nf n))) 0 (chain_data p) \<and>
    (\<forall>cs xs. map chain_data cs = map chain_data fs \<and> (\<forall>c\<in>set cs. chain_wf c \<and> c \<noteq> [] \<and> 20 \<le> pb_len (hd c)) \<and> mset xs = mset (butlast cs) \<and>
       ip_reass_pbufcount rst + sum_list (map length cs) \<le> 10 \<longrightarrow>
       (\<exists>c rst'. reass_run e2 nf2 (xs @ [last cs]) rst = Some (Ok (replicate (length xs) None @ [Some c], rst')) \<and> chain_wf c \<and>
          chain_data c = ip_packet ttl tos proto (ip_id st) src dest (chain_data p) \<and>
          reassdatagrams rst' = reassdatagrams rst \<and> ip_reass_pbufcount rst' = ip_reass_pbufcount rst))"
proof -
  let ?mtu = "unat (nif_mtu (nf_obj nf n))" and ?b = "ip_packet ttl tos proto (ip_id st) src dest (chain_data p)"
  obtain fs c st' where f: "ip_output_if_src e nf p (Some src) (Some dest) ttl tos proto n st = Some (Ok (ERR_OK, c, st'))"
    "nw_sent st' = nw_sent st @ map (\<lambda>f. (n, f, dest)) fs"
    "map chain_data fs = rfc791_frags (ip_hdr_of ttl tos proto (of_nat (length (chain_data p) + 20)) (ip_id st) src dest) ?mtu 0 (chain_data p)"
    using ip_output_if_src_frags [OF assms(1-6), of "Some src" dest ttl tos proto st] by auto
  have b: "take 20 ?b = ip_hdr_of ttl tos proto (of_nat (length (chain_data p) + 20)) (ip_id st) src dest" "drop 20 ?b = chain_data p"
    by (simp_all add: ip_packet_def)
  have l: "length (chain_data p) < 65516" using ip_ready_tot [OF assms(1)] by simp
  have "chain_data p \<noteq> []" using assms(4,5) by auto
  from ip_packet_datagram [OF this l] have d: "ip_datagram ?b" .
  have "pk_key ?b = pk_key (take 20 ?b)" by (simp add: pk_key_def iph_get_defs)
  also have "\<dots> = (src, dest, lwip_htons (ip_id st))" unfolding b by (simp add: pk_key_def ip_hdr_of_def)
  finally have key: "\<forall>r\<in>set (reassdatagrams rst). pk_key (ra_iphdr r) \<noteq> pk_key ?b" using assms(7) by simp
  have m: "28 \<le> ?mtu" "?mtu < length ?b" "length ?b < 65536" using assms(4,5) l by simp_all
  show ?thesis
    using f rfc791_reassembled [OF d m _ _ _ key assms(8)] unfolding b f(3) [symmetric]
    by (intro exI [of _ fs] exI [of _ c] exI [of _ st']) blast
qed

definition demo_out :: chain where
  "demo_out = [\<lparr>pb_mem = replicate 60 7, pb_off = 20, pb_tot_len = 40, pb_len = 40, pb_type = PBUF_RAM, pb_flags = 0, pb_ref = 1\<rparr>]"

lemma demo_out_simps: "chain_data demo_out = replicate 40 7" "tl demo_out = []" "ip_ready demo_out"
  by (simp_all add: demo_out_def pb_payload_def ip_ready_def pbuf_wf_def chain_tot_def)

lemma frag_44:
  "length d = 40 \<Longrightarrow> rfc791_frags h 44 0 d = [frag_hdr 0 IP_MF 24 h @ take 24 d, frag_hdr 0 3 16 h @ drop 24 d]"
  by (subst rfc791_frags.simps, subst rfc791_frags.simps) (auto simp: Let_def)

theorem ip_output_reass_roundtrip_witness:
  "\<exists>fs c st'. ip_output_if_src demo_env (demo_netifs 44) demo_out (Some 0x0100000a) (Some 0x0200000a) 255 0 17 0 demo_stack = Some (Ok (ERR_OK, c, st')) \<and>
     nw_sent st' = map (\<lambda>f. (0, f, 0x0200000a)) fs \<and> length fs = 2 \<and>
     (\<exists>c rst. reass_run demo_env (demo_netifs 1500) (map (one_pbuf \<circ> chain_data) fs) demo_stack = Some (Ok ([None, Some c], rst)) \<and>
        chain_data c = ip_packet 255 0 17 0 0x0100000a 0x0200000a (replicate 40 7))"
proof -
  let ?h = "ip_hdr_of 255 0 17 (of_nat (length (chain_data demo_out) + 20)) (ip_id demo_stack) 0x0100000a 0x0200000a"
  obtain fs c st' where f: "ip_output_if_src demo_env (demo_netifs 44) demo_out (Some 0x0100000a) (Some 0x0200000a) 255 0 17 0 demo_stack = Some (Ok (ERR_OK, c, st'))"
    "nw_sent st' = nw_sent demo_stack @ map (\<lambda>f. (0, f, 0x0200000a)) fs"
    "map chain_data fs = rfc791_frags ?h (unat (nif_mtu (nf_obj (demo_netifs 44) 0))) 0 (chain_data demo_out)" and
    g: "\<And>cs xs. map chain_data cs = map chain_data fs \<and> (\<forall>c\<in>set cs. chain_wf c \<and> c \<noteq> [] \<and> 20 \<le> pb_len (hd c)) \<and> mset xs = mset (butlast cs) \<and>
       ip_reass_pbufcount demo_stack + sum_list (map length cs) \<le> 10 \<Longrightarrow>
       (\<exists>c rst'. reass_run demo_env (demo_netifs 1500) (xs @ [last cs]) demo_stack = Some (Ok (replicate (length xs) None @ [Some c], rst')) \<and> chain_wf c \<and>
          chain_data c = ip_packet 255 0 17 (ip_id demo_stack) 0x0100000a 0x0200000a (chain_data demo_out) \<and>
          reassdatagrams rst' = reassdatagrams demo_stack \<and> ip_reass_pbufcount rst' = ip_reass_pbufcount demo_stack)"
    using ip_output_reass_roundtrip [of demo_out "demo_netifs 44" 0 demo_env demo_stack "0x0100000a" "0x0200000a" demo_stack demo_env 255 0 17 "demo_netifs 1500"]
    by (auto simp: demo_out_simps demo_netifs_def demo_stack_def demo_env_def env_mem_def)
  have "map chain_data fs = [frag_hdr 0 IP_MF 24 ?h @ take 24 (chain_data demo_out), frag_hdr 0 3 16 ?h @ drop 24 (chain_data demo_out)]"
    using f(3) frag_44 [of "chain_data demo_out" ?h] by (simp add: demo_netifs_def demo_out_simps)
  then obtain a b where ab: "fs = [a, b]" "length (chain_data a) = 44" "length (chain_data b) = 36"
    by (auto simp: length_frag_hdr demo_out_simps)
  show ?thesis using f(1,2) g [of "map (one_pbuf \<circ> chain_data) fs" "[one_pbuf (chain_data a)]"]
    by (intro exI [of _ fs] exI [of _ c] exI [of _ st']) (auto simp: ab one_pbuf_simps demo_stack_def demo_out_simps)
qed

subsection \<open>Failures\<close>

text \<open>
  C27: fragments from the network can abort the program. Two datagrams are being collected and
  their pbufs fill the space that \<^verbatim>\<open>IP_REASS_MAX_PBUFS\<close> allows; when one more fragment of the
  datagram that was begun first arrives, \<^verbatim>\<open>ip_reass_remove_oldest_datagram\<close> passes the wrong
  predecessor to \<^verbatim>\<open>ip_reass_free_complete_datagram\<close> and its assertion fails, instead of the other
  datagram being dropped.
\<close>

theorem ip_reass_remote_abort:
  assumes "xs \<noteq> []" "distinct xs" and "ys \<noteq> []" "distinct ys"
    and "\<forall>p\<in>set xs. good_frag p \<and> more_frags p \<and> pk_key (pk_hdr p) = k" "\<forall>p\<in>set ys. good_frag p \<and> more_frags p \<and> pk_key (pk_hdr p) = k'"
    and "k \<noteq> k'" and "\<forall>p\<in>set xs. \<forall>q\<in>set xs. p \<noteq> q \<longrightarrow> fr_disj (frag_of p) (frag_of q)"
    and "\<forall>p\<in>set ys. \<forall>q\<in>set ys. p \<noteq> q \<longrightarrow> fr_disj (frag_of p) (frag_of q)"
    and "good_frag p" "pk_key (pk_hdr p) = k" "length p < 256" and "reassdatagrams st = []" "ip_reass_pbufcount st = 0" and "\<forall>n. ie_memp e n"
    and "sum_list (map length (xs @ ys)) \<le> 10" "10 < sum_list (map length (xs @ ys @ [p]))"
  shows "reass_run e nf (xs @ ys @ [p]) st = Some (Stop Assert)"
proof -
  have r1: "ip_reass_pbufcount st + sum_list (map length xs) + sum_list (map length ys) \<le> 10" using assms(14,16) by simp
  obtain st1 a where 1: "reass_run e nf (xs @ ys @ [p]) st =
      run_bind (reass_run e nf (ys @ [p]) st1) (\<lambda>(rs, st2). Some (Ok (replicate (length xs) None @ rs, st2)))" "collecting st (rev xs) a st1"
    using collect_all [OF assms(1,2,5,8) _ _ r1, of e nf "ys @ [p]"] assms(13,15) by auto
  have ka: "pk_key (ra_iphdr a) = k" using collecting_key [OF 1(2)] assms(5) by simp
  have s1: "reassdatagrams st1 = [a]" "ip_reass_pbufcount st1 = sum_list (map length xs)" "sum_list (map length (rev xs)) = sum_list (map length xs)"
    using 1(2) assms(13,14) by (simp_all add: collecting_def rev_map [symmetric])
  obtain st2 b where 2: "reass_run e nf (ys @ [p]) st1 =
      run_bind (reass_run e nf [p] st2) (\<lambda>(rs, st2). Some (Ok (replicate (length ys) None @ rs, st2)))" "collecting st1 (rev ys) b st2"
    using collect_all [OF assms(3,4,6,9), of st1 e 0 nf "[p]"] s1 ka assms(7,15,16) by auto
  have kb: "pk_key (ra_iphdr b) = k'" using collecting_key [OF 2(2)] assms(6) by simp
  have s2: "reassdatagrams st2 = [b] @ [a]" "ip_reass_pbufcount st2 = sum_list (map length (xs @ ys))"
    using 2(2) s1 by (simp_all add: collecting_def rev_map [symmetric])
  have "ip_reass e nf p st2 = Some (Stop Assert)"
    by (rule ip_reass_full_aborts [OF assms(10,12) _ s2(1)]) (use s2 ka kb assms(7,11,17) in simp_all)
  then show ?thesis using 1(1) 2(1) by simp
qed

text \<open>A fragment spread over many pbufs: one for the header and one for every byte of data.\<close>

fun bytes_chain :: "bytes \<Rightarrow> chain" where
  "bytes_chain [] = []"
| "bytes_chain (b # bs) = \<lparr>pb_mem = [b], pb_off = 0, pb_tot_len = length (b # bs), pb_len = 1, pb_type = PBUF_RAM, pb_flags = 0, pb_ref = 1\<rparr> # bytes_chain bs"

definition spread :: "bytes \<Rightarrow> bytes \<Rightarrow> chain" where
  "spread h d = \<lparr>pb_mem = h, pb_off = 0, pb_tot_len = length h + length d, pb_len = length h, pb_type = PBUF_RAM, pb_flags = 0, pb_ref = 1\<rparr> # bytes_chain d"

lemma bytes_chain_ok:
  "length bs < 65536 \<Longrightarrow> chain_wf (bytes_chain bs)" "chain_data (bytes_chain bs) = bs" "length (bytes_chain bs) = length bs"
  "chain_tot (bytes_chain bs) = length bs"
  by (induction bs) (auto simp: pbuf_wf_def chain_tot_def pb_payload_def split: list.split)

lemma spread_ok:
  "length h + length d < 65536 \<Longrightarrow> chain_wf (spread h d)" "chain_data (spread h d) = h @ d" "length (spread h d) = Suc (length d)"
  "spread h d \<noteq> []" "pb_len (hd (spread h d)) = length h"
  by (simp_all add: spread_def bytes_chain_ok pbuf_wf_def pb_payload_def)

lemma spread_arrived:
  assumes "length h = 20" and "IPH_HL h = 5" and "d \<noteq> []" and "unat (tmp AND IP_OFFMASK) * 8 + length d < 65516"
  shows "good_frag (spread (frag_hdr 0 tmp (length d) h) d)" "more_frags (spread (frag_hdr 0 tmp (length d) h) d) \<longleftrightarrow> tmp AND IP_MF \<noteq> 0"
    "pk_key (pk_hdr (spread (frag_hdr 0 tmp (length d) h) d)) = pk_key h"
proof -
  have l: "length (frag_hdr 0 tmp (length d) h) = 20" by (rule length_frag_hdr [OF assms(1)])
  have "length (frag_hdr 0 tmp (length d) h) + length d < 65536" "20 \<le> pb_len (hd (spread (frag_hdr 0 tmp (length d) h) d))"
    using assms(4) by (simp_all add: l spread_ok)
  note a = arrived [OF spread_ok(2) assms(1-3) spread_ok(1) [OF this(1)] spread_ok(4) this(2) assms(4)]
  show "good_frag (spread (frag_hdr 0 tmp (length d) h) d)" "more_frags (spread (frag_hdr 0 tmp (length d) h) d) \<longleftrightarrow> tmp AND IP_MF \<noteq> 0"
    "pk_key (pk_hdr (spread (frag_hdr 0 tmp (length d) h) d)) = pk_key h" by (rule a(1,4,5))+
qed

theorem ip_reass_remote_abort_witness:
  "let big = mk_iphdr 0x45 0 0 8 0 64 17 0 0x0200000a 0x0100000a
   in reass_run demo_env (demo_netifs 1500)
     [one_pbuf (demo_frag 0x2000 [1, 2, 3, 4, 5, 6, 7, 8]), spread (frag_hdr 0 0x2000 8 big) [1, 2, 3, 4, 5, 6, 7, 8],
      one_pbuf (demo_frag 0x2001 [1, 2, 3, 4, 5, 6, 7, 8])] demo_stack = Some (Stop Assert)"
proof -
  let ?h = "mk_iphdr 0x45 0 0 8 0 64 17 0 0x0200000a 0x0100000a" and ?d = "[1, 2, 3, 4, 5, 6, 7, 8] :: bytes"
  let ?a = "one_pbuf (demo_frag 0x2000 ?d)" and ?p = "one_pbuf (demo_frag 0x2001 ?d)" and ?b = "spread (frag_hdr 0 0x2000 8 ?h) ?d"
  have "pk_key ?h = (0x0200000a, 0x0100000a, 8)" by (simp add: pk_key_def)
  moreover have "length ?d = 8" by simp
  ultimately have b: "good_frag ?b" "more_frags ?b" "pk_key (pk_hdr ?b) = (0x0200000a, 0x0100000a, 8)"
    using spread_arrived [of ?h ?d "0x2000"] by (simp_all del: list.size)
  have "reass_run demo_env (demo_netifs 1500) ([?a] @ [?b] @ [?p]) demo_stack = Some (Stop Assert)"
    by (rule ip_reass_remote_abort [where k = "(0x0200000a, 0x0100000a, 7)" and k' = "(0x0200000a, 0x0100000a, 8)"])
      (simp_all add: b demo_frag_facts one_pbuf_simps spread_ok demo_stack_def demo_env_def)
  then show ?thesis by (simp only: Let_def append.simps)
qed

lemma whole_hdr_len: "length h = 20 \<Longrightarrow> n + 20 < 65536 \<Longrightarrow> unat (lwip_ntohs (IPH_LEN (whole_hdr h n @ d))) = n + 20"
proof (erule iphdr_cases)
  fix vhl tos len ipid off ttl proto chk src dest assume n: "n + 20 < 65536"
  have u: "unat (of_nat m :: u16) = m" if "m < 65536" for m using that by (simp add: unat_of_nat)
  assume h: "h = mk_iphdr vhl tos len ipid off ttl proto chk src dest"
  then have "IPH_LEN (whole_hdr h n @ d) = IPH_LEN (whole_hdr h n)" by (simp add: IPH_LEN_def nth_append)
  also have "\<dots> = lwip_htons (of_nat (n + 20))" by (simp add: h whole_hdr_def)
  finally show ?thesis using u [OF n] by (simp add: lwip_ntohs_def del: of_nat_add)
qed

text \<open>
  C28: a hole is not always noticed. When a first fragment, the last one and then the one right
  before the last arrive, \<^verbatim>\<open>ip_reass\<close> returns a datagram although the bytes between the first two
  are missing: the data is moved together and the length in the header is more than there is.
\<close>

theorem ip_reass_hole:
  assumes "good_frag a" "good_frag b" "good_frag l" and "more_frags a" "more_frags b" "\<not> more_frags l"
    and "pk_key (pk_hdr b) = pk_key (pk_hdr a)" "pk_key (pk_hdr l) = pk_key (pk_hdr a)"
    and "pk_start a = 0" "pk_end a < pk_start b" "pk_end b = pk_start l"
    and "\<forall>r\<in>set (reassdatagrams st). pk_key (ra_iphdr r) \<noteq> pk_key (pk_hdr a)" and "ie_memp e (nw_calls st)"
    and "ip_reass_pbufcount st + (length a + length b + length l) \<le> 10"
  shows "\<exists>c st'. reass_run e nf [a, l, b] st = Some (Ok ([None, None, Some c], st')) \<and>
    drop 20 (chain_data c) = pk_data a @ pk_data b @ pk_data l \<and> length (chain_data c) < unat (lwip_ntohs (IPH_LEN (chain_data c)))"
proof -
  obtain c st' where c: "reass_run e nf [a, l, b] st = Some (Ok ([None, None, Some c], st'))"
    "chain_data c = whole_hdr (pk_hdr a) (pk_end l) @ pk_data a @ pk_data b @ pk_data l"
    using reass_hole [OF assms, of nf] by blast
  have h: "length (pk_hdr a) = 20" using good_frag_facts(4) [OF assms(1)] .
  have "pk_end l + 20 < 65536" using assms(3) by (simp add: good_frag_def)
  then have "unat (lwip_ntohs (IPH_LEN (chain_data c))) = pk_end l + 20" unfolding c(2) by (rule whole_hdr_len [OF h])
  moreover have "length (pk_data a) + length (pk_data b) + length (pk_data l) < pk_end l" using assms(9-11) by (simp add: pk_end_def)
  ultimately show ?thesis using c h by (intro exI [of _ c] exI [of _ st'] conjI) simp_all
qed

theorem ip_reass_hole_witness:
  "let a = one_pbuf (demo_frag 0x2000 [1, 2, 3, 4, 5, 6, 7, 8]); b = one_pbuf (demo_frag 0x2002 [9, 10, 11, 12, 13, 14, 15, 16]);
       l = one_pbuf (demo_frag 3 [17, 18, 19])
   in \<exists>c st'. reass_run demo_env (demo_netifs 1500) [a, l, b] demo_stack = Some (Ok ([None, None, Some c], st')) \<and>
        drop 20 (chain_data c) = [1, 2, 3, 4, 5, 6, 7, 8, 9, 10, 11, 12, 13, 14, 15, 16, 17, 18, 19]"
proof -
  let ?a = "one_pbuf (demo_frag 0x2000 [1, 2, 3, 4, 5, 6, 7, 8])" and ?b = "one_pbuf (demo_frag 0x2002 [9, 10, 11, 12, 13, 14, 15, 16])"
  let ?l = "one_pbuf (demo_frag 3 [17, 18, 19])"
  have "\<exists>c st'. reass_run demo_env (demo_netifs 1500) [?a, ?l, ?b] demo_stack = Some (Ok ([None, None, Some c], st')) \<and>
    drop 20 (chain_data c) = pk_data ?a @ pk_data ?b @ pk_data ?l \<and> length (chain_data c) < unat (lwip_ntohs (IPH_LEN (chain_data c)))"
    by (rule ip_reass_hole) (simp_all add: demo_frag_facts pk_end_def one_pbuf_simps demo_stack_def demo_env_def)
  then show ?thesis by (auto simp: demo_frag_facts Let_def)
qed

text \<open>
  C29: on an interface whose MTU leaves less than eight bytes of room behind the header,
  \<^verbatim>\<open>ip_frag\<close> does not return: a fragment has to carry a multiple of eight bytes, none fits, and
  the loop sends empty fragments for ever.
\<close>

theorem ip_frag_never_returns:
  assumes "env_mem e" and "nif_output (nf_obj nf n) \<noteq> None" and "20 \<le> unat (nif_mtu (nf_obj nf n))" and "unat (nif_mtu (nf_obj nf n)) < 28"
    and "chain_wf (q # qs)" and "40 \<le> pb_len q"
  shows "ip_frag e nf n (q # qs) dest st = None"
  by (rule ip_frag_stuck [OF assms])

theorem ip_frag_never_returns_witness: "ip_frag demo_env (demo_netifs 24) 0 (one_pbuf (replicate 60 0)) 0x0200000a demo_stack = None"
  unfolding one_pbuf_def
  by (rule ip_frag_never_returns) (simp_all add: demo_env_def demo_netifs_def env_mem_def pbuf_wf_def chain_tot_def)

end
