(* ===== verification/Udp.thy ===== *)
theory Udp
  imports Icmp
begin

text \<open>
  \<^verbatim>\<open>lwip/src/core/udp.c\<close> in the configuration without UDP-Lite, IGMP, IPv6 and DHCP: the list of
  protocol control blocks, the choice of a local port, sending and the search for the receiver of
  a datagram. A control block is a number, the list \<^verbatim>\<open>udp_pcbs\<close> a list of them and \<open>udp_obj\<close>
  their contents. The receive function of a block is called by recording the delivery.
\<close>

unbundle bit_operations_syntax

subsection \<open>Local ports\<close>

abbreviation (input) UDP_LOCAL_PORT_RANGE_START :: u16 where "UDP_LOCAL_PORT_RANGE_START \<equiv> 0xc000"
abbreviation (input) UDP_LOCAL_PORT_RANGE_END :: u16 where "UDP_LOCAL_PORT_RANGE_END \<equiv> 0xffff"
abbreviation (input) UDP_FLAGS_NOCHKSUM :: u8 where "UDP_FLAGS_NOCHKSUM \<equiv> 0x01"
abbreviation (input) UDP_FLAGS_CONNECTED :: u8 where "UDP_FLAGS_CONNECTED \<equiv> 0x04"
abbreviation (input) UDP_HLEN :: nat where "UDP_HLEN \<equiv> 8"
abbreviation (input) UDP_TTL :: u8 where "UDP_TTL \<equiv> 255"

definition upd_udp :: "nat \<Rightarrow> (udp_pcb \<Rightarrow> udp_pcb) \<Rightarrow> stack \<Rightarrow> stack" where
  "upd_udp b f st = st\<lparr>udp_obj := (udp_obj st)(b := f (udp_obj st b))\<rparr>"

text \<open>
  The loop of \<^verbatim>\<open>udp_new_port\<close>: the port that is tried next, and the result with the last port tried;
  \<open>n\<close> counts the ports found in use.
\<close>

definition udp_next_port :: "u16 \<Rightarrow> u16" where
  "udp_next_port port = (if port = UDP_LOCAL_PORT_RANGE_END then UDP_LOCAL_PORT_RANGE_START else port + 1)"

function udp_new_port_loop :: "u16 list \<Rightarrow> nat \<Rightarrow> u16 \<Rightarrow> u16 \<times> u16" where
  "udp_new_port_loop used n port =
     (let port' = udp_next_port port
      in if port' \<in> set used then
           (if n + 1 > 0x3fff then (0, port') else udp_new_port_loop used (n + 1) port')
         else (port', port'))"
  by pat_completeness auto
termination
  by (relation "measure (\<lambda>(used, n, port). 0x4000 - n)") auto

declare udp_new_port_loop.simps [simp del]

definition udp_new_port :: "stack \<Rightarrow> u16 \<times> stack" where
  "udp_new_port st =
     (let (r, port) = udp_new_port_loop (map (\<lambda>b. up_local_port (udp_obj st b)) (udp_pcbs st)) 0 (udp_port st)
      in (r, st\<lparr>udp_port := port\<rparr>))"

subsection \<open>Control blocks\<close>

text \<open>
  The loop of \<^verbatim>\<open>udp_bind\<close> over the list: whether the block is on it, or no result when another block
  has the port and the address.
\<close>

fun udp_bind_scan :: "(nat \<Rightarrow> udp_pcb) \<Rightarrow> nat \<Rightarrow> ip_addr \<Rightarrow> u16 \<Rightarrow> bool \<Rightarrow> nat list \<Rightarrow> bool option res" where
  "udp_bind_scan obj pcb ipaddr port rebind [] = Ok (Some rebind)"
| "udp_bind_scan obj pcb ipaddr port rebind (b # bs) =
     (if pcb = b then (if rebind then Stop Assert else udp_bind_scan obj pcb ipaddr port True bs)
      else if up_local_port (obj b) = port \<and>
              (up_local_ip (obj b) = IPADDR_ANY \<or> ipaddr = IPADDR_ANY \<or> up_local_ip (obj b) = ipaddr)
           then Ok None
           else udp_bind_scan obj pcb ipaddr port rebind bs)"

definition udp_bind :: "nat \<Rightarrow> ip_addr \<Rightarrow> u16 \<Rightarrow> stack \<Rightarrow> (err_t \<times> stack) res" where
  "udp_bind pcb ipaddr port st =
     res_bind (udp_bind_scan (udp_obj st) pcb ipaddr port False (udp_pcbs st)) (\<lambda>r.
       case r of
         None \<Rightarrow> Ok (ERR_USE, st)
       | Some rebind \<Rightarrow>
           let st1 = upd_udp pcb (\<lambda>b. b\<lparr>up_local_ip := ipaddr\<rparr>) st;
               (port', st2) = (if port = 0 then udp_new_port st1 else (port, st1))
           in if port' = 0 then Ok (ERR_USE, st2)
              else
                let st3 = upd_udp pcb (\<lambda>b. b\<lparr>up_local_port := port'\<rparr>) st2
                in Ok (ERR_OK, if rebind then st3 else st3\<lparr>udp_pcbs := pcb # udp_pcbs st3\<rparr>))"

definition udp_connect :: "nat \<Rightarrow> ip_addr \<Rightarrow> u16 \<Rightarrow> stack \<Rightarrow> (err_t \<times> stack) res" where
  "udp_connect pcb ipaddr port st =
     res_bind (if up_local_port (udp_obj st pcb) = 0 then udp_bind pcb (up_local_ip (udp_obj st pcb)) 0 st else Ok (ERR_OK, st))
       (\<lambda>(err, st1).
         if err \<noteq> ERR_OK then Ok (err, st1)
         else
           let st2 = upd_udp pcb (\<lambda>b. b\<lparr>up_remote_ip := ipaddr, up_remote_port := port,
                                        up_flags := up_flags b OR UDP_FLAGS_CONNECTED\<rparr>) st1
           in Ok (ERR_OK, if pcb \<in> set (udp_pcbs st2) then st2 else st2\<lparr>udp_pcbs := pcb # udp_pcbs st2\<rparr>))"

definition udp_disconnect :: "nat \<Rightarrow> stack \<Rightarrow> stack" where
  "udp_disconnect pcb = upd_udp pcb (\<lambda>b. b\<lparr>up_remote_ip := IPADDR_ANY, up_remote_port := 0,
                                             up_flags := up_flags b AND NOT UDP_FLAGS_CONNECTED\<rparr>)"

text \<open>Only whether there is a receive function is kept.\<close>

definition udp_recv :: "nat \<Rightarrow> bool \<Rightarrow> stack \<Rightarrow> stack" where
  "udp_recv pcb recv = upd_udp pcb (\<lambda>b. b\<lparr>up_recv := recv\<rparr>)"

text \<open>The block is taken off the list; its memory is given back.\<close>

definition udp_remove :: "nat \<Rightarrow> stack \<Rightarrow> stack" where
  "udp_remove pcb st =
     st\<lparr>udp_pcbs := (case udp_pcbs st of [] \<Rightarrow> [] | b # bs \<Rightarrow> if b = pcb then bs else b # removeAll pcb bs)\<rparr>"

text \<open>The allocator answers with the block \<open>pcb\<close> or with NULL.\<close>

definition udp_new :: "ip_env \<Rightarrow> nat \<Rightarrow> stack \<Rightarrow> nat option \<times> stack" where
  "udp_new e pcb st =
     (if ie_memp e (nw_calls st) then
        (Some pcb, upd_udp pcb (\<lambda>_. \<lparr>up_local_ip = 0, up_remote_ip = 0, up_local_port = 0, up_remote_port = 0, up_flags = 0,
                                    up_tos = 0, up_ttl = UDP_TTL, up_recv = False\<rparr>) (called st))
      else (None, called st))"

subsection \<open>Receiving\<close>

text \<open>Whether the destination of a datagram is that of a control block, and whether its source is.\<close>

definition udp_local_match :: "bool \<Rightarrow> ip_addr \<Rightarrow> ip_addr \<Rightarrow> u16 \<Rightarrow> udp_pcb \<Rightarrow> bool" where
  "udp_local_match broadcast netmask cur_dest dest b \<longleftrightarrow>
     up_local_port b = dest \<and>
     ((\<not> broadcast \<and> up_local_ip b = IPADDR_ANY) \<or> up_local_ip b = cur_dest \<or>
      (broadcast \<and> (up_local_ip b = IPADDR_ANY \<or> ip_addr_netcmp (up_local_ip b) cur_dest netmask)))"

definition udp_remote_match :: "ip_addr \<Rightarrow> u16 \<Rightarrow> udp_pcb \<Rightarrow> bool" where
  "udp_remote_match cur_src src b \<longleftrightarrow> up_remote_port b = src \<and> (up_remote_ip b = IPADDR_ANY \<or> up_remote_ip b = cur_src)"

text \<open>
  The search: the block that gets the datagram, the list, in which a full match has come to the
  front, and whether it was there already. \<open>before\<close> are the blocks passed, \<open>uncon\<close> is the first
  unconnected match.
\<close>

fun udp_search :: "(udp_pcb \<Rightarrow> bool) \<Rightarrow> (udp_pcb \<Rightarrow> bool) \<Rightarrow> (nat \<Rightarrow> udp_pcb) \<Rightarrow> nat list \<Rightarrow> nat option \<Rightarrow> nat list \<Rightarrow> nat option \<times> nat list \<times> bool" where
  "udp_search lmatch rmatch obj before uncon [] = (uncon, before, False)"
| "udp_search lmatch rmatch obj before uncon (b # bs) =
     (if lmatch (obj b) \<and> rmatch (obj b) then (Some b, b # before @ bs, before = [])
      else udp_search lmatch rmatch obj (before @ [b])
             (if lmatch (obj b) \<and> uncon = None \<and> up_flags (obj b) AND UDP_FLAGS_CONNECTED = 0 then Some b else uncon) bs)"

definition udp_nobody :: "ip_env \<Rightarrow> ('s, 'o) netifs \<Rightarrow> bool \<Rightarrow> ip_addr \<Rightarrow> nat \<Rightarrow> chain \<Rightarrow> stack \<Rightarrow> stack run" where
  "udp_nobody e nf broadcast cur_dest hlen p st =
     run_bind
       (if \<not> broadcast \<and> \<not> ip_addr_ismulticast cur_dest then
          run_res (pbuf_header p (int hlen + int UDP_HLEN)) (\<lambda>(_, p1).
            run_bind (icmp_dest_unreach e nf p1 ICMP_DUR_PORT st) (\<lambda>st1. Some (Ok (p1, st1))))
        else Some (Ok (p, st)))
       (\<lambda>(p1, st1). Some (nw_free p1 (STATS_INC S_udp S_drop (STATS_INC S_udp S_proterr st1))))"

text \<open>
  \<^verbatim>\<open>udp_input\<close>: the addresses of the IP header and its length are those of the packet being
  processed, \<^verbatim>\<open>ip_data\<close> in the code.
\<close>

definition udp_input :: "ip_env \<Rightarrow> ('s, 'o) netifs \<Rightarrow> nat \<Rightarrow> ip_addr \<Rightarrow> ip_addr \<Rightarrow> nat \<Rightarrow> chain \<Rightarrow> stack \<Rightarrow> stack run" where
  "udp_input e nf inp cur_src cur_dest hlen p st0 =
     (let st = STATS_INC S_udp S_recv st0
      in case p of
           [] \<Rightarrow> Some (Stop Fault)
         | q # _ \<Rightarrow>
             if pb_len q < UDP_HLEN then Some (nw_free p (STATS_INC S_udp S_drop (STATS_INC S_udp S_lenerr st)))
             else
               run_res (rdn (pb_mem q) (pb_off q) UDP_HLEN) (\<lambda>h.
               let ni = nf_obj nf inp;
                   broadcast = ip4_addr_isbroadcast cur_dest (netif.truncate ni);
                   src = lwip_ntohs (u16_of (h ! 0) (h ! 1));
                   dest = lwip_ntohs (u16_of (h ! 2) (h ! 3));
                   (pcb, pcbs, hit) = udp_search (udp_local_match broadcast (nif_netmask ni) cur_dest dest)
                                        (udp_remote_match cur_src src) (udp_obj st) [] None (udp_pcbs st);
                   st1 = (if hit then STATS_INC S_udp S_cachehit st else st)\<lparr>udp_pcbs := pcbs\<rparr>
               in if pcb = None \<and> nif_ip_addr ni \<noteq> cur_dest then Some (nw_free p st1)
                  else if u16_of (h ! 6) (h ! 7) \<noteq> 0 \<and>
                          inet_chksum_pseudo (ie_adr e) p IP_PROTO_UDP (of_nat (pb_tot_len q)) cur_src cur_dest \<noteq> 0
                  then Some (nw_free p (STATS_INC S_udp S_drop (STATS_INC S_udp S_chkerr st1)))
                  else
                    run_res (pbuf_header p (- int UDP_HLEN)) (\<lambda>(r, p1).
                      if r \<noteq> 0 then Some (Stop Assert)
                      else case pcb of
                             Some b \<Rightarrow>
                               if up_recv (udp_obj st b) then Some (Ok (st1\<lparr>nw_up := nw_up st1 @ [To_udp b p1 cur_src src]\<rparr>))
                               else Some (nw_free p1 st1)
                           | None \<Rightarrow> udp_nobody e nf broadcast cur_dest hlen p1 st1)))"

subsection \<open>Sending\<close>

text \<open>The header is in front of the data when there is room, else in a pbuf of its own.\<close>

definition udp_add_hdr :: "ip_env \<Rightarrow> chain \<Rightarrow> stack \<Rightarrow> (chain option \<times> bool \<times> chain \<times> stack) res" where
  "udp_add_hdr e p st =
     res_bind (pbuf_header p (int UDP_HLEN)) (\<lambda>(r, p1).
       if r = 0 then Ok (Some p1, False, p1, st)
       else
         res_bind (nw_alloc e PBUF_IP UDP_HLEN PBUF_RAM st) (\<lambda>(q, st1).
           case q of
             None \<Rightarrow> Ok (None, True, p1, st1)
           | Some q \<Rightarrow>
               if pb_tot_len (hd p1) \<noteq> 0 then res_bind (pbuf_chain q p1) (\<lambda>c. Ok (Some c, True, p1, st1))
               else Ok (Some q, True, p1, st1)))"

text \<open>The header with its checksum, written field by field.\<close>

definition udp_write_hdr :: "ip_env \<Rightarrow> udp_pcb \<Rightarrow> ip_addr \<Rightarrow> ip_addr \<Rightarrow> u16 \<Rightarrow> chain \<Rightarrow> chain res" where
  "udp_write_hdr e b src_ip dst_ip dst_port q =
     (let tot = of_nat (pb_tot_len (hd q))
      in res_bind (wr_hdr 0 (le16 (lwip_htons (up_local_port b)) @ le16 (lwip_htons dst_port) @ le16 (lwip_htons tot) @ le16 0) q) (\<lambda>q1.
           if up_flags b AND UDP_FLAGS_NOCHKSUM = 0 then
             let udpchksum = inet_chksum_pseudo (ie_adr e) q1 IP_PROTO_UDP tot src_ip dst_ip
             in wr_hdr 6 (le16 (if udpchksum = 0 then 0xffff else udpchksum)) q1
           else Ok q1))"

definition udp_sendto_if_src ::
    "ip_env \<Rightarrow> ('s, 'o) netifs \<Rightarrow> nat \<Rightarrow> chain \<Rightarrow> ip_addr \<Rightarrow> u16 \<Rightarrow> nat \<Rightarrow> ip_addr \<Rightarrow> stack \<Rightarrow> (err_t \<times> chain \<times> stack) run" where
  "udp_sendto_if_src e nf pcb p dst_ip dst_port n src_ip st =
     run_res (if up_local_port (udp_obj st pcb) = 0 then udp_bind pcb (up_local_ip (udp_obj st pcb)) 0 st else Ok (ERR_OK, st))
       (\<lambda>(err, st1).
         if err \<noteq> ERR_OK then Some (Ok (err, p, st1))
         else
           run_res (udp_add_hdr e p st1) (\<lambda>(r, separate, p1, st2).
             case r of
               None \<Rightarrow> Some (Ok (ERR_MEM, p1, st2))
             | Some q \<Rightarrow>
                 if \<not> pb_len (hd q) \<ge> UDP_HLEN then Some (Stop Assert)
                 else
                   let b = udp_obj st2 pcb
                   in run_res (udp_write_hdr e b src_ip dst_ip dst_port q) (\<lambda>q1.
                      run_bind (ip_output_if_src e nf q1 (Some src_ip) (Some dst_ip) (up_ttl b) (up_tos b) IP_PROTO_UDP n st2) (\<lambda>(err, q2, st3).
                        let st4 = STATS_INC S_udp S_xmit st3
                        in if separate then
                             run_res (pbuf_free q2) (\<lambda>(_, rest). Some (Ok (err, if pb_tot_len (hd p1) \<noteq> 0 then rest else p1, st4)))
                           else Some (Ok (err, q2, st4))))))"

definition udp_sendto_if ::
    "ip_env \<Rightarrow> ('s, 'o) netifs \<Rightarrow> nat \<Rightarrow> chain \<Rightarrow> ip_addr \<Rightarrow> u16 \<Rightarrow> nat \<Rightarrow> stack \<Rightarrow> (err_t \<times> chain \<times> stack) run" where
  "udp_sendto_if e nf pcb p dst_ip dst_port n st =
     (let local = up_local_ip (udp_obj st pcb); addr = nif_ip_addr (nf_obj nf n)
      in if local = IPADDR_ANY then udp_sendto_if_src e nf pcb p dst_ip dst_port n addr st
         else if local \<noteq> addr then Some (Ok (ERR_VAL, p, st))
         else udp_sendto_if_src e nf pcb p dst_ip dst_port n local st)"

definition udp_sendto ::
    "ip_env \<Rightarrow> ('s, 'o) netifs \<Rightarrow> nat \<Rightarrow> chain \<Rightarrow> ip_addr \<Rightarrow> u16 \<Rightarrow> stack \<Rightarrow> (err_t \<times> chain \<times> stack) run" where
  "udp_sendto e nf pcb p dst_ip dst_port st =
     (case ip_route dst_ip nf of
        None \<Rightarrow> None
      | Some None \<Rightarrow> Some (Ok (ERR_RTE, p, STATS_INC S_udp S_rterr st))
      | Some (Some n) \<Rightarrow> udp_sendto_if e nf pcb p dst_ip dst_port n st)"

definition udp_send :: "ip_env \<Rightarrow> ('s, 'o) netifs \<Rightarrow> nat \<Rightarrow> chain \<Rightarrow> stack \<Rightarrow> (err_t \<times> chain \<times> stack) run" where
  "udp_send e nf pcb p st = udp_sendto e nf pcb p (up_remote_ip (udp_obj st pcb)) (up_remote_port (udp_obj st pcb)) st"

end
