(* ===== verification/Ip_Input.thy ===== *)
theory Ip_Input
  imports Ip_Datagrams Udp
begin

text \<open>
  \<^verbatim>\<open>ip_input\<close> of \<^verbatim>\<open>lwip/src/core/ipv4/ip4.c\<close>, without forwarding, raw sockets, IGMP and AUTOIP: the
  checks of a received packet, the search for the interface it is meant for, reassembly, and the
  way to UDP, TCP and ICMP. What goes to \<^verbatim>\<open>tcp_input\<close> is recorded.
\<close>

unbundle bit_operations_syntax

subsection \<open>The code\<close>

definition ip_accepts :: "('s, 'o) netifs \<Rightarrow> ip_addr \<Rightarrow> nat \<Rightarrow> bool" where
  "ip_accepts nf dest n \<longleftrightarrow>
     netif_is_up nf n \<and> nif_ip_addr (nf_obj nf n) \<noteq> IPADDR_ANY \<and>
     (dest = nif_ip_addr (nf_obj nf n) \<or> ip4_addr_isbroadcast dest (netif.truncate (nf_obj nf n)))"

text \<open>
  The loop over the interfaces starts with the one the packet came in on, goes on with the list
  and leaves that one out there; it does not end on a cyclic list.
\<close>

partial_function (option) ip_input_loop :: "('s, 'o) netifs \<Rightarrow> ip_addr \<Rightarrow> nat \<Rightarrow> bool \<Rightarrow> nat \<Rightarrow> nat option option" where
  "ip_input_loop nf dest inp first n =
     (if ip_accepts nf dest n then Some (Some n)
      else
        let n1 = (if first then netif_list nf else nif_next (nf_obj nf n));
            n2 = (if n1 = Some inp then nif_next (nf_obj nf inp) else n1)
        in case n2 of None \<Rightarrow> Some None | Some m \<Rightarrow> ip_input_loop nf dest inp False m)"

text \<open>The upper layers; \<open>h\<close> is the header of the packet, \<open>hlen\<close> the length of the header it came in with.\<close>

definition ip_deliver ::
    "ip_env \<Rightarrow> ('s, 'o) netifs \<Rightarrow> nat \<Rightarrow> ip_addr \<Rightarrow> ip_addr \<Rightarrow> nat \<Rightarrow> bytes \<Rightarrow> chain \<Rightarrow> stack \<Rightarrow> stack run" where
  "ip_deliver e nf inp src dest hlen h p st =
     (let cur_hlen = unat (IPH_HL h) * 4
      in run_res (pbuf_header p (- int hlen)) (\<lambda>(_, p1).
           if IPH_PROTO h = IP_PROTO_UDP then udp_input e nf inp src dest cur_hlen p1 st
           else if IPH_PROTO h = IP_PROTO_TCP then Some (Ok (st\<lparr>nw_up := nw_up st @ [To_tcp p1 src dest]\<rparr>))
           else if IPH_PROTO h = IP_PROTO_ICMP then icmp_input e nf inp src dest cur_hlen p1 st
           else
             run_bind
               (if \<not> ip4_addr_isbroadcast dest (netif.truncate (nf_obj nf inp)) \<and> \<not> ip_addr_ismulticast dest then
                  run_res (pbuf_header p1 (int hlen)) (\<lambda>(_, p2).
                  let p3 = (hd p2)\<lparr>pb_off := pb_off (hd p)\<rparr> # tl p2
                  in run_bind (icmp_dest_unreach e nf p3 ICMP_DUR_PROTO st) (\<lambda>st1. Some (Ok (p3, st1))))
                else Some (Ok (p1, st)))
               (\<lambda>(p2, st1). Some (nw_free p2 (STATS_INC S_ip S_drop (STATS_INC S_ip S_proterr st1))))))"

text \<open>The second half of the function, once the header is known to be in order and the packet is trimmed.\<close>

definition ip_input_for_us :: "ip_env \<Rightarrow> ('s, 'o) netifs \<Rightarrow> nat \<Rightarrow> nat \<Rightarrow> chain \<Rightarrow> stack \<Rightarrow> stack run" where
  "ip_input_for_us e nf inp hlen p st =
     run_res (rd_iphdr p) (\<lambda>h.
     let src = iph_src h; dest = iph_dest h
     in case ip_input_loop nf dest inp True inp of
          None \<Rightarrow> None
        | Some netif \<Rightarrow>
            if ip4_addr_isbroadcast src (netif.truncate (nf_obj nf inp)) \<or> ip_addr_ismulticast src then Some (nw_free p (STATS_INC S_ip S_drop st))
            else if netif = None then Some (nw_free p st)
            else if IPH_OFFSET h AND lwip_htons (IP_OFFMASK OR IP_MF) \<noteq> 0 then
              run_bind (ip_reass e nf p st) (\<lambda>(r, st1).
                case r of
                  None \<Rightarrow> Some (Ok st1)
                | Some p1 \<Rightarrow> run_res (rd_iphdr p1) (\<lambda>h1. ip_deliver e nf inp src dest hlen h1 p1 st1))
            else ip_deliver e nf inp src dest hlen h p st)"

definition ip_input :: "ip_env \<Rightarrow> ('s, 'o) netifs \<Rightarrow> nat \<Rightarrow> chain \<Rightarrow> stack \<Rightarrow> stack run" where
  "ip_input e nf inp p st0 =
     (let st = STATS_INC S_ip S_recv st0
      in case p of
           [] \<Rightarrow> Some (Stop Fault)
         | q # _ \<Rightarrow>
             run_res (rd (pb_mem q) (pb_off q)) (\<lambda>vhl.
               if drop_bit 4 vhl \<noteq> 4 then Some (nw_free p (STATS_INC S_ip S_drop (STATS_INC S_ip S_err st)))
               else
                 run_res (rdn (pb_mem q) (pb_off q + 2) 2) (\<lambda>l.
                 let iphdr_hlen = unat (vhl AND 0x0f) * 4; iphdr_len = unat (lwip_ntohs (u16_of (l ! 0) (l ! 1)))
                 in if iphdr_hlen > pb_len q \<or> iphdr_len > pb_tot_len q then
                      Some (nw_free p (STATS_INC S_ip S_drop (STATS_INC S_ip S_lenerr st)))
                    else
                      run_res (rdn (pb_mem q) (pb_off q) iphdr_hlen) (\<lambda>h.
                        if inet_chksum (ie_adr e q) h \<noteq> 0 then
                          Some (nw_free p (STATS_INC S_ip S_drop (STATS_INC S_ip S_chkerr st)))
                        else run_res (pbuf_realloc p iphdr_len) (\<lambda>p1. ip_input_for_us e nf inp iphdr_hlen p1 st)))))"

end
