(* ===== verification/Udp_Props.thy ===== *)
theory Udp_Props
  imports Ip_Input
begin

text \<open>
  What \<^verbatim>\<open>udp.c\<close> keeps of its control blocks: the search for a local port finds one whenever there is
  one, no two blocks in use would get the same datagrams, and every call of the file, sending and
  receiving included, keeps it so.
\<close>

unbundle bit_operations_syntax

subsection \<open>Local ports\<close>

text \<open>The ports of the range, counted from its start and round and round.\<close>

definition port_at :: "nat \<Rightarrow> u16" where
  "port_at k = of_nat (0xc000 + k mod 0x4000)"

lemma unat_port_at: "unat (port_at k) = 0xc000 + k mod 0x4000"
proof -
  have "k mod 0x4000 < 0x4000" by simp
  then have "0xc000 + k mod 0x4000 < 65536" by linarith
  then show ?thesis unfolding port_at_def by (simp only: unat_of_nat) simp
qed

lemma udp_next_port_at: "udp_next_port (port_at k) = port_at (Suc k)"
proof (cases "k mod 0x4000 = 0x3fff")
  case True
  then have "Suc k mod 0x4000 = 0" by (simp add: mod_Suc)
  moreover have "unat (port_at k) = unat (0xffff :: u16)" by (simp add: unat_port_at True)
  then have "port_at k = 0xffff" by (rule unsigned_word_eqI)
  ultimately show ?thesis by (simp add: udp_next_port_def port_at_def)
next
  case False
  then have "Suc k mod 0x4000 = Suc (k mod 0x4000)" by (simp add: mod_Suc)
  moreover have "k mod 0x4000 < 0x3fff" using False mod_less_divisor [of "0x4000" k] by linarith
  then have "port_at k \<noteq> 0xffff" using unat_port_at [of k] by auto
  ultimately show ?thesis by (simp add: udp_next_port_def port_at_def)
qed

lemma port_at_onto: "0xc000 \<le> port \<Longrightarrow> k < i \<Longrightarrow> \<exists>j. i \<le> j \<and> j < i + 0x4000 \<and> port = port_at j"
proof -
  assume "0xc000 \<le> port"
  then have p: "0xc000 \<le> unat port" by (simp add: word_le_nat_alt)
  let ?j = "i + (unat port - 0xc000 + (0x4000 - i mod 0x4000)) mod 0x4000"
  have "unat port < 0x10000" using unat_u16_less [of port] by simp
  then have "unat port - 0xc000 < 0x4000" by linarith
  moreover have "?j mod 0x4000 = (i mod 0x4000 + (unat port - 0xc000 + (0x4000 - i mod 0x4000))) mod 0x4000"
    by (simp only: mod_add_left_eq mod_add_right_eq)
  moreover have "i mod 0x4000 + (unat port - 0xc000 + (0x4000 - i mod 0x4000)) = unat port - 0xc000 + 0x4000"
    using mod_less_divisor [of "0x4000" i] by linarith
  ultimately have "?j mod 0x4000 = unat port - 0xc000" by simp
  then have "unat port = unat (port_at ?j)" using p by (simp add: unat_port_at)
  then have "port = port_at ?j" by (rule unsigned_word_eqI)
  moreover have "?j < i + 0x4000" using mod_less_divisor [of "0x4000"] by simp
  ultimately show ?thesis by (intro exI [of _ ?j]) simp
qed

lemma udp_new_port_loop_spec:
  "n \<le> 0x3fff \<Longrightarrow>
   (\<exists>i. k < i \<and> i \<le> k + (0x4000 - n) \<and> udp_new_port_loop used n (port_at k) = (port_at i, port_at i) \<and> port_at i \<notin> set used) \<or>
   (\<exists>i. (\<forall>i. k < i \<and> i \<le> k + (0x4000 - n) \<longrightarrow> port_at i \<in> set used) \<and> udp_new_port_loop used n (port_at k) = (0, port_at i))"
proof (induction "0x4000 - n" arbitrary: n k)
  case (Suc m)
  show ?case
  proof (cases "port_at (Suc k) \<in> set used")
    case False
    then have "udp_new_port_loop used n (port_at k) = (port_at (Suc k), port_at (Suc k))"
      by (subst udp_new_port_loop.simps) (simp add: udp_next_port_at Let_def)
    with False Suc.prems show ?thesis by (intro disjI1 exI [of _ "Suc k"]) simp
  next
    case used: True
    show ?thesis
    proof (cases "n = 0x3fff")
      case True
      then have "udp_new_port_loop used n (port_at k) = (0, port_at (Suc k))"
        by (subst udp_new_port_loop.simps) (simp add: udp_next_port_at used Let_def)
      moreover have "i = Suc k" if "k < i \<and> i \<le> k + (0x4000 - n)" for i using that True by simp
      ultimately show ?thesis using used by (intro disjI2 exI [of _ "Suc k"]) blast
    next
      case False
      have eq: "udp_new_port_loop used n (port_at k) = udp_new_port_loop used (n + 1) (port_at (Suc k))"
        using Suc.prems False by (subst udp_new_port_loop.simps) (simp add: udp_next_port_at used Let_def)
      have "m = 0x4000 - (n + 1)" "n + 1 \<le> 0x3fff" using Suc.hyps(2) Suc.prems False by linarith+
      from Suc.hyps(1) [OF this, of "Suc k"] show ?thesis
      proof (elim disjE exE conjE)
        fix i assume "Suc k < i" "i \<le> Suc k + (0x4000 - (n + 1))"
          "udp_new_port_loop used (n + 1) (port_at (Suc k)) = (port_at i, port_at i)" "port_at i \<notin> set used"
        then show ?thesis using Suc.prems by (intro disjI1 exI [of _ i]) (simp add: eq)
      next
        fix i assume a: "\<forall>i. Suc k < i \<and> i \<le> Suc k + (0x4000 - (n + 1)) \<longrightarrow> port_at i \<in> set used"
          "udp_new_port_loop used (n + 1) (port_at (Suc k)) = (0, port_at i)"
        have "port_at j \<in> set used" if "k < j \<and> j \<le> k + (0x4000 - n)" for j
          using a(1) [rule_format, of j] that used Suc.prems by (cases "j = Suc k") auto
        then show ?thesis using a(2) unfolding eq by blast
      qed
    qed
  qed
qed simp

lemma udp_new_port_cases:
  assumes "0xc000 \<le> udp_port st"
  obtains (found) port where "udp_new_port st = (port, st\<lparr>udp_port := port\<rparr>)" "0xc000 \<le> port" "\<forall>b\<in>set (udp_pcbs st). up_local_port (udp_obj st b) \<noteq> port"
  | (full) port where "udp_new_port st = (0, st\<lparr>udp_port := port\<rparr>)" "0xc000 \<le> port" "\<forall>p\<ge>0xc000. \<exists>b\<in>set (udp_pcbs st). up_local_port (udp_obj st b) = p"
proof -
  let ?used = "map (\<lambda>b. up_local_port (udp_obj st b)) (udp_pcbs st)"
  obtain k where k: "udp_port st = port_at k" using port_at_onto [OF assms, of 0 1] by auto
  have ge: "0xc000 \<le> port_at i" for i using unat_port_at [of i] by (simp add: word_le_nat_alt)
  have "(0 :: nat) \<le> 0x3fff" by simp
  from udp_new_port_loop_spec [OF this, of k ?used] show thesis
  proof (elim disjE exE conjE)
    fix i assume a: "udp_new_port_loop ?used 0 (port_at k) = (port_at i, port_at i)" "port_at i \<notin> set ?used"
    then have "\<forall>b\<in>set (udp_pcbs st). up_local_port (udp_obj st b) \<noteq> port_at i" by (simp add: image_iff) metis
    then show thesis using a(1) by (intro found [of "port_at i"] ge) (auto simp: udp_new_port_def k)
  next
    fix i assume a: "\<forall>i. k < i \<and> i \<le> k + (0x4000 - 0) \<longrightarrow> port_at i \<in> set ?used" "udp_new_port_loop ?used 0 (port_at k) = (0, port_at i)"
    have "\<exists>b\<in>set (udp_pcbs st). up_local_port (udp_obj st b) = p" if p: "0xc000 \<le> p" for p
    proof -
      obtain j where "Suc k \<le> j" "j < Suc k + 0x4000" "p = port_at j" using port_at_onto [OF p, of k "Suc k"] by auto
      then have "p \<in> set ?used" using a(1) [rule_format, of j] by simp
      then show ?thesis by auto
    qed
    then show thesis using a(2) by (intro full [of "port_at i"] ge) (auto simp: udp_new_port_def k)
  qed
qed

lemma full_many: "\<forall>p\<ge>0xc000. \<exists>b\<in>set bs. f b = (p :: u16) \<Longrightarrow> 0x4000 \<le> length bs"
proof -
  assume a: "\<forall>p\<ge>0xc000. \<exists>b\<in>set bs. f b = p"
  have "port_at i \<in> f ` set bs" for i
  proof -
    have "0xc000 \<le> port_at i" using unat_port_at [of i] by (simp add: word_le_nat_alt)
    then obtain b where "b \<in> set bs" "f b = port_at i" using a by blast
    then show ?thesis by (metis image_eqI)
  qed
  then have sub: "port_at ` {..<n} \<subseteq> f ` set bs" for n by blast
  have "inj_on port_at {..<n}" if "n \<le> 0x4000" for n
  proof (rule inj_onI)
    fix x y assume "x \<in> {..<n}" "y \<in> {..<n}" and eq: "port_at x = port_at y"
    then have "x < 0x4000" "y < 0x4000" using that by simp_all
    moreover have "x mod 0x4000 = y mod 0x4000" using unat_port_at [of x] unat_port_at [of y] eq by simp
    ultimately show "x = y" by simp
  qed
  then have "card (port_at ` {..<n}) = n" if "n \<le> 0x4000" for n using that by (simp add: card_image)
  then have "0x4000 \<le> card (f ` set bs)" using card_mono [OF _ sub, of "0x4000"] by (metis List.finite_set finite_imageI order_refl)
  also have "\<dots> \<le> length bs" using card_image_le [of "set bs" f] card_length [of bs] by simp
  finally show ?thesis .
qed

subsection \<open>The control blocks in use\<close>

text \<open>Two control blocks that would get the same datagrams.\<close>

definition udp_clash :: "ip_addr \<Rightarrow> u16 \<Rightarrow> udp_pcb \<Rightarrow> bool" where
  "udp_clash ip port b \<longleftrightarrow> up_local_port b = port \<and> (up_local_ip b = IPADDR_ANY \<or> ip = IPADDR_ANY \<or> up_local_ip b = ip)"

text \<open>
  What the file keeps: \<open>live\<close> are the blocks that were allocated and not given back.
\<close>

definition udp_ok :: "nat set \<Rightarrow> stack \<Rightarrow> bool" where
  "udp_ok live st \<longleftrightarrow>
     distinct (udp_pcbs st) \<and> set (udp_pcbs st) \<subseteq> live \<and> 0xc000 \<le> udp_port st \<and>
     (\<forall>b\<in>live. up_local_port (udp_obj st b) \<noteq> 0 \<longleftrightarrow> b \<in> set (udp_pcbs st)) \<and>
     (\<forall>a\<in>set (udp_pcbs st). \<forall>b\<in>set (udp_pcbs st). a \<noteq> b \<longrightarrow>
        \<not> udp_clash (up_local_ip (udp_obj st a)) (up_local_port (udp_obj st a)) (udp_obj st b))"

lemma upd_udp_simps [simp]:
  "udp_pcbs (upd_udp b f st) = udp_pcbs st" "udp_port (upd_udp b f st) = udp_port st"
  "udp_obj (upd_udp b f st) = (udp_obj st)(b := f (udp_obj st b))"
  by (simp_all add: upd_udp_def)

lemma udp_clash_sym: "udp_clash (up_local_ip a) (up_local_port a) b \<longleftrightarrow> udp_clash (up_local_ip b) (up_local_port b) a"
  by (auto simp: udp_clash_def)

lemma udp_bind_scan_eq:
  "distinct bs \<Longrightarrow> (rebind \<longrightarrow> pcb \<notin> set bs) \<Longrightarrow>
     udp_bind_scan obj pcb ip port rebind bs =
       Ok (if \<exists>b\<in>set bs. b \<noteq> pcb \<and> udp_clash ip port (obj b) then None else Some (rebind \<or> pcb \<in> set bs))"
proof (induction bs arbitrary: rebind)
  case (Cons b bs)
  show ?case
  proof (cases "pcb = b")
    case True
    then show ?thesis using Cons by auto
  next
    case False
    then have "udp_bind_scan obj pcb ip port rebind (b # bs) =
        (if udp_clash ip port (obj b) then Ok None else udp_bind_scan obj pcb ip port rebind bs)" by (simp add: udp_clash_def)
    then show ?thesis using Cons.IH [of rebind] Cons.prems False by auto
  qed
qed simp

lemma udp_ok_bound:
  assumes "udp_ok live st" and "pcb \<in> live" and "port \<noteq> 0" and "0xc000 \<le> udp_port st'"
    and "\<forall>b\<in>set (udp_pcbs st). b \<noteq> pcb \<longrightarrow> \<not> udp_clash ip port (udp_obj st b)"
    and "udp_obj st' = (udp_obj st)(pcb := b')" "up_local_ip b' = ip" "up_local_port b' = port"
    and "udp_pcbs st' = (if pcb \<in> set (udp_pcbs st) then udp_pcbs st else pcb # udp_pcbs st)"
  shows "udp_ok live st'"
proof -
  have "\<not> udp_clash (up_local_ip (udp_obj st b)) (up_local_port (udp_obj st b)) b'" if "b \<in> set (udp_pcbs st)" "b \<noteq> pcb" for b
    using assms(5,7,8) that udp_clash_sym [of b' "udp_obj st b"] by simp
  then show ?thesis using assms unfolding udp_ok_def by (auto split: if_splits)
qed

lemma udp_bind_ok:
  assumes "udp_ok live st" and "pcb \<in> live" and "length (udp_pcbs st) < 0x4000"
  shows "\<exists>err st'. udp_bind pcb ip port st = Ok (err, st') \<and> udp_ok live st' \<and> (err = ERR_OK \<longrightarrow> pcb \<in> set (udp_pcbs st')) \<and>
    (err \<noteq> ERR_OK \<longrightarrow> st' = st \<and> (\<exists>b\<in>set (udp_pcbs st). b \<noteq> pcb \<and> udp_clash ip port (udp_obj st b)))"
proof -
  have d: "distinct (udp_pcbs st)" "0xc000 \<le> udp_port st" using assms(1) by (simp_all add: udp_ok_def)
  consider
    (clash) "udp_bind_scan (udp_obj st) pcb ip port False (udp_pcbs st) = Ok None" "\<exists>b\<in>set (udp_pcbs st). b \<noteq> pcb \<and> udp_clash ip port (udp_obj st b)"
  | (free) "udp_bind_scan (udp_obj st) pcb ip port False (udp_pcbs st) = Ok (Some (pcb \<in> set (udp_pcbs st)))"
      "\<forall>b\<in>set (udp_pcbs st). b \<noteq> pcb \<longrightarrow> \<not> udp_clash ip port (udp_obj st b)"
    using udp_bind_scan_eq [OF d(1), of False pcb "udp_obj st" ip port] by (cases "\<exists>b\<in>set (udp_pcbs st). b \<noteq> pcb \<and> udp_clash ip port (udp_obj st b)") auto
  then show ?thesis
  proof cases
    case clash
    then show ?thesis using assms(1) by (simp add: udp_bind_def)
  next
    case free
    let ?st1 = "upd_udp pcb (\<lambda>b. b\<lparr>up_local_ip := ip\<rparr>) st"
    have "\<exists>port' x. (if port = 0 then udp_new_port ?st1 else (port, ?st1)) = (port', ?st1\<lparr>udp_port := x\<rparr>) \<and> port' \<noteq> 0 \<and> 0xc000 \<le> x \<and>
      (\<forall>b\<in>set (udp_pcbs st). b \<noteq> pcb \<longrightarrow> \<not> udp_clash ip port' (udp_obj st b))"
    proof (cases "port = 0")
      case True
      have "0xc000 \<le> udp_port ?st1" using d(2) by simp
      then show ?thesis
      proof (cases rule: udp_new_port_cases)
        case (found p)
        then show ?thesis using True by (intro exI [of _ p]) (auto simp: udp_clash_def split: if_splits)
      next
        case (full p)
        then show ?thesis using full_many [of "udp_pcbs st" "\<lambda>b. up_local_port (udp_obj ?st1 b)"] assms(3) by simp
      qed
    next
      case False
      have "?st1\<lparr>udp_port := udp_port st\<rparr> = ?st1" by (simp add: upd_udp_def)
      then show ?thesis using False d(2) free(2) by (intro exI [of _ port] exI [of _ "udp_port st"]) simp
    qed
    then obtain port' x where p: "(if port = 0 then udp_new_port ?st1 else (port, ?st1)) = (port', ?st1\<lparr>udp_port := x\<rparr>)" "port' \<noteq> 0" "0xc000 \<le> x"
      "\<forall>b\<in>set (udp_pcbs st). b \<noteq> pcb \<longrightarrow> \<not> udp_clash ip port' (udp_obj st b)" by blast
    let ?st3 = "upd_udp pcb (\<lambda>b. b\<lparr>up_local_port := port'\<rparr>) (?st1\<lparr>udp_port := x\<rparr>)"
    let ?st' = "if pcb \<in> set (udp_pcbs st) then ?st3 else ?st3\<lparr>udp_pcbs := pcb # udp_pcbs st\<rparr>"
    have "udp_bind pcb ip port st = Ok (ERR_OK, ?st')" using free(1) p(1,2) by (simp add: udp_bind_def Let_def)
    moreover have "udp_ok live ?st'"
      by (rule udp_ok_bound [OF assms(1,2) p(2) _ p(4)]) (use p(3) in auto)
    ultimately show ?thesis by (intro exI [of _ ERR_OK] exI [of _ ?st']) auto
  qed
qed

subsection \<open>What the rest of the stack leaves alone\<close>

definition udp_view :: "stack \<Rightarrow> nat list \<times> (nat \<Rightarrow> udp_pcb) \<times> u16" where
  "udp_view st = (udp_pcbs st, udp_obj st, udp_port st)"

lemma udp_view_simps [simp]:
  "udp_view (STATS_INC l k st) = udp_view st" "udp_view (called st) = udp_view st"
  "udp_view (st\<lparr>nw_sent := x\<rparr>) = udp_view st" "udp_view (st\<lparr>nw_up := y\<rparr>) = udp_view st" "udp_view (st\<lparr>ip_id := i\<rparr>) = udp_view st"
  by (simp_all add: udp_view_def)

lemma udp_ok_view: "udp_view st = udp_view st' \<Longrightarrow> udp_ok live st = udp_ok live st'"
  by (simp add: udp_view_def udp_ok_def)

lemma udp_ok_stats [simp]: "udp_ok live (STATS_INC l k st) = udp_ok live st"
  by (rule udp_ok_view) simp

lemma nw_alloc_view: "nw_alloc e l n t st = Ok (r, st') \<Longrightarrow> udp_view st' = udp_view st"
  by (auto simp: nw_alloc_def res_bind_Ok_iff)

lemma nw_output_view: "nw_output e nf n p dest st = Ok (r, st') \<Longrightarrow> udp_view st' = udp_view st"
  by (auto simp: nw_output_def split: if_splits)

lemma nw_free_view: "nw_free p st = Ok st' \<Longrightarrow> udp_view st' = udp_view st"
  by (auto simp: nw_free_def res_bind_Ok_iff)

lemma frag_copy_view:
  "frag_copy e r left nl held past p st = Ok (x, a, b, st') \<Longrightarrow> udp_view st' = udp_view st"
proof (induction e r left nl held past p st arbitrary: x a b st' rule: frag_copy.induct)
  case (1 e r left nl held past st)
  then show ?case by (auto split: if_splits)
next
  case (2 e r left nl held past q qs st)
  then show ?case
    by (auto simp: res_bind_Ok_iff Let_def split: if_splits option.splits)
qed

lemma calls_view:
  "(\<And>r st'. udp_view st' = udp_view st \<Longrightarrow> P (r, st')) \<Longrightarrow> res_all P (nw_alloc e l n t st)"
  "(\<And>r st'. udp_view st' = udp_view st \<Longrightarrow> Q (r, st')) \<Longrightarrow> res_all Q (nw_output e nf k p dest st)"
  "(\<And>x a b st'. udp_view st' = udp_view st \<Longrightarrow> R (x, a, b, st')) \<Longrightarrow> res_all R (frag_copy e rb left nl held past p st)"
  "(\<And>st'. udp_view st' = udp_view st \<Longrightarrow> S st') \<Longrightarrow> res_all S (nw_free p st)"
  using nw_alloc_view [of e l n t st] nw_output_view [of e nf k p dest st] frag_copy_view [of e rb left nl held past p st] nw_free_view [of p st]
  by (auto simp: res_all_iff)

lemma calls_any: "(\<And>x. P x) \<Longrightarrow> res_all P (wr_hdr i d p)" "(\<And>x. Q x) \<Longrightarrow> res_all Q (frag_free p held c)"
  "(\<And>x. R x) \<Longrightarrow> res_all R (pbuf_header p k)" "(\<And>x. S x) \<Longrightarrow> res_all S (rd_iphdr p)" "(\<And>x. T x) \<Longrightarrow> res_all T (rdn m off j)"
  "(\<And>x. U x) \<Longrightarrow> res_all U (pbuf_free p)" "(\<And>x. V x) \<Longrightarrow> res_all V (pbuf_chain p q)"
  by (auto simp: res_all_iff)

lemma ip_frag_step_view:
  "res_all (\<lambda>r. case r of Inl (_, _, st) \<Rightarrow> udp_view st = udp_view (fv_st v) | Inr v' \<Rightarrow> udp_view (fv_st v') = udp_view (fv_st v))
     (ip_frag_step e nf n dest h mtu omf v)"
  unfolding ip_frag_step_def Let_def res_all_bind
  by (rule calls_view) (auto simp del: frag_copy.simps split: option.split list.split intro!: calls_view calls_any)

lemma ip_frag_loop_view:
  "ip_frag_loop e nf n dest h mtu omf v = Some y \<Longrightarrow> res_all (\<lambda>(err, c, st). udp_view st = udp_view (fv_st v)) y"
proof (induction rule: ip_frag_loop.raw_induct [rotated, consumes 1, case_names 1])
  case (1 loop e nf n dest h mtu omf v y)
  have a: "res_all (\<lambda>r. case r of Inl (_, _, st) \<Rightarrow> udp_view st = udp_view (fv_st v) | Inr v' \<Rightarrow> udp_view (fv_st v') = udp_view (fv_st v))
     (ip_frag_step e nf n dest h mtu omf v)" by (rule ip_frag_step_view)
  show ?case
  proof (cases "fv_left v = 0")
    case True
    then show ?thesis using 1(2) by auto
  next
    case False
    show ?thesis
    proof (cases "ip_frag_step e nf n dest h mtu omf v")
      case (Ok r)
      then show ?thesis
      proof (cases r)
        case (Inl x)
        then show ?thesis using 1(2) False Ok a by (cases x) auto
      next
        case (Inr v')
        then have "loop e nf n dest h mtu omf v' = Some y" "udp_view (fv_st v') = udp_view (fv_st v)" using 1(2) False Ok a by auto
        then show ?thesis using 1(1) by metis
      qed
    next
      case (Stop x)
      then show ?thesis using 1(2) False by auto
    qed
  qed
qed

text \<open>The same for a call that may not return.\<close>

definition run_all :: "('a \<Rightarrow> bool) \<Rightarrow> 'a run \<Rightarrow> bool" where
  "run_all P m \<longleftrightarrow> (\<forall>y. m = Some (Ok y) \<longrightarrow> P y)"

lemma run_all_simps [simp]:
  "run_all P None" "run_all P (Some r) \<longleftrightarrow> res_all P r" "run_all P (run_bind m f) \<longleftrightarrow> run_all (\<lambda>x. run_all P (f x)) m"
  "run_all P (run_res s g) \<longleftrightarrow> res_all (\<lambda>x. run_all P (g x)) s"
  by (auto simp: run_all_def res_all_iff run_res_def run_bind_def split: option.splits res.splits)

lemma run_all_mono: "run_all P m \<Longrightarrow> (\<And>x. P x \<Longrightarrow> Q x) \<Longrightarrow> run_all Q m"
  by (auto simp: run_all_def)

lemma ip_frag_view: "(\<And>err c st'. udp_view st' = udp_view st \<Longrightarrow> P (err, c, st')) \<Longrightarrow> run_all P (ip_frag e nf n p dest st)"
proof (cases "rd_iphdr p")
  case (Ok h)
  assume P: "\<And>err c st'. udp_view st' = udp_view st \<Longrightarrow> P (err, c, st')"
  obtain mtu omf v where v: "ip_frag e nf n p dest st = ip_frag_loop e nf n dest h mtu omf v" "fv_st v = st"
    using Ok by (simp add: ip_frag_def Let_def)
  show ?thesis
  proof (cases "ip_frag e nf n p dest st")
    case (Some y)
    then have "res_all (\<lambda>(err, c, st'). udp_view st' = udp_view st) y" using ip_frag_loop_view [of e nf n dest h mtu omf v y] v by simp
    then show ?thesis using Some P by (auto simp: res_all_iff)
  qed simp
qed (simp add: ip_frag_def)

lemma ip_make_hdr_view:
  "(\<And>a b st'. udp_view st' = udp_view st \<Longrightarrow> P (Inl (a, b, st'))) \<Longrightarrow> (\<And>a b st'. udp_view st' = udp_view st \<Longrightarrow> P (Inr (a, b, st'))) \<Longrightarrow>
     res_all P (ip_make_hdr p src dest ttl tos proto st)"
  by (auto simp: ip_make_hdr_def split: option.split intro!: calls_any)

lemma ip_output_if_src_view:
  assumes "\<And>err c st'. udp_view st' = udp_view st \<Longrightarrow> P (err, c, st')"
  shows "run_all P (ip_output_if_src e nf p src dest ttl tos proto n st)"
proof (cases p)
  case (Cons q qs)
  have "res_all (\<lambda>r. run_all P (case r of Inl r \<Rightarrow> Some (Ok r)
      | Inr (p', d, st1) \<Rightarrow>
          let st2 = STATS_INC S_ip S_xmit st1; mtu = nif_mtu (nf_obj nf n)
          in if mtu \<noteq> 0 \<and> pb_tot_len (hd p') > unat mtu then ip_frag e nf n p' d st2
             else Some (res_bind (nw_output e nf n p' d st2) (\<lambda>(err, st3). Ok (err, p', st3)))))
    (ip_make_hdr p src dest ttl tos proto st)"
    by (rule ip_make_hdr_view) (auto simp: Let_def intro!: ip_frag_view calls_view assms)
  then show ?thesis by (cases "ip_make_hdr p src dest ttl tos proto st") (auto simp: ip_output_if_src_def Cons split: sum.splits)
qed (simp add: ip_output_if_src_def)

lemma ip_output_view:
  assumes "\<And>err c st'. udp_view st' = udp_view st \<Longrightarrow> P (err, c, st')"
  shows "run_all P (ip_output e nf p src dest ttl tos proto st)"
  using assms by (auto simp: ip_output_def ip_output_if_def Let_def split: list.split option.split intro!: ip_output_if_src_view)

lemma icmp_dest_unreach_view: "(\<And>st'. udp_view st' = udp_view st \<Longrightarrow> P st') \<Longrightarrow> run_all P (icmp_dest_unreach e nf p t st)"
  unfolding icmp_dest_unreach_def icmp_send_response_def run_all_simps Let_def
  by (rule calls_view) (auto split: option.split list.split intro!: calls_any calls_view ip_output_view)

subsection \<open>Every call keeps the control blocks in order\<close>

lemma udp_search_perm: "mset (fst (snd (udp_search lm rm obj before uncon bs))) = mset (before @ bs)"
  by (induction lm rm obj before uncon bs rule: udp_search.induct) auto

lemma udp_ok_perm:
  "udp_ok live st \<Longrightarrow> mset (udp_pcbs st') = mset (udp_pcbs st) \<Longrightarrow> udp_obj st' = udp_obj st \<Longrightarrow> udp_port st' = udp_port st \<Longrightarrow> udp_ok live st'"
proof -
  assume a: "udp_ok live st" "mset (udp_pcbs st') = mset (udp_pcbs st)" "udp_obj st' = udp_obj st" "udp_port st' = udp_port st"
  then have "set (udp_pcbs st') = set (udp_pcbs st)" "distinct (udp_pcbs st') = distinct (udp_pcbs st)"
    by (metis set_mset_mset, metis mset_eq_imp_distinct_iff)
  with a show ?thesis by (simp add: udp_ok_def)
qed

lemma udp_nobody_view: "(\<And>st'. udp_view st' = udp_view st \<Longrightarrow> P st') \<Longrightarrow> run_all P (udp_nobody e nf bc dest hlen p st)"
  by (auto simp: udp_nobody_def intro!: calls_any calls_view icmp_dest_unreach_view)

lemma udp_input_ok:
  assumes "udp_ok live st"
  shows "run_all (udp_ok live) (udp_input e nf inp src dest hlen p st)"
proof -
  have v: "udp_ok live st2" if "udp_view st2 = udp_view st1" "udp_view st1 = (bs, udp_obj st, udp_port st)" "mset bs = mset (udp_pcbs st)" for st1 st2 bs
    using that udp_ok_perm [OF assms, of st2] by (simp add: udp_view_def)
  have s: "mset bs = mset (udp_pcbs st)" if "udp_search lm rm obj [] None (udp_pcbs st) = (b, bs, hit)" for lm rm obj b bs hit
    using udp_search_perm [of lm rm obj "[]" None "udp_pcbs st"] that by simp
  show ?thesis
  proof (cases "p = [] \<or> pb_len (hd p) < 8")
    case True
    then show ?thesis using udp_ok_view [of _ st live] assms by (auto simp: udp_input_def Let_def split: list.split intro!: calls_view)
  next
    case False
    then obtain q qs where p: "p = q # qs" "\<not> pb_len q < 8" by (cases p) auto
    show ?thesis unfolding udp_input_def Let_def p(1) list.case
      by (auto simp: p(2) udp_view_def split: prod.split option.split intro!: calls_any calls_view udp_nobody_view v [OF _ _ s])
  qed
qed

lemma udp_connect_ok:
  assumes "udp_ok live st" and "pcb \<in> live" and "length (udp_pcbs st) < 0x4000"
  shows "res_all (\<lambda>(err, st'). udp_ok live st') (udp_connect pcb ip port st)"
proof -
  have c: "udp_ok live (upd_udp pcb (\<lambda>b. b\<lparr>up_remote_ip := ip, up_remote_port := port, up_flags := up_flags b OR 4\<rparr>) st1)" if "udp_ok live st1" for st1
    using that by (auto simp: udp_ok_def udp_clash_def)
  show ?thesis
  proof (cases "up_local_port (udp_obj st pcb) = 0")
    case True
    then show ?thesis using udp_bind_ok [OF assms, of "up_local_ip (udp_obj st pcb)" 0] c by (auto simp: udp_connect_def Let_def)
  next
    case False
    then have "pcb \<in> set (udp_pcbs st)" using assms(1,2) by (auto simp: udp_ok_def)
    then show ?thesis using False c [OF assms(1)] by (auto simp: udp_connect_def Let_def)
  qed
qed

lemma udp_sendto_ok:
  assumes "udp_ok live st" and "pcb \<in> live" and "length (udp_pcbs st) < 0x4000"
  shows "run_all (\<lambda>(err, c, st'). udp_ok live st') (udp_sendto e nf pcb p ip port st)"
proof -
  have h: "res_all P (udp_add_hdr e p st1)" if "\<And>a b c st2. udp_view st2 = udp_view st1 \<Longrightarrow> P (a, b, c, st2)" for P st1
    using that by (auto simp: udp_add_hdr_def split: option.split intro!: calls_any calls_view)
  have w: "res_all P (udp_write_hdr e b src dst port q)" if "\<And>x. P x" for P b src dst port q using that by (auto simp: res_all_iff)
  have b: "res_all (\<lambda>(err, st'). udp_ok live st') (if up_local_port (udp_obj st pcb) = 0 then udp_bind pcb (up_local_ip (udp_obj st pcb)) 0 st else Ok (ERR_OK, st))"
    using udp_bind_ok [OF assms, of "up_local_ip (udp_obj st pcb)" 0] assms(1) by auto
  have "run_all (\<lambda>(err, c, st'). udp_ok live st') (udp_sendto_if_src e nf pcb p ip port n src st)" for n src
    unfolding udp_sendto_if_src_def run_all_simps
    by (rule res_all_mono [OF b]) (auto simp: Let_def split: option.split intro!: h w ip_output_if_src_view calls_any, (metis udp_ok_view)+)
  then show ?thesis using assms(1) by (auto simp: udp_sendto_def udp_sendto_if_def Let_def split: option.split)
qed

text \<open>
  The states the file can get into. A block is used only while it is allocated, and the pool of
  blocks is smaller than the range of ports.
\<close>

inductive udp_reach :: "nat set \<Rightarrow> stack \<Rightarrow> bool" where
  init: "udp_pcbs st = [] \<Longrightarrow> udp_port st = 0xc000 \<Longrightarrow> udp_reach {} st"
| new: "udp_reach live st \<Longrightarrow> pcb \<notin> live \<Longrightarrow> udp_new e pcb st = (Some pcb, st') \<Longrightarrow> udp_reach (insert pcb live) st'"
| bind: "udp_reach live st \<Longrightarrow> pcb \<in> live \<Longrightarrow> length (udp_pcbs st) < 0x4000 \<Longrightarrow> udp_bind pcb ip port st = Ok (err, st') \<Longrightarrow> udp_reach live st'"
| connect: "udp_reach live st \<Longrightarrow> pcb \<in> live \<Longrightarrow> length (udp_pcbs st) < 0x4000 \<Longrightarrow> udp_connect pcb ip port st = Ok (err, st') \<Longrightarrow> udp_reach live st'"
| disconnect: "udp_reach live st \<Longrightarrow> pcb \<in> live \<Longrightarrow> udp_reach live (udp_disconnect pcb st)"
| recv: "udp_reach live st \<Longrightarrow> pcb \<in> live \<Longrightarrow> udp_reach live (udp_recv pcb r st)"
| remove: "udp_reach live st \<Longrightarrow> pcb \<in> live \<Longrightarrow> udp_reach (live - {pcb}) (udp_remove pcb st)"
| send: "udp_reach live st \<Longrightarrow> pcb \<in> live \<Longrightarrow> length (udp_pcbs st) < 0x4000 \<Longrightarrow>
    udp_sendto e (nf :: (unit, unit) netifs) pcb p ip port st = Some (Ok (err, c, st')) \<Longrightarrow> udp_reach live st'"
| input: "udp_reach live st \<Longrightarrow> udp_input e (nf :: (unit, unit) netifs) inp src dest hlen p st = Some (Ok st') \<Longrightarrow> udp_reach live st'"

lemma udp_remove_eq: "distinct (udp_pcbs st) \<Longrightarrow> udp_remove pcb st = st\<lparr>udp_pcbs := removeAll pcb (udp_pcbs st)\<rparr>"
  by (cases "udp_pcbs st") (auto simp: udp_remove_def)

lemma udp_reach_ok: "udp_reach live st \<Longrightarrow> udp_ok live st"
proof (induction rule: udp_reach.induct)
  case (init st)
  then show ?case by (simp add: udp_ok_def)
next
  case (new live st pcb e st')
  then have "pcb \<notin> set (udp_pcbs st)" by (auto simp: udp_ok_def)
  then show ?case using new by (auto simp: udp_new_def udp_ok_def called_def split: if_splits)
next
  case (bind live st pcb ip port err st')
  then show ?case using udp_bind_ok [of live st pcb ip port] by auto
next
  case (connect live st pcb ip port err st')
  then show ?case using udp_connect_ok [of live st pcb ip port] by auto
next
  case (disconnect live st pcb)
  then show ?case by (auto simp: udp_disconnect_def udp_ok_def udp_clash_def)
next
  case (recv live st pcb r)
  then show ?case by (auto simp: udp_recv_def udp_ok_def udp_clash_def)
next
  case (remove live st pcb)
  then have "distinct (udp_pcbs st)" by (simp add: udp_ok_def)
  then show ?case using remove.IH by (auto simp: udp_remove_eq udp_ok_def distinct_removeAll)
next
  case (send live st pcb e nf p ip port err c st')
  then show ?case using udp_sendto_ok [of live st pcb e nf p ip port] by (simp add: run_all_def)
next
  case (input live st e nf inp src dest hlen p st')
  then show ?case using udp_input_ok [of live st e nf inp src dest hlen p] by (simp add: run_all_def)
qed

end
