(* ===== verification/Udp_Datagrams.thy ===== *)
theory Udp_Datagrams
  imports Udp_Props
begin

text \<open>
  UDP over IPv4 as a whole: the bytes of a datagram on the wire, what \<^verbatim>\<open>udp_sendto_if_src\<close> sends,
  what \<^verbatim>\<open>ip_input\<close> and \<^verbatim>\<open>udp_input\<close> make of it, and the properties of the two files.
\<close>

unbundle bit_operations_syntax

subsection \<open>The datagram on the wire\<close>

definition udp_head :: "u16 \<Rightarrow> u16 \<Rightarrow> nat \<Rightarrow> u16 \<Rightarrow> bytes" where
  "udp_head sport dport n chk = le16 (lwip_htons sport) @ le16 (lwip_htons dport) @ le16 (lwip_htons (of_nat n)) @ le16 chk"

definition udp_sum :: "ip_addr \<Rightarrow> ip_addr \<Rightarrow> u16 \<Rightarrow> u16 \<Rightarrow> bytes \<Rightarrow> u16" where
  "udp_sum src dst sport dport d =
     (let c = inet_chksum 0 (pseudo_header src dst IP_PROTO_UDP (of_nat (8 + length d)) @ udp_head sport dport (8 + length d) 0 @ d)
      in if c = 0 then 0xffff else c)"

definition udp_packet :: "ip_addr \<Rightarrow> ip_addr \<Rightarrow> u16 \<Rightarrow> u16 \<Rightarrow> bytes \<Rightarrow> bytes" where
  "udp_packet src dst sport dport d = udp_head sport dport (8 + length d) (udp_sum src dst sport dport d) @ d"

lemma length_udp_head [simp]: "length (udp_head sport dport n chk) = 8"
  by (simp add: udp_head_def le16_def)

lemma length_udp_packet [simp]: "length (udp_packet src dst sport dport d) = 8 + length d"
  by (simp add: udp_packet_def)

lemma inet_chksum_field_ffff:
  assumes "even (length xs)" and "length xs + 2 + length ys \<le> 0x10000" and "inet_chksum addr (xs @ [0, 0] @ ys) = 0"
  shows "inet_chksum addr' (xs @ le16 0xffff @ ys) = 0"
proof (rule inet_chksum_zero)
  let ?s = "LWIP_CHKSUM addr (xs @ 0 # 0 # ys)"
  show "length (xs @ le16 0xffff @ ys) \<le> 0x20000" using assms(2) by (simp add: le16_def)
  have split: "ones_eq (le_sum (xs @ x # y # ys)) (le_sum xs + le_sum ys + unat (u16_of x y))" for x y
    using le_sum_append [of xs "x # y # ys"] assms(1) by (simp add: unat_u16_of algebra_simps)
  have "unat (NOT ?s) = 0" using assms(3) by (simp add: inet_chksum_def)
  then have s: "unat ?s = 65535" using unat_u16_less [of ?s] unat_not_u16 [of ?s] by linarith
  have "ones_eq (unat ?s) (le_sum xs + le_sum ys)"
    using ones_eq_trans [OF lwip_standard_chksum_sum split [of 0 0]] assms(2) by (simp add: unat_u16_of)
  then have "ones_eq 65535 (le_sum xs + le_sum ys)" unfolding s .
  then have a: "ones_eq (le_sum xs + le_sum ys + 65535) (65535 + 65535)" by (rule ones_eq_add [OF ones_eq_sym ones_eq_refl])
  have b: "ones_eq (65535 + 65535) 65535" by (simp add: ones_eq_def)
  have f: "le16 0xffff = [0xff, 0xff]" "unat (u16_of 0xff 0xff) = 65535" by (simp_all add: le16_def byte_of_def unat_u16_of)
  have "ones_eq (le_sum (xs @ 0xff # 0xff # ys)) (le_sum xs + le_sum ys + 65535)" using split [of "0xff" "0xff"] unfolding f(2) .
  then show "ones_eq (le_sum (xs @ le16 0xffff @ ys)) 65535"
    unfolding f(1) append.simps by (rule ones_eq_trans [OF _ ones_eq_trans [OF a b]])
qed

lemma udp_packet_sum:
  assumes "length d + 8 < 65516"
  shows "inet_chksum adr (pseudo_header src dst IP_PROTO_UDP (of_nat (8 + length d)) @ udp_packet src dst sport dport d) = 0"
    and "udp_sum src dst sport dport d \<noteq> 0"
proof -
  let ?x = "pseudo_header src dst IP_PROTO_UDP (of_nat (8 + length d)) @ le16 (lwip_htons sport) @ le16 (lwip_htons dport) @ le16 (lwip_htons (of_nat (8 + length d)))"
  have z: "le16 0 = [0, 0]" by (simp add: le16_def byte_of_def)
  have x: "even (length ?x)" "length ?x + 2 + length d \<le> 0x10000" using assms by (simp_all add: pseudo_header_def le16_def le32_def)
  let ?c = "inet_chksum 0 (?x @ [0, 0] @ d)"
  have s: "udp_sum src dst sport dport d = (if ?c = 0 then 0xffff else ?c)" by (simp add: udp_sum_def udp_head_def z Let_def)
  then show "udp_sum src dst sport dport d \<noteq> 0" by simp
  have "inet_chksum adr (?x @ le16 (udp_sum src dst sport dport d) @ d) = 0"
    unfolding s using inet_chksum_field [OF x, of adr 0] inet_chksum_field_ffff [OF x, of 0 adr] by simp
  then show "inet_chksum adr (pseudo_header src dst IP_PROTO_UDP (of_nat (8 + length d)) @ udp_packet src dst sport dport d) = 0"
    by (simp add: udp_packet_def udp_head_def)
qed

lemma inet_chksum_pseudo_inet:
  assumes "chain_wf p"
  shows "inet_chksum_pseudo adr p proto n src dst = inet_chksum 0 (pseudo_header src dst proto n @ chain_data p)"
proof -
  have "length (pseudo_header src dst proto n @ chain_data p) \<le> 0x20000"
    using chain_tot_less [OF assms] length_chain_data [OF assms] by (simp add: pseudo_header_def le16_def le32_def)
  then show ?thesis by (simp add: inet_chksum_pseudo_data [OF assms] inet_chksum_rfc)
qed

subsection \<open>Sending\<close>

lemma udp_write_hdr_ok:
  assumes "chain_wf (q # qs)" and "8 \<le> pb_len q" and "up_flags b AND UDP_FLAGS_NOCHKSUM = 0"
  shows "\<exists>q'. udp_write_hdr e b src dst dport (q # qs) = Ok (q' # qs) \<and> chain_wf (q' # qs) \<and>
    pb_len q' = pb_len q \<and> pb_off q' = pb_off q \<and> pb_type q' = pb_type q \<and> pb_ref q' = pb_ref q \<and> pb_tot_len q' = pb_tot_len q \<and>
    chain_data (q' # qs) = udp_packet src dst (up_local_port b) dport (drop 8 (chain_data (q # qs)))"
proof -
  let ?d = "drop 8 (chain_data (q # qs))" and ?sp = "up_local_port b"
  have tot: "length (chain_data (q # qs)) = pb_tot_len q" "8 \<le> pb_tot_len q" using length_chain_data [OF assms(1)] assms(1,2) by auto
  then have n: "8 + length ?d = pb_tot_len q" by simp
  let ?h = "udp_head ?sp dport (pb_tot_len q) 0"
  have "length ?h \<le> pb_len q" using assms(2) by simp
  note w = wr_hdr_ok [OF assms(1) this]
  define q1 where "q1 = pb_put 0 ?h q"
  have w1: "wr_hdr 0 ?h (q # qs) = Ok (q1 # qs)" "chain_wf (q1 # qs)" "pb_payload q1 = ?h @ drop 8 (pb_payload q)"
    using w(1,2) w(3) [unfolded length_udp_head] unfolding q1_def by blast+
  have q1: "pb_len q1 = pb_len q" "pb_off q1 = pb_off q" "pb_type q1 = pb_type q" "pb_ref q1 = pb_ref q" "pb_tot_len q1 = pb_tot_len q"
    by (simp_all add: q1_def)
  have "length (pb_payload q) = pb_len q" using assms(1) by (simp add: length_pb_payload)
  then have d1: "chain_data (q1 # qs) = ?h @ ?d" using w1(3) assms(2) by simp
  let ?c = "inet_chksum_pseudo (ie_adr e) (q1 # qs) IP_PROTO_UDP (of_nat (pb_tot_len q)) src dst"
  have c: "(if ?c = 0 then 0xffff else ?c) = udp_sum src dst ?sp dport ?d"
    unfolding inet_chksum_pseudo_inet [OF w1(2)] d1 udp_sum_def n Let_def by (rule refl)
  define q2 where "q2 = pb_put 6 (le16 (udp_sum src dst ?sp dport ?d)) q1"
  have p1: "pbuf_wf q1" using w1(2) by simp
  have w2: "wr_hdr 6 (le16 (udp_sum src dst ?sp dport ?d)) (q1 # qs) = Ok (q2 # qs)"
    using p1 assms(2) by (simp add: wr_hdr_def q2_def pb_put_def pbuf_wf_def q1 le16_def nat_add_distrib)
  have wf2: "chain_wf (q2 # qs)" using w1(2) pbuf_wf_put [OF p1, of 6 "le16 (udp_sum src dst ?sp dport ?d)"] assms(2)
    by (simp add: q2_def q1 le16_def)
  have "pb_payload q2 = buf_put 6 (le16 (udp_sum src dst ?sp dport ?d)) (?h @ drop 8 (pb_payload q))"
    using payload_put [OF p1, of 6] assms(2) w1(3) by (simp add: q2_def q1 le16_def)
  also have "\<dots> = udp_head ?sp dport (pb_tot_len q) (udp_sum src dst ?sp dport ?d) @ drop 8 (pb_payload q)"
    by (simp add: udp_head_def le16_def buf_put_def)
  finally have d2: "chain_data (q2 # qs) = udp_packet src dst ?sp dport ?d"
    using \<open>length (pb_payload q) = pb_len q\<close> assms(2) unfolding udp_packet_def n by simp
  have "udp_write_hdr e b src dst dport (q # qs) = Ok (q2 # qs)"
    using w1(1) assms(3) c w2 by (simp add: udp_write_hdr_def udp_head_def Let_def)
  moreover have "pb_len q2 = pb_len q" "pb_off q2 = pb_off q" "pb_type q2 = pb_type q" "pb_ref q2 = pb_ref q" "pb_tot_len q2 = pb_tot_len q"
    by (simp_all add: q2_def q1)
  ultimately show ?thesis using wf2 d2 by blast
qed

text \<open>A packet with room for all headers.\<close>

definition udp_ready :: "chain \<Rightarrow> bool" where
  "udp_ready p \<longleftrightarrow> (case p of [] \<Rightarrow> False | q # _ \<Rightarrow>
     chain_wf p \<and> 28 \<le> pb_off q \<and> (pb_type q = PBUF_RAM \<or> pb_type q = PBUF_POOL) \<and> pb_tot_len q + 28 < 65536 \<and> pb_ref q = 1)"

lemma udp_send_ok:
  assumes "udp_ready p" and b: "udp_obj st pcb = b" "up_local_port b \<noteq> 0" "up_flags b AND UDP_FLAGS_NOCHKSUM = 0"
    and "nif_output (nf_obj nf n) \<noteq> None" and "length (chain_data p) + 28 \<le> unat (nif_mtu (nf_obj nf n))"
  shows "\<exists>p' st'. udp_sendto_if_src e nf pcb p dst dport n src st = Some (Ok (ie_out e (nw_calls st), p', st')) \<and> chain_wf p' \<and>
    nw_sent st' = nw_sent st @ [(n, p', dst)] \<and>
    chain_data p' = ip_packet (up_ttl b) (up_tos b) IP_PROTO_UDP (ip_id st) src dst (udp_packet src dst (up_local_port b) dport (chain_data p))"
proof -
  obtain q qs where p: "p = q # qs" using assms(1) by (cases p) (simp_all add: udp_ready_def)
  have r: "chain_wf (q # qs)" "28 \<le> pb_off q" "pb_type q = PBUF_RAM \<or> pb_type q = PBUF_POOL" "pb_tot_len q + 28 < 65536" "pb_ref q = 1"
    using assms(1) by (simp_all add: udp_ready_def p)
  define q1 where "q1 = q\<lparr>pb_off := pb_off q - 8, pb_len := pb_len q + 8, pb_tot_len := pb_tot_len q + 8\<rparr>"
  have "8 \<le> pb_off q" "pb_tot_len q + 8 < 65536" using r(2,4) by simp_all
  note rev = pbuf_header_reveal [OF r(1) _ this(1) r(3) this(2), folded q1_def]
  have h: "pbuf_header (q # qs) (int 8) = Ok (0, q1 # qs)" "chain_wf (q1 # qs)"
    "pb_payload q1 = take 8 (drop (pb_off q - 8) (pb_mem q)) @ pb_payload q" by (rule rev, simp)+
  have "length (take 8 (drop (pb_off q - 8) (pb_mem q))) = 8" using r(1,2) by (auto simp: pbuf_wf_def)
  then have d1: "drop 8 (chain_data (q1 # qs)) = chain_data p" using h(3) by (simp add: p)
  have l1: "8 \<le> pb_len q1" by (simp add: q1_def)
  obtain q2 where q2: "udp_write_hdr e b src dst dport (q1 # qs) = Ok (q2 # qs)" "chain_wf (q2 # qs)"
    "pb_len q2 = pb_len q1" "pb_off q2 = pb_off q1" "pb_type q2 = pb_type q1" "pb_ref q2 = pb_ref q1" "pb_tot_len q2 = pb_tot_len q1"
    "chain_data (q2 # qs) = udp_packet src dst (up_local_port b) dport (chain_data p)"
    using udp_write_hdr_ok [OF h(2) l1 b(3), of e src dst dport] unfolding d1 by blast
  have ready: "ip_ready (q2 # qs)" using q2(2-7) r by (simp add: ip_ready_def q1_def)
  have fits: "nif_mtu (nf_obj nf n) = 0 \<or> length (chain_data (q2 # qs)) + 20 \<le> unat (nif_mtu (nf_obj nf n))"
    using assms(6) unfolding q2(8) by simp
  obtain p' st' where o: "ip_output_if_src e nf (q2 # qs) (Some src) (Some dst) (up_ttl b) (up_tos b) IP_PROTO_UDP n st =
      Some (Ok (ie_out e (nw_calls st), p', st'))" "chain_wf p'"
    "chain_data p' = ip_packet (up_ttl b) (up_tos b) IP_PROTO_UDP (ip_id st) src dst (chain_data (q2 # qs))"
    "nw_sent st' = nw_sent st @ [(n, p', dst)]"
    using ip_output_if_src_fits [OF ready assms(5) fits, of e "Some src" dst "up_ttl b" "up_tos b" IP_PROTO_UDP st] by auto
  have "udp_sendto_if_src e nf pcb p dst dport n src st = Some (Ok (ie_out e (nw_calls st), p', STATS_INC S_udp S_xmit st'))"
    using h(1) q2(1) o(1) b(1,2) l1 by (simp add: udp_sendto_if_src_def udp_add_hdr_def p Let_def)
  then show ?thesis using o(2-4) unfolding q2(8) by (intro exI [of _ p'] exI [of _ "STATS_INC S_udp S_xmit st'"]) simp
qed

subsection \<open>Receiving\<close>

lemma udp_search_only:
  assumes "b \<in> set bs" and "lm (obj b)" and "rm (obj b) \<or> up_flags (obj b) AND UDP_FLAGS_CONNECTED = 0"
    and "\<forall>a\<in>set bs. lm (obj a) \<longrightarrow> a = b"
  shows "fst (udp_search lm rm obj before None bs) = Some b"
proof -
  have none: "fst (udp_search lm rm obj before (Some b) cs) = Some b" if "\<forall>a\<in>set cs. lm (obj a) \<longrightarrow> a = b" for before cs
    using that by (induction cs arbitrary: before) auto
  show ?thesis using assms(1,4)
  proof (induction bs arbitrary: before)
    case (Cons a bs)
    show ?case
    proof (cases "a = b")
      case True
      have "fst (udp_search lm rm obj (before @ [b]) (Some b) bs) = Some b" by (rule none) (use Cons.prems(2) True in simp)
      then show ?thesis using assms(2,3) True by (cases "rm (obj b)") simp_all
    next
      case False
      then have "\<not> lm (obj a)" using Cons.prems(2) by simp
      moreover have "fst (udp_search lm rm obj (before @ [a]) None bs) = Some b" by (rule Cons.IH) (use Cons.prems False in simp_all)
      ultimately show ?thesis by simp
    qed
  qed simp
qed

text \<open>A datagram is meant for one block: it is bound to the destination, and connected to the sender or to nobody.\<close>

definition udp_listens :: "stack \<Rightarrow> nat \<Rightarrow> ip_addr \<Rightarrow> u16 \<Rightarrow> ip_addr \<Rightarrow> u16 \<Rightarrow> bool" where
  "udp_listens st b src sport dst dport \<longleftrightarrow>
     b \<in> set (udp_pcbs st) \<and> up_recv (udp_obj st b) \<and> up_local_port (udp_obj st b) = dport \<and>
     (up_local_ip (udp_obj st b) = IPADDR_ANY \<or> up_local_ip (udp_obj st b) = dst) \<and>
     (udp_remote_match src sport (udp_obj st b) \<or> up_flags (udp_obj st b) AND UDP_FLAGS_CONNECTED = 0)"

lemma udp_local_match_unicast:
  "udp_local_match False netmask dst dport b \<longleftrightarrow> up_local_port b = dport \<and> (up_local_ip b = IPADDR_ANY \<or> up_local_ip b = dst)"
  by (auto simp: udp_local_match_def)

lemma udp_input_delivers:
  assumes wf: "chain_wf p" "p \<noteq> []" "8 \<le> pb_len (hd p)" and data: "chain_data p = udp_packet src dst sport dport d"
    and ok: "udp_ok live st" and b: "udp_listens st b src sport dst dport"
    and len: "length d + 8 < 65516"
    and uni: "\<not> ip4_addr_isbroadcast dst (netif.truncate (nf_obj nf inp))"
  shows "\<exists>c st'. udp_input e nf inp src dst hlen p st = Some (Ok st') \<and> nw_up st' = nw_up st @ [To_udp b c src sport] \<and>
    chain_wf c \<and> chain_data c = d"
proof -
  obtain q qs where p: "p = q # qs" using wf(2) by (cases p) auto
  have w: "chain_wf (q # qs)" "8 \<le> pb_len q" using wf p by simp_all
  let ?lm = "udp_local_match False (nif_netmask (nf_obj nf inp)) dst dport" and ?rm = "udp_remote_match src sport"
  obtain pcbs hit where s: "udp_search ?lm ?rm (udp_obj st) [] None (udp_pcbs st) = (Some b, pcbs, hit)"
  proof -
    have m: "up_local_port (udp_obj st b) = dport" "up_local_ip (udp_obj st b) = IPADDR_ANY \<or> up_local_ip (udp_obj st b) = dst"
      "b \<in> set (udp_pcbs st)" "?rm (udp_obj st b) \<or> up_flags (udp_obj st b) AND UDP_FLAGS_CONNECTED = 0" using b by (simp_all add: udp_listens_def)
    have only: "a = b" if "a \<in> set (udp_pcbs st)" "?lm (udp_obj st a)" for a
      using ok that m by (auto simp: udp_ok_def udp_local_match_unicast udp_clash_def)
    have "fst (udp_search ?lm ?rm (udp_obj st) [] None (udp_pcbs st)) = Some b"
    proof (rule udp_search_only)
      show "?lm (udp_obj st b)" using m(1,2) by (simp add: udp_local_match_unicast)
      show "\<forall>a\<in>set (udp_pcbs st). ?lm (udp_obj st a) \<longrightarrow> a = b" using only by blast
    qed (rule m(3), rule m(4))
    then show thesis using that by (metis prod.exhaust_sel)
  qed
  have tot: "8 + length d = pb_tot_len q" using length_chain_data [OF w(1)] data [unfolded p] by (simp only: length_udp_packet chain_tot_simps)
  have hd8: "rdn (pb_mem q) (pb_off q) 8 = Ok (udp_head sport dport (8 + length d) (udp_sum src dst sport dport d))"
  proof -
    have "rdn (pb_mem q) (pb_off q) 8 = Ok (take 8 (chain_data (q # qs)))" using w by (auto simp: rdn_def pbuf_wf_def pb_payload_def min_def)
    then show ?thesis unfolding data [unfolded p] by (simp add: udp_packet_def)
  qed
  have sum0: "inet_chksum_pseudo (ie_adr e) (q # qs) IP_PROTO_UDP (of_nat (pb_tot_len q)) src dst = 0"
    unfolding inet_chksum_pseudo_inet [OF w(1)] data [unfolded p] tot [symmetric] by (rule udp_packet_sum(1) [OF len])
  define h where "h = udp_head sport dport (8 + length d) (udp_sum src dst sport dport d)"
  have hdr: "lwip_ntohs (u16_of (h ! 0) (h ! Suc 0)) = sport" "lwip_ntohs (u16_of (h ! 2) (h ! 3)) = dport"
    by (simp_all add: h_def udp_head_def le16_def lwip_ntohs_def)
  obtain q' where q': "pbuf_header (q # qs) (- int 8) = Ok (0, q' # qs)" "chain_wf (q' # qs)" "chain_data (q' # qs) = drop 8 (chain_data (q # qs))"
    using pbuf_header_hide [OF w(1) _ w(2)] by auto
  define st1 where "st1 = (if hit then STATS_INC S_udp S_cachehit (STATS_INC S_udp S_recv st) else STATS_INC S_udp S_recv st)\<lparr>udp_pcbs := pcbs\<rparr>"
  have "udp_input e nf inp src dst hlen p st = Some (Ok (st1\<lparr>nw_up := nw_up st1 @ [To_udp b (q' # qs) src sport]\<rparr>))"
    using w(2) hd8 [folded h_def] uni sum0 s q'(1) b unfolding udp_input_def p Let_def list.case
    by (simp add: hdr st1_def udp_listens_def)
  moreover have "nw_up st1 = nw_up st" by (simp add: st1_def)
  moreover have "chain_data (q' # qs) = d" using q'(3) unfolding data [unfolded p] by (simp add: udp_packet_def)
  ultimately show ?thesis using q'(2) by (intro exI [of _ "q' # qs"]) simp
qed

subsection \<open>A packet that comes in\<close>

text \<open>The part of \<^verbatim>\<open>ip_input\<close> up to the trimming of the packet, for a header without options whose checksum is right.\<close>

lemma ip_input_checked:
  assumes "chain_wf (q # qs)" and "20 \<le> pb_len q" and h: "take 20 (chain_data (q # qs)) = h" and "IPH_V h = 4" and "IPH_HL h = 5"
    and "iph_sum_ok h" and "unat (lwip_ntohs (IPH_LEN h)) \<le> pb_tot_len q"
  shows "ip_input e nf inp (q # qs) st =
    run_res (pbuf_realloc (q # qs) (unat (lwip_ntohs (IPH_LEN h)))) (\<lambda>p1. ip_input_for_us e nf inp 20 p1 (STATS_INC S_ip S_recv st))"
proof -
  have r: "rdn (pb_mem q) (pb_off q) 20 = Ok h" using rd_iphdr_data [OF assms(1,2)] h by (simp add: rd_iphdr_def)
  then have m: "pb_off q + 20 \<le> length (pb_mem q)" "take 20 (drop (pb_off q) (pb_mem q)) = h" by (auto simp: rdn_def split: if_splits)
  have n: "pb_mem q ! (pb_off q + i) = h ! i" if "i < 20" for i using m that by (auto simp flip: m(2))
  have b0: "rd (pb_mem q) (pb_off q) = Ok (h ! 0)" using m(1) n [of 0] by (simp add: rd_def)
  have "take 2 (drop (pb_off q + 2) (pb_mem q)) = [pb_mem q ! (pb_off q + 2), pb_mem q ! (pb_off q + 3)]"
    using m(1) by (simp add: numeral_2_eq_2 numeral_3_eq_3 take_Suc_conv_app_nth)
  then have b2: "rdn (pb_mem q) (pb_off q + 2) 2 = Ok [h ! 2, h ! 3]" using m(1) n [of 2] n [of 3] by (simp add: rdn_def)
  have "unat (h ! 0 AND 0x0f) * 4 = 20" "drop_bit 4 (h ! 0) = 4" "inet_chksum a h = 0" for a
    using assms(4-6) by (simp_all add: IPH_HL_def IPH_V_def iph_sum_ok_def)
  then show ?thesis using assms(2,7) by (simp add: ip_input_def b0 b2 [simplified] r IPH_LEN_def Let_def)
qed

lemma ip_input_for_us_ok:
  assumes "rd_iphdr p = Ok h" and "ip_accepts nf (iph_dest h) inp"
    and "\<not> ip4_addr_isbroadcast (iph_src h) (netif.truncate (nf_obj nf inp))" and "\<not> ip_addr_ismulticast (iph_src h)" and "IPH_OFFSET h = 0"
  shows "ip_input_for_us e nf inp hlen p st = ip_deliver e nf inp (iph_src h) (iph_dest h) hlen h p st"
proof -
  have "ip_input_loop nf (iph_dest h) inp True inp = Some (Some inp)" by (subst ip_input_loop.simps) (simp add: assms(2))
  then show ?thesis using assms by (simp add: ip_input_for_us_def)
qed

lemma ip_hdr_of_fields:
  "IPH_V (ip_hdr_of ttl tos proto len ipid src dst) = 4" "IPH_HL (ip_hdr_of ttl tos proto len ipid src dst) = 5"
  "IPH_LEN (ip_hdr_of ttl tos proto len ipid src dst) = lwip_htons len" "IPH_OFFSET (ip_hdr_of ttl tos proto len ipid src dst) = 0"
  "IPH_PROTO (ip_hdr_of ttl tos proto len ipid src dst) = proto"
  "iph_src (ip_hdr_of ttl tos proto len ipid src dst) = src" "iph_dest (ip_hdr_of ttl tos proto len ipid src dst) = dst"
  by (simp_all add: ip_hdr_of_def)

text \<open>The receiver of a packet: the interface has the destination, and the source is a host.\<close>

definition ip_for :: "('s, 'o) netifs \<Rightarrow> nat \<Rightarrow> ip_addr \<Rightarrow> ip_addr \<Rightarrow> bool" where
  "ip_for nf inp src dst \<longleftrightarrow>
     netif_is_up nf inp \<and> nif_ip_addr (nf_obj nf inp) = dst \<and> dst \<noteq> IPADDR_ANY \<and> \<not> ip4_addr_isbroadcast dst (netif.truncate (nf_obj nf inp)) \<and>
     \<not> ip4_addr_isbroadcast src (netif.truncate (nf_obj nf inp)) \<and> \<not> ip_addr_ismulticast src"

lemma ip_input_packet:
  assumes "chain_wf c" "c \<noteq> []" "20 \<le> pb_len (hd c)" and data: "chain_data c = ip_packet ttl tos proto ipid src dst d" and "ip_for nf inp src dst"
  shows "\<exists>q'. ip_input e nf inp c st =
      ip_deliver e nf inp src dst 20 (ip_hdr_of ttl tos proto (of_nat (length d + 20)) ipid src dst) c (STATS_INC S_ip S_recv st) \<and>
    pbuf_header c (- int 20) = Ok (0, q' # tl c) \<and> chain_wf (q' # tl c) \<and> chain_data (q' # tl c) = d \<and> pb_len q' = pb_len (hd c) - 20"
proof -
  obtain q qs where c: "c = q # qs" using assms(2) by (cases c) auto
  have w: "chain_wf (q # qs)" "20 \<le> pb_len q" using assms(1,3) c by simp_all
  define h where "h = ip_hdr_of ttl tos proto (of_nat (length d + 20)) ipid src dst"
  have f: "IPH_V h = 4" "IPH_HL h = 5" "IPH_OFFSET h = 0" "iph_src h = src" "iph_dest h = dst" "iph_sum_ok h"
    by (simp_all add: h_def ip_hdr_of_fields ip_hdr_of_sum_ok)
  have tot: "pb_tot_len q = length d + 20" "length d + 20 < 65536"
    using length_chain_data [OF w(1)] w(1) data [unfolded c] by (simp_all only: length_ip_packet chain_tot_simps) auto
  have h: "take 20 (chain_data (q # qs)) = h" unfolding data [unfolded c] by (simp add: ip_packet_def h_def)
  have len: "unat (lwip_ntohs (IPH_LEN h)) = pb_tot_len q"
  proof -
    have "unat (of_nat m :: u16) = m" if "m < 65536" for m using that by (simp add: unat_of_nat)
    from this [OF tot(2)] show ?thesis by (simp add: h_def ip_hdr_of_fields lwip_ntohs_def tot(1) del: of_nat_add)
  qed
  have re: "pbuf_realloc (q # qs) (pb_tot_len q) = Ok (q # qs)" by (simp add: pbuf_realloc_def)
  have acc: "ip_accepts nf dst inp" using assms(5) by (simp add: ip_accepts_def ip_for_def)
  have "ip_input e nf inp c st = ip_input_for_us e nf inp 20 (q # qs) (STATS_INC S_ip S_recv st)"
    using ip_input_checked [OF w h f(1,2,6), of e nf inp st] by (simp only: len re c run_bind_simps order_refl)
  also have "\<dots> = ip_deliver e nf inp src dst 20 h c (STATS_INC S_ip S_recv st)"
    using ip_input_for_us_ok [OF rd_iphdr_data [OF w, unfolded h], of nf inp] acc assms(5) f(3) unfolding f c by (simp add: ip_for_def)
  finally have "ip_input e nf inp c st = ip_deliver e nf inp src dst 20 h c (STATS_INC S_ip S_recv st)" .
  moreover obtain q' where q': "pbuf_header (q # qs) (- int 20) = Ok (0, q' # qs)" "chain_wf (q' # qs)" "chain_data (q' # qs) = drop 20 (chain_data (q # qs))"
    using pbuf_header_hide [OF w(1) _ w(2)] by auto
  moreover have "pb_len q' = pb_len q - 20"
  proof -
    have "pb_len q < 65536" using w(1) by auto
    then have "nat ((int (pb_len q) - 20) mod 65536) = pb_len q - 20" using w(2) by (simp add: nat_diff_distrib)
    then show ?thesis using q'(1) w(2) by (auto simp: pbuf_header_def Let_def split: if_splits)
  qed
  moreover have "drop 20 (chain_data (q # qs)) = d" unfolding data [unfolded c] by (simp add: ip_packet_def)
  ultimately show ?thesis unfolding c h_def by (intro exI [of _ q']) simp
qed

subsection \<open>Properties\<close>

text \<open>
  C14: UDP from end to end. A datagram sent through a bound control block leaves as one packet; when
  the bytes of this packet arrive at the host with the destination address, \<^verbatim>\<open>ip_input\<close> and
  \<^verbatim>\<open>udp_input\<close> accept its checksums and hand exactly the data that was sent, with the address and
  the port of the sender, to the control block that is bound to the destination port and is
  connected to the sender or to nobody.
\<close>

theorem udp_end_to_end:
  fixes nf nf2 :: "(unit, unit) netifs"
  assumes "udp_ready p" and "up_local_port (udp_obj st pcb) = sport" "sport \<noteq> 0" "up_flags (udp_obj st pcb) AND UDP_FLAGS_NOCHKSUM = 0"
    and "nif_output (nf_obj nf n) \<noteq> None" and "length (chain_data p) + 28 \<le> unat (nif_mtu (nf_obj nf n))"
    and "udp_reach live rst" and "udp_listens rst b src sport dst dport" and "ip_for nf2 inp src dst"
  shows "\<exists>p' st'. udp_sendto_if_src e nf pcb p dst dport n src st = Some (Ok (ie_out e (nw_calls st), p', st')) \<and>
    nw_sent st' = nw_sent st @ [(n, p', dst)] \<and>
    chain_data p' = ip_packet (up_ttl (udp_obj st pcb)) (up_tos (udp_obj st pcb)) IP_PROTO_UDP (ip_id st) src dst
      (udp_packet src dst sport dport (chain_data p)) \<and>
    (\<forall>c. chain_data c = chain_data p' \<and> chain_wf c \<and> c \<noteq> [] \<and> 28 \<le> pb_len (hd c) \<longrightarrow>
      (\<exists>u rst'. ip_input e2 nf2 inp c rst = Some (Ok rst') \<and> nw_up rst' = nw_up rst @ [To_udp b u src sport] \<and>
        chain_wf u \<and> chain_data u = chain_data p))"
proof -
  let ?b = "udp_obj st pcb" and ?u = "udp_packet src dst sport dport (chain_data p)"
  obtain p' st' where s: "udp_sendto_if_src e nf pcb p dst dport n src st = Some (Ok (ie_out e (nw_calls st), p', st'))" "chain_wf p'"
    "nw_sent st' = nw_sent st @ [(n, p', dst)]" "chain_data p' = ip_packet (up_ttl ?b) (up_tos ?b) IP_PROTO_UDP (ip_id st) src dst ?u"
    using udp_send_ok [OF assms(1) refl _ assms(4-6), of e dst dport src] assms(2,3) by auto
  have len: "length (chain_data p) + 8 < 65516"
    using assms(1) length_chain_data [of p] by (auto simp: udp_ready_def split: list.splits)
  have "\<exists>u rst'. ip_input e2 nf2 inp c rst = Some (Ok rst') \<and> nw_up rst' = nw_up rst @ [To_udp b u src sport] \<and> chain_wf u \<and> chain_data u = chain_data p"
    if c: "chain_data c = chain_data p'" "chain_wf c" "c \<noteq> []" "28 \<le> pb_len (hd c)" for c
  proof -
    define h where "h = ip_hdr_of (up_ttl ?b) (up_tos ?b) IP_PROTO_UDP (of_nat (length ?u + 20)) (ip_id st) src dst"
    have l20: "20 \<le> pb_len (hd c)" using c(4) by simp
    obtain q' where q': "ip_input e2 nf2 inp c rst = ip_deliver e2 nf2 inp src dst 20 h c (STATS_INC S_ip S_recv rst)"
      "pbuf_header c (- int 20) = Ok (0, q' # tl c)" "chain_wf (q' # tl c)" "chain_data (q' # tl c) = ?u" "pb_len q' = pb_len (hd c) - 20"
      using ip_input_packet [OF c(2,3) l20 c(1) [unfolded s(4)] assms(9), of e2 rst] unfolding h_def by blast
    have h: "IPH_PROTO h = IP_PROTO_UDP" "IPH_HL h = 5" by (simp_all add: h_def ip_hdr_of_fields)
    have ok: "udp_ok live (STATS_INC S_ip S_recv rst)" using udp_reach_ok [OF assms(7)] by simp
    have li: "udp_listens (STATS_INC S_ip S_recv rst) b src sport dst dport" using assms(8) by (simp add: udp_listens_def)
    have bc: "\<not> ip4_addr_isbroadcast dst (netif.truncate (nf_obj nf2 inp))" using assms(9) by (simp add: ip_for_def)
    have "8 \<le> pb_len (hd (q' # tl c))" using q'(5) c(4) by simp
    from udp_input_delivers [OF q'(3) _ this q'(4) ok li len bc, of e2 20] show ?thesis
      using q'(1,2) h by (auto simp: ip_deliver_def)
  qed
  then show ?thesis using s(1,3,4) by (intro exI [of _ p'] exI [of _ st']) blast
qed

definition demo_sender :: stack where
  "demo_sender = udp_recv 0 True (upd_udp 0 (\<lambda>b. b\<lparr>up_local_port := 1234, up_ttl := 255\<rparr>) demo_stack)"

definition demo_bound :: stack where
  "demo_bound = (upd_udp 1 (\<lambda>_. \<lparr>up_local_ip = 0, up_remote_ip = 0, up_local_port = 53, up_remote_port = 0, up_flags = 0,
     up_tos = 0, up_ttl = 255, up_recv = False\<rparr>) (called demo_stack))\<lparr>udp_pcbs := [1]\<rparr>"

definition demo_receiver :: stack where
  "demo_receiver = udp_recv 1 True demo_bound"

lemma demo_receiver_reach: "udp_reach {1} demo_receiver"
proof -
  let ?s = "upd_udp 1 (\<lambda>_. \<lparr>up_local_ip = 0, up_remote_ip = 0, up_local_port = 0, up_remote_port = 0, up_flags = 0,
    up_tos = 0, up_ttl = 255, up_recv = False\<rparr>) (called demo_stack)"
  have "udp_reach {} demo_stack" by (rule udp_reach.init) (simp_all add: demo_stack_def)
  then have r: "udp_reach (insert 1 {}) ?s" by (rule udp_reach.new [where e = demo_env]) (simp_all add: udp_new_def demo_env_def)
  have "udp_bind 1 0 53 ?s = Ok (ERR_OK, demo_bound)"
    by (simp add: udp_bind_def demo_bound_def upd_udp_def called_def demo_stack_def Let_def)
  from udp_reach.bind [OF r _ _ this] have "udp_reach {1} demo_bound" by (simp add: called_def demo_stack_def)
  then show ?thesis unfolding demo_receiver_def by (rule udp_reach.recv) simp
qed

definition demo_data :: chain where
  "demo_data = [\<lparr>pb_mem = replicate 28 0 @ [1, 2, 3], pb_off = 28, pb_tot_len = 3, pb_len = 3, pb_type = PBUF_RAM, pb_flags = 0, pb_ref = 1\<rparr>]"

lemma demo_for: "ip_for (demo_netifs 1500) 0 0x0200000a 0x0100000a"
  by (simp add: ip_for_def demo_netifs_def netif_is_up_def ip4_addr_isbroadcast_def netif.truncate_def ip_addr_ismulticast_def Let_def)

theorem udp_end_to_end_witness:
  "\<exists>p' st' u rst'. udp_sendto_if_src demo_env (demo_netifs 1500) 0 demo_data 0x0100000a 53 0 0x0200000a demo_sender = Some (Ok (ERR_OK, p', st')) \<and>
     ip_input demo_env (demo_netifs 1500) 0 (one_pbuf (chain_data p')) demo_receiver = Some (Ok rst') \<and>
     nw_up rst' = [To_udp 1 u 0x0200000a 1234] \<and> chain_data u = [1, 2, 3]"
proof -
  have d: "udp_ready demo_data" "chain_data demo_data = [1, 2, 3]"
    by (simp_all add: demo_data_def udp_ready_def pbuf_wf_def chain_tot_def pb_payload_def)
  have s: "up_local_port (udp_obj demo_sender 0) = 1234" "up_flags (udp_obj demo_sender 0) AND 1 = 0" "nw_calls demo_sender = 0"
    by (simp_all add: demo_sender_def udp_recv_def upd_udp_def demo_stack_def)
  have r: "udp_listens demo_receiver 1 0x0200000a 1234 0x0100000a 53" "nw_up demo_receiver = []"
    by (simp_all add: demo_receiver_def demo_bound_def udp_listens_def udp_recv_def upd_udp_def demo_stack_def called_def)
  have e: "nif_output (nf_obj (demo_netifs 1500) 0) \<noteq> None" "length (chain_data demo_data) + 28 \<le> unat (nif_mtu (nf_obj (demo_netifs 1500) 0))" "ie_out demo_env 0 = ERR_OK"
    by (simp_all add: demo_netifs_def d demo_env_def)
  have "(1234 :: u16) \<noteq> 0" by simp
  from udp_end_to_end [OF d(1) s(1) this s(2) e(1,2) demo_receiver_reach r(1) demo_for, of demo_env demo_env] obtain p' st' where
    t: "udp_sendto_if_src demo_env (demo_netifs 1500) 0 demo_data 0x0100000a 53 0 0x0200000a demo_sender = Some (Ok (ie_out demo_env (nw_calls demo_sender), p', st'))"
      "length (chain_data p') = 31" and
    g: "\<forall>c. chain_data c = chain_data p' \<and> chain_wf c \<and> c \<noteq> [] \<and> 28 \<le> pb_len (hd c) \<longrightarrow>
      (\<exists>u rst'. ip_input demo_env (demo_netifs 1500) 0 c demo_receiver = Some (Ok rst') \<and> nw_up rst' = nw_up demo_receiver @ [To_udp 1 u 0x0200000a 1234] \<and>
        chain_wf u \<and> chain_data u = chain_data demo_data)" by (auto simp: d)
  show ?thesis using t(1) g [rule_format, of "one_pbuf (chain_data p')"] t(2) s(3) e(3) r(2) d(2) by (auto simp: one_pbuf_simps)
qed

text \<open>
  C31: \<^verbatim>\<open>udp_new_port\<close> gives a port of its range that no control block in use has, and 0 exactly
  when every port of the range is taken. It changes nothing but the port tried last, which stays
  in the range.
\<close>

theorem udp_new_port_correct:
  assumes "0xc000 \<le> udp_port st" and "udp_new_port st = (r, st')"
  shows "(r \<noteq> 0 \<longrightarrow> 0xc000 \<le> r \<and> r \<notin> (\<lambda>b. up_local_port (udp_obj st b)) ` set (udp_pcbs st)) \<and>
    (r = 0 \<longleftrightarrow> {0xc000..} \<subseteq> (\<lambda>b. up_local_port (udp_obj st b)) ` set (udp_pcbs st)) \<and>
    0xc000 \<le> udp_port st' \<and> st' = st\<lparr>udp_port := udp_port st'\<rparr>"
  using assms(1)
proof (cases rule: udp_new_port_cases)
  case (found port)
  then have "r = port" "st' = st\<lparr>udp_port := port\<rparr>" "port \<noteq> 0" "port \<in> {0xc000..}" using assms(2) by auto
  moreover have "port \<notin> (\<lambda>b. up_local_port (udp_obj st b)) ` set (udp_pcbs st)" using found(3) by (auto simp: image_iff)
  ultimately show ?thesis using found(2) by auto
next
  case (full port)
  then have "r = 0" "st' = st\<lparr>udp_port := port\<rparr>" using assms(2) by auto
  moreover have "{0xc000..} \<subseteq> (\<lambda>b. up_local_port (udp_obj st b)) ` set (udp_pcbs st)"
  proof
    fix p :: u16 assume "p \<in> {0xc000..}"
    then show "p \<in> (\<lambda>b. up_local_port (udp_obj st b)) ` set (udp_pcbs st)" using full(3) by (simp add: image_iff) metis
  qed
  ultimately show ?thesis using full(2) by simp
qed

theorem udp_new_port_correct_witness:
  "let st = demo_bound\<lparr>udp_port := 0xffff\<rparr>; (r, st') = udp_new_port st
   in r \<noteq> 0 \<and> 0xc000 \<le> r \<and> r \<notin> (\<lambda>b. up_local_port (udp_obj st b)) ` set (udp_pcbs st)"
proof -
  let ?st = "demo_bound\<lparr>udp_port := 0xffff\<rparr>"
  obtain r st' where r: "udp_new_port ?st = (r, st')" by (cases "udp_new_port ?st")
  have used: "(\<lambda>b. up_local_port (udp_obj ?st b)) ` set (udp_pcbs ?st) = {53}" by (simp add: demo_bound_def)
  have "(0xc000 :: u16) \<in> {0xc000..}" "(0xc000 :: u16) \<notin> {53}" by simp_all
  then have "\<not> {0xc000 :: u16..} \<subseteq> {53}" by blast
  then show ?thesis using udp_new_port_correct [of ?st r st', OF _ r] r unfolding used by (simp add: used [simplified])
qed



text \<open>
  C26: one packet can abort the program. The header of a packet is 20 bytes long and correct, but
  states a total length of less; \<^verbatim>\<open>ip_input\<close> trims the packet to this length and then moves its
  payload pointer behind the header, where the check in \<^verbatim>\<open>pbuf_header\<close> fails.
\<close>

theorem ip_input_short_abort:
  assumes "chain_wf [q]" and "20 \<le> pb_len q" and "pb_type q = PBUF_POOL" and h: "take 20 (chain_data [q]) = h" and "IPH_V h = 4" and "IPH_HL h = 5"
    and "iph_sum_ok h" and "IPH_OFFSET h = 0" and "unat (lwip_ntohs (IPH_LEN h)) < 20" and "ip_for nf inp (iph_src h) (iph_dest h)"
  shows "ip_input e nf inp [q] st = Some (Stop Assert)"
proof -
  let ?n = "unat (lwip_ntohs (IPH_LEN h))" and ?st = "STATS_INC S_ip S_recv st"
  define q2 where "q2 = q\<lparr>pb_len := ?n, pb_tot_len := ?n\<rparr>"
  have t: "pb_tot_len q = pb_len q" using assms(1) by (simp add: chain_tot_def)
  then have n: "?n < pb_tot_len q" using assms(2,9) by linarith
  have re: "pbuf_realloc [q] ?n = Ok [q2]" using n t assms(3) by (simp add: pbuf_realloc_def q2_def Let_def)
  have rd: "rd_iphdr [q2] = Ok h" using rd_iphdr_data [OF assms(1,2)] h by (simp add: rd_iphdr_def q2_def)
  have "ip_accepts nf (iph_dest h) inp" using assms(10) by (simp add: ip_accepts_def ip_for_def)
  then have "ip_input_for_us e nf inp 20 [q2] ?st = ip_deliver e nf inp (iph_src h) (iph_dest h) 20 h [q2] ?st"
    using ip_input_for_us_ok [OF rd, of nf inp] assms(8,10) by (simp add: ip_for_def)
  also have "\<dots> = Some (Stop Assert)" using assms(9) by (simp add: ip_deliver_def pbuf_header_def q2_def)
  finally show ?thesis using ip_input_checked [OF assms(1,2) h assms(5-7), of e nf inp st] n re by simp
qed

theorem ip_input_short_abort_witness:
  "ip_input demo_env (demo_netifs 1500) 0 [(hd (one_pbuf (ip_hdr_of 64 0 17 19 1 0x0200000a 0x0100000a)))\<lparr>pb_type := PBUF_POOL\<rparr>] demo_stack = Some (Stop Assert)"
proof -
  let ?h = "ip_hdr_of 64 0 17 19 1 0x0200000a 0x0100000a"
  have t: "take 20 (chain_data [(hd (one_pbuf ?h))\<lparr>pb_type := PBUF_POOL\<rparr>]) = ?h" by (simp add: one_pbuf_def pb_payload_def)
  show ?thesis
    by (rule ip_input_short_abort [OF _ _ _ t])
      (use demo_for in \<open>simp_all add: one_pbuf_def pbuf_wf_def chain_tot_def ip_hdr_of_fields ip_hdr_of_sum_ok lwip_ntohs_def\<close>)
qed

end
