(* ===== verification/Ocp_Sock.thy ===== *)
theory Ocp_Sock
  imports Dns_Props
begin

text \<open>
  The state of \<^verbatim>\<open>src/ocproxy.c\<close> and its pool of connection slots (\<^verbatim>\<open>ocp_sock_new\<close>,
  \<^verbatim>\<open>ocp_sock_del\<close>).

  A slot is named by its index in \<^verbatim>\<open>ocp_sock_pool\<close>. A freed slot is filled with \<^verbatim>\<open>0xdd\<close> bytes by
  the code; its pointer fields are \<open>Wild\<close> in the model, and following a wild or a null pointer is
  \<open>Stop Fault\<close>. The operating system, libevent and the parts of lwIP behind its TCP interface are an
  \<open>env\<close>: each answer is a function of the whole history of calls, so that nothing is assumed of it
  except where a theorem says so.
\<close>

datatype 'a ptr = Null | Ptr 'a | Wild

datatype sk_state =
    STATE_NEW | STATE_SOCKS_AUTH | STATE_SOCKS_CMD | STATE_DNS | STATE_CONNECTING | STATE_DATA
  | STATE_DEAD | State_poison

text \<open>The functions of the program that are passed to libevent and to the resolver.\<close>

datatype event_fn = Local_data_cb | Socks_cmd_cb | Lwip_data_cb

datatype found_fn = Finish_resolution | Retry_resolution

datatype listen_fn = New_conn_cb

abbreviation (input) CONN_TYPE_REDIR :: int where "CONN_TYPE_REDIR \<equiv> 0"
abbreviation (input) CONN_TYPE_SOCKS :: int where "CONN_TYPE_SOCKS \<equiv> 1"
abbreviation (input) SOCKBUF_LEN :: nat where "SOCKBUF_LEN \<equiv> 2048"
abbreviation (input) MAX_CONN :: nat where "MAX_CONN \<equiv> 1024"
abbreviation (input) FL_ACTIVATE :: u8 where "FL_ACTIVATE \<equiv> 1"
abbreviation (input) FL_DIE_ON_ERROR :: u8 where "FL_DIE_ON_ERROR \<equiv> 2"

record ocp_sock =
  sk_fd :: int
  sk_listener :: bool
  sk_ev :: "event_fn ptr"
  sk_tpcb :: "nat ptr"
  sk_state :: sk_state
  sk_conn_type :: int
  sk_next :: "nat option"
  sk_done_len :: nat
  sk_lwip_blocked :: bool
  sk_sock_pos :: nat
  sk_sockbuf :: bytes
  sk_lport :: int
  sk_bind_addr :: "cstr ptr"
  sk_listen_cb :: "listen_fn ptr"
  sk_rhost_name :: "cstr ptr"
  sk_rhost :: ip_addr
  sk_rport :: int
  sk_netif :: "unit ptr"

text \<open>\<^verbatim>\<open>memset(s, 0, sizeof(*s))\<close> and \<^verbatim>\<open>memset(s, 0xdd, sizeof(*s))\<close>.\<close>

definition zero_sock :: ocp_sock where
  "zero_sock = \<lparr>sk_fd = 0, sk_listener = False, sk_ev = Null, sk_tpcb = Null, sk_state = STATE_NEW, sk_conn_type = 0,
     sk_next = None, sk_done_len = 0, sk_lwip_blocked = False, sk_sock_pos = 0, sk_sockbuf = replicate SOCKBUF_LEN 0,
     sk_lport = 0, sk_bind_addr = Null, sk_listen_cb = Null, sk_rhost_name = Null, sk_rhost = 0, sk_rport = 0,
     sk_netif = Null\<rparr>"

definition poison_sock :: ocp_sock where
  "poison_sock = \<lparr>sk_fd = -572662307, sk_listener = True, sk_ev = Wild, sk_tpcb = Wild, sk_state = State_poison,
     sk_conn_type = -572662307, sk_next = None, sk_done_len = 3722304989, sk_lwip_blocked = True,
     sk_sock_pos = 3722304989, sk_sockbuf = replicate SOCKBUF_LEN 0xdd, sk_lport = -572662307, sk_bind_addr = Wild,
     sk_listen_cb = Wild, sk_rhost_name = Wild, sk_rhost = 0xdddddddd, sk_rport = -572662307, sk_netif = Wild\<rparr>"

subsection \<open>lwIP's TCP control blocks, as far as the program uses them\<close>

text \<open>
  \<open>pc_recv\<close>, \<open>pc_sent\<close> and \<open>pc_errf\<close> say whether \<^verbatim>\<open>recv_cb\<close>, \<^verbatim>\<open>sent_cb\<close> and \<^verbatim>\<open>tcp_err_cb\<close> are
  registered, \<open>pc_connected\<close> whether a SYN was queued with \<^verbatim>\<open>connect_cb\<close> registered and
  not yet answered.
\<close>

record tcp_pcb =
  pc_arg :: "nat option"
  pc_recv :: bool
  pc_sent :: bool
  pc_errf :: bool
  pc_connected :: bool
  pc_nodelay :: bool
  pc_keepalive :: bool
  pc_keep_intvl :: u32
  pc_keep_idle :: u32
  pc_local_ip :: ip_addr
  pc_local_port :: u16
  pc_snd_buf :: nat
  pc_snd_queuelen :: nat

text \<open>A fresh block as \<^verbatim>\<open>tcp_alloc\<close> sets it up.\<close>

definition tcp_pcb0 :: tcp_pcb where
  "tcp_pcb0 = \<lparr>pc_arg = None, pc_recv = False, pc_sent = False, pc_errf = False, pc_connected = False,
     pc_nodelay = False, pc_keepalive = False, pc_keep_intvl = 75000, pc_keep_idle = 7200000, pc_local_ip = 0,
     pc_local_port = 0, pc_snd_buf = 65534, pc_snd_queuelen = 0\<rparr>"

subsection \<open>The world\<close>

text \<open>Calls to the outside with their results, as the program made them.\<close>

datatype action =
    A_read int nat "bytes option"
  | A_write int bytes int
  | A_writev int bytes int
  | A_close int
  | A_event_new bool
  | A_tcp_new bool
  | A_tcp_connect nat ip_addr u16 err_t
  | A_tcp_write nat bytes err_t
  | A_tcp_output nat
  | A_tcp_recved nat nat
  | A_tcp_close nat
  | A_input bytes
  | A_listen nat ip_addr u16
  | A_warn
  | A_loopbreak

type_synonym history = "action list"

text \<open>
  \<open>en_read h fd n\<close> is None for an error and the bytes read otherwise, none at end of file;
  \<open>en_write h fd data\<close> is what \<^verbatim>\<open>write\<close> or \<^verbatim>\<open>writev\<close> returns, and \<open>en_conn_errno h\<close> tells
  whether \<^verbatim>\<open>errno\<close> is then \<^verbatim>\<open>ECONNREFUSED\<close> or \<^verbatim>\<open>ENOTCONN\<close>.
\<close>

record env =
  en_read :: "history \<Rightarrow> int \<Rightarrow> nat \<Rightarrow> bytes option"
  en_write :: "history \<Rightarrow> int \<Rightarrow> bytes \<Rightarrow> int"
  en_conn_errno :: "history \<Rightarrow> bool"
  en_event_new :: "history \<Rightarrow> bool"
  en_tcp_new :: "history \<Rightarrow> bool"
  en_tcp_connect :: "history \<Rightarrow> nat \<Rightarrow> ip_addr \<Rightarrow> u16 \<Rightarrow> err_t"
  en_tcp_write :: "history \<Rightarrow> nat \<Rightarrow> bytes \<Rightarrow> err_t"
  en_dns :: "history \<Rightarrow> dns_env"
  en_alloc :: "history \<Rightarrow> alloc_env"

text \<open>
  The globals of the program, on top of those of the resolver. \<open>pending s\<close>: the libevent event of
  slot \<open>s\<close> is armed; \<open>pcbs\<close> are the TCP blocks that exist, \<open>next_pcb\<close> names the next one;
  \<open>trace\<close> is the history, oldest first.
\<close>

record ocp = "(found_fn, nat) dns" +
  sock_pool :: "nat \<Rightarrow> ocp_sock"
  sock_free_list :: "nat option"
  sock_bind_list :: "nat option"
  sock_used :: int
  sock_max :: int
  keep_intvl :: int
  dns_domain :: "cstr option"
  allow_remote :: bool
  tcpdump_enabled :: bool
  got_sighup :: bool
  got_sigusr1 :: bool
  link_recv :: u16
  link_xmit :: u16
  link_drop :: u16
  link_lenerr :: u16
  pending :: "nat \<Rightarrow> bool"
  pcbs :: "nat \<Rightarrow> tcp_pcb option"
  next_pcb :: nat
  trace :: history

text \<open>An entry of the resolver's table in static memory.\<close>

definition zero_entry :: "(found_fn, nat) dns_table_entry" where
  "zero_entry = \<lparr>dn_state = DNS_STATE_UNUSED, dn_numdns = 0, dn_tmr = 0, dn_retries = 0, dn_seqno = 0, dn_err = 0,
     dn_ttl = 0, dn_name = replicate DNS_MAX_NAME_LENGTH 0, dn_ipaddr = 0, dn_found = None, dn_arg = None\<rparr>"

definition upd_sock :: "nat \<Rightarrow> (ocp_sock \<Rightarrow> ocp_sock) \<Rightarrow> ocp \<Rightarrow> ocp" where
  "upd_sock s f st = st\<lparr>sock_pool := (sock_pool st)(s := f (sock_pool st s))\<rparr>"

definition act :: "action \<Rightarrow> ocp \<Rightarrow> ocp" where
  "act a st = st\<lparr>trace := trace st @ [a]\<rparr>"

definition warn :: "ocp \<Rightarrow> ocp" where
  "warn = act A_warn"

subsection \<open>libevent and lwIP calls\<close>

definition event_add :: "nat \<Rightarrow> ocp \<Rightarrow> ocp res" where
  "event_add s st =
     (case sk_ev (sock_pool st s) of
        Ptr f \<Rightarrow> Ok (st\<lparr>pending := (pending st)(s := True)\<rparr>)
      | _ \<Rightarrow> Stop Fault)"

definition event_free :: "nat \<Rightarrow> ocp \<Rightarrow> ocp res" where
  "event_free s st =
     (case sk_ev (sock_pool st s) of
        Ptr f \<Rightarrow> Ok (st\<lparr>pending := (pending st)(s := False)\<rparr>)
      | _ \<Rightarrow> Stop Fault)"

text \<open>A change of the block a slot's \<^verbatim>\<open>tpcb\<close> points to.\<close>

definition upd_pcb :: "nat \<Rightarrow> (tcp_pcb \<Rightarrow> tcp_pcb) \<Rightarrow> ocp \<Rightarrow> ocp res" where
  "upd_pcb p f st =
     (case pcbs st p of Some b \<Rightarrow> Ok (st\<lparr>pcbs := (pcbs st)(p := Some (f b))\<rparr>) | None \<Rightarrow> Stop Fault)"

definition tcp_arg :: "nat \<Rightarrow> nat option \<Rightarrow> ocp \<Rightarrow> ocp res" where
  "tcp_arg p arg = upd_pcb p (\<lambda>b. b\<lparr>pc_arg := arg\<rparr>)"

text \<open>
  \<^verbatim>\<open>tcp_close\<close> frees a block whose SYN was not yet answered. Others live on until the peer has
  acknowledged the FIN.
\<close>

definition tcp_close :: "nat \<Rightarrow> ocp \<Rightarrow> ocp res" where
  "tcp_close p st =
     (case pcbs st p of
        Some b \<Rightarrow> Ok (act (A_tcp_close p) (if pc_connected b then st\<lparr>pcbs := (pcbs st)(p := None)\<rparr> else st))
      | None \<Rightarrow> Stop Fault)"

subsection \<open>The pool\<close>

definition ocp_sock_new :: "env \<Rightarrow> int \<Rightarrow> event_fn \<Rightarrow> u8 \<Rightarrow> ocp \<Rightarrow> (nat option \<times> ocp) res" where
  "ocp_sock_new e fd cb flags st =
     (case sock_free_list st of
        None \<Rightarrow> if flags AND FL_DIE_ON_ERROR \<noteq> 0 then Stop Die else Ok (None, st)
      | Some s \<Rightarrow>
          let st1 = st\<lparr>sock_free_list := sk_next (sock_pool st s)\<rparr>;
              st2 = upd_sock s (\<lambda>_. zero_sock) st1;
              st3 = st2\<lparr>sock_used := sock_used st2 + 1\<rparr>;
              st4 = (if sock_used st3 > sock_max st3 then st3\<lparr>sock_max := sock_used st3\<rparr> else st3);
              st5 = upd_sock s (\<lambda>k. k\<lparr>sk_next := sock_bind_list st4\<rparr>) st4;
              st6 = st5\<lparr>sock_bind_list := Some s\<rparr>
          in if fd < 0 then Ok (Some s, st6)
             else
               let ok = en_event_new e (trace st6);
                   st7 = upd_sock s (\<lambda>k. k\<lparr>sk_fd := fd, sk_ev := (if ok then Ptr cb else Null)\<rparr>)
                           (act (A_event_new ok) st6)
               in if flags AND FL_ACTIVATE \<noteq> 0
                  then res_bind (event_add s st7) (\<lambda>st8. Ok (Some s, st8))
                  else Ok (Some s, st7))"

definition ocp_sock_del :: "nat \<Rightarrow> ocp \<Rightarrow> ocp res" where
  "ocp_sock_del s st =
     (if sk_state (sock_pool st s) = STATE_DNS
      then Ok (upd_sock s (\<lambda>k. k\<lparr>sk_state := STATE_DEAD\<rparr>) st)
      else
        let st1 = act (A_close (sk_fd (sock_pool st s))) st in
        res_bind
          (case sk_tpcb (sock_pool st1 s) of
             Null \<Rightarrow> Ok st1
           | Ptr p \<Rightarrow> res_bind (tcp_arg p None st1) (tcp_close p)
           | Wild \<Rightarrow> Stop Fault) (\<lambda>st2.
        res_bind (event_free s st2) (\<lambda>st3.
          Ok ((upd_sock s (\<lambda>_. poison_sock\<lparr>sk_next := sock_free_list st3\<rparr>) st3)
                \<lparr>sock_free_list := Some s, sock_used := sock_used st3 - 1\<rparr>))))"

end
