(* ===== verification/Ocp_Proxy.thy ===== *)
theory Ocp_Proxy
  imports Ocp_Sock
begin

text \<open>
  The handlers of \<^verbatim>\<open>src/ocproxy.c\<close>, in its order: relaying between a local socket and an lwIP
  connection, the SOCKS dialogue, connection setup with name resolution, and the raw IP traffic to
  and from the VPN. Each handler is a function of the environment and the state; a slot is passed
  as its index, \<^verbatim>\<open>NULL\<close> as None.
\<close>

subsection \<open>lwIP TCP and local sockets\<close>

text \<open>\<open>127\<close> is \<^verbatim>\<open>TCP_SND_QUEUELEN/2\<close>, with \<^verbatim>\<open>TCP_SND_QUEUELEN = 4 * 65534 / 1024\<close>.\<close>

definition local_data_cb :: "env \<Rightarrow> nat \<Rightarrow> ocp \<Rightarrow> ocp res" where
  "local_data_cb e s st =
     (case sk_tpcb (sock_pool st s) of
        Ptr p \<Rightarrow>
          (case pcbs st p of
             None \<Rightarrow> Stop Fault
           | Some b \<Rightarrow>
               let try_len = (if pc_snd_buf b > SOCKBUF_LEN then SOCKBUF_LEN else pc_snd_buf b) in
               if try_len = 0 \<or> pc_snd_queuelen b > 127
               then Ok (upd_sock s (\<lambda>k. k\<lparr>sk_lwip_blocked := True\<rparr>) st)
               else
                 let fd = sk_fd (sock_pool st s); r = en_read e (trace st) fd try_len;
                     st1 = act (A_read fd try_len r) st
                 in case r of
                      None \<Rightarrow> ocp_sock_del s st1
                    | Some d \<Rightarrow>
                        if d = [] then ocp_sock_del s st1
                        else
                          let st2 = upd_sock s (\<lambda>k. k\<lparr>sk_sockbuf := buf_put 0 d (sk_sockbuf k)\<rparr>) st1;
                              data = take (length d) (sk_sockbuf (sock_pool st2 s));
                              err = en_tcp_write e (trace st2) p data;
                              st3 = act (A_tcp_write p data err) st2
                          in if err = ERR_MEM then Stop Die
                             else
                               let st4 = (if err \<noteq> ERR_OK then warn st3 else st3)
                               in event_add s (act (A_tcp_output p) st4))
      | _ \<Rightarrow> Stop Fault)"

definition sent_cb :: "nat option \<Rightarrow> ocp \<Rightarrow> (err_t \<times> ocp) res" where
  "sent_cb ctx st =
     (case ctx of
        None \<Rightarrow> Ok (ERR_OK, st)
      | Some s \<Rightarrow>
          if sk_lwip_blocked (sock_pool st s)
          then res_bind (event_add s (upd_sock s (\<lambda>k. k\<lparr>sk_lwip_blocked := False\<rparr>) st)) (\<lambda>st1. Ok (ERR_OK, st1))
          else Ok (ERR_OK, st))"

text \<open>The pbuf and offset in it where the next byte to write is.\<close>

fun recv_skip :: "chain \<Rightarrow> nat \<Rightarrow> chain \<times> nat" where
  "recv_skip [] offset = ([], offset)"
| "recv_skip (p # ps) offset =
     (if offset \<ge> pb_len p then recv_skip ps (offset - pb_len p) else (p # ps, offset))"

text \<open>The write loop; the result is the error code to return, None when the chain is done.\<close>

fun recv_loop :: "env \<Rightarrow> nat \<Rightarrow> nat \<Rightarrow> chain \<Rightarrow> nat \<Rightarrow> ocp \<Rightarrow> (err_t option \<times> ocp) res" where
  "recv_loop e s tpcb [] offset st = Ok (None, st)"
| "recv_loop e s tpcb (p # ps) offset st =
     (let try_len = pb_len p - offset; data = take try_len (drop offset (pb_payload p));
          fd = sk_fd (sock_pool st s); wlen = en_write e (trace st) fd data;
          st1 = act (A_write fd data wlen) st
      in if wlen < 0 then res_bind (ocp_sock_del s st1) (\<lambda>st2. Ok (Some ERR_ABRT, st2))
         else
           let st2 = upd_sock s (\<lambda>k. k\<lparr>sk_done_len := sk_done_len k + nat wlen\<rparr>) st1;
               st3 = act (A_tcp_recved tpcb (nat wlen)) st2
           in if wlen < int try_len then Ok (Some ERR_WOULDBLOCK, st3)
              else recv_loop e s tpcb ps 0 st3)"

definition recv_cb :: "env \<Rightarrow> nat option \<Rightarrow> nat \<Rightarrow> chain \<Rightarrow> ocp \<Rightarrow> (err_t \<times> ocp) res" where
  "recv_cb e ctx tpcb p st =
     (case ctx of
        None \<Rightarrow> Ok (ERR_ABRT, st)
      | Some s \<Rightarrow>
          if p = [] then res_bind (ocp_sock_del s st) (\<lambda>st1. Ok (ERR_OK, st1))
          else
            let (q, offset) = recv_skip p (sk_done_len (sock_pool st s)) in
            res_bind (recv_loop e s tpcb q offset st) (\<lambda>(r, st1).
              case r of
                Some err \<Rightarrow> Ok (err, st1)
              | None \<Rightarrow>
                  res_bind (pbuf_free p) (\<lambda>_.
                    Ok (ERR_OK, upd_sock s (\<lambda>k. k\<lparr>sk_done_len := 0\<rparr>) st1))))"

subsection \<open>Connection setup\<close>

text \<open>The reply of a SOCKS request, ten bytes.\<close>

definition socks_reply_bytes :: "u8 \<Rightarrow> tcp_pcb option \<Rightarrow> bytes" where
  "socks_reply_bytes rep tpcb =
     [0x05, rep, 0, 0x01] @
     (case tpcb of
        Some b \<Rightarrow> if rep = 0 then le32 (lwip_htonl (pc_local_ip b)) @ le16 (lwip_htons (pc_local_port b))
                 else replicate 6 0
      | None \<Rightarrow> replicate 6 0)"

definition socks_reply :: "env \<Rightarrow> nat \<Rightarrow> u8 \<Rightarrow> ocp \<Rightarrow> ocp res" where
  "socks_reply e s rep st =
     res_bind
       (if rep \<noteq> 0 then Ok None
        else case sk_tpcb (sock_pool st s) of
               Null \<Rightarrow> Ok None
             | Ptr p \<Rightarrow> (case pcbs st p of Some b \<Rightarrow> Ok (Some b) | None \<Rightarrow> Stop Fault)
             | Wild \<Rightarrow> Stop Fault) (\<lambda>b.
       let rsp = socks_reply_bytes rep b; fd = sk_fd (sock_pool st s);
           n = en_write e (trace st) fd rsp; st1 = act (A_write fd rsp n) st
       in if n \<noteq> 10 \<or> rep \<noteq> 0 then ocp_sock_del s st1 else Ok st1)"

definition tcp_err_cb :: "env \<Rightarrow> nat option \<Rightarrow> ocp \<Rightarrow> ocp res" where
  "tcp_err_cb e arg st =
     (case arg of
        None \<Rightarrow> Ok st
      | Some s \<Rightarrow>
          let st1 = upd_sock s (\<lambda>k. k\<lparr>sk_tpcb := Null\<rparr>) st in
          if sk_state (sock_pool st1 s) = STATE_CONNECTING \<and> sk_conn_type (sock_pool st1 s) = CONN_TYPE_SOCKS
          then socks_reply e s 5 st1
          else ocp_sock_del s st1)"

definition connect_cb :: "env \<Rightarrow> nat option \<Rightarrow> nat \<Rightarrow> ocp \<Rightarrow> (err_t \<times> ocp) res" where
  "connect_cb e arg tpcb st =
     (case arg of
        None \<Rightarrow> Stop Fault
      | Some s \<Rightarrow>
          res_bind (if sk_conn_type (sock_pool st s) = CONN_TYPE_SOCKS then socks_reply e s 0 st else Ok st) (\<lambda>st1.
          res_bind (event_add s (upd_sock s (\<lambda>k. k\<lparr>sk_state := STATE_DATA\<rparr>) st1)) (\<lambda>st2.
          res_bind (upd_pcb tpcb (\<lambda>b. b\<lparr>pc_recv := True, pc_sent := True\<rparr>) st2) (\<lambda>st3.
            Ok (ERR_OK, st3)))))"

text \<open>
  \<^verbatim>\<open>tcp_new\<close> gives a fresh control block or NULL. \<^verbatim>\<open>tcp_connect\<close> registers \<^verbatim>\<open>connect_cb\<close> when it
  could queue the SYN.
\<close>

definition start_connection :: "env \<Rightarrow> nat \<Rightarrow> ip_addr \<Rightarrow> ocp \<Rightarrow> ocp res" where
  "start_connection e s ipaddr st =
     (let st1 = upd_sock s (\<lambda>k. k\<lparr>sk_state := STATE_CONNECTING\<rparr>) st;
          got = en_tcp_new e (trace st1); st2 = act (A_tcp_new got) st1; p = next_pcb st2
      in if \<not> got then Stop Die
         else
           let b = tcp_pcb0\<lparr>pc_nodelay := True, pc_arg := Some s, pc_recv := False, pc_errf := True\<rparr>;
               b1 = (if keep_intvl st \<noteq> 0
                     then b\<lparr>pc_keepalive := True, pc_keep_intvl := of_int (keep_intvl st * 1000),
                            pc_keep_idle := of_int (keep_intvl st * 1000)\<rparr>
                     else b);
               st3 = st2\<lparr>next_pcb := p + 1, pcbs := (pcbs st2)(p := Some b1)\<rparr>;
               st4 = upd_sock s (\<lambda>k. k\<lparr>sk_tpcb := Ptr p\<rparr>) st3;
               port = of_int (sk_rport (sock_pool st4 s)); err = en_tcp_connect e (trace st4) p ipaddr port;
               st5 = act (A_tcp_connect p ipaddr port err) st4;
               st6 = st5\<lparr>pcbs := (pcbs st5)(p := Some (b1\<lparr>pc_connected := (err = ERR_OK)\<rparr>))\<rparr>
           in Ok (if err \<noteq> ERR_OK then warn st6 else st6))"

definition finish_resolution :: "env \<Rightarrow> ip_addr option \<Rightarrow> nat \<Rightarrow> ocp \<Rightarrow> ocp res" where
  "finish_resolution e ipaddr s st =
     (if sk_state (sock_pool st s) = STATE_DEAD then ocp_sock_del s st
      else case ipaddr of
        Some a \<Rightarrow> start_connection e s a st
      | None \<Rightarrow> if sk_conn_type (sock_pool st s) = CONN_TYPE_SOCKS then socks_reply e s 4 st
                else ocp_sock_del s st)"

text \<open>A host name is a string of its own, or lies in the slot's \<^verbatim>\<open>sockbuf\<close> at some offset.\<close>

datatype hostname = Host_str cstr | Host_sockbuf nat

definition host_cstr :: "nat \<Rightarrow> hostname \<Rightarrow> ocp \<Rightarrow> cstr" where
  "host_cstr s h st =
     (case h of Host_str c \<Rightarrow> c | Host_sockbuf off \<Rightarrow> cstr_at (drop off (sk_sockbuf (sock_pool st s))))"

text \<open>The resolver makes no callback while a name is queued, so none is given to it here.\<close>

definition no_cb :: "('f, 'a, 'z) dns_cb" where
  "no_cb f name addr arg st = Stop Assert"

text \<open>\<open>snprintf(buf, SOCKBUF_LEN, "%s.%s", ...)\<close> on the contents of the buffer.\<close>

definition put_fqdn :: "cstr \<Rightarrow> cstr \<Rightarrow> bytes \<Rightarrow> bytes" where
  "put_fqdn host domain buf = buf_put 0 (take (SOCKBUF_LEN - 1) (host @ [46] @ domain) @ [0]) buf"

text \<open>
  \<open>found\<close> is the callback to register and \<open>found_now\<close> its effect when it is called at once with a
  NULL address. Formatting a name that lies in \<^verbatim>\<open>sockbuf\<close> into \<^verbatim>\<open>sockbuf\<close> is undefined in C.
\<close>

definition enqueue_dns_req ::
    "env \<Rightarrow> nat \<Rightarrow> hostname \<Rightarrow> cstr option \<Rightarrow> found_fn \<Rightarrow> (hostname \<Rightarrow> ocp \<Rightarrow> ocp res) \<Rightarrow> ocp \<Rightarrow> ocp res" where
  "enqueue_dns_req e s hostname domain found found_now st =
     res_bind
       (case domain of
          None \<Rightarrow> Ok (host_cstr s hostname st, st)
        | Some d \<Rightarrow>
            (case hostname of
               Host_sockbuf off \<Rightarrow> Stop Fault
             | Host_str h \<Rightarrow>
                 let st1 = upd_sock s (\<lambda>k. k\<lparr>sk_sockbuf := put_fqdn h d (sk_sockbuf k)\<rparr>) st
                 in Ok (cstr_at (sk_sockbuf (sock_pool st1 s)), st1))) (\<lambda>(name, st1).
     res_bind (dns_gethostbyname no_cb (en_dns e (trace st1)) (Some name) (Some found) (Some s) st1)
       (\<lambda>(err, addr, st2).
         if err = ERR_INPROGRESS then Ok st2
         else if err = ERR_OK then
           (case addr of
              Some a \<Rightarrow> start_connection e s a (upd_sock s (\<lambda>k. k\<lparr>sk_rhost := a\<rparr>) st2)
            | None \<Rightarrow> start_connection e s (sk_rhost (sock_pool st2 s)) st2)
         else found_now hostname (warn st2)))"

definition retry_resolution :: "env \<Rightarrow> hostname \<Rightarrow> ip_addr option \<Rightarrow> nat \<Rightarrow> ocp \<Rightarrow> ocp res" where
  "retry_resolution e hostname ipaddr s st =
     (if ipaddr \<noteq> None \<or> dns_domain st = None then finish_resolution e ipaddr s st
      else enqueue_dns_req e s hostname (dns_domain st) Finish_resolution
             (\<lambda>_. finish_resolution e None s) st)"

definition start_resolution :: "env \<Rightarrow> nat \<Rightarrow> hostname \<Rightarrow> ocp \<Rightarrow> ocp res" where
  "start_resolution e s hostname st =
     (let st1 = upd_sock s (\<lambda>k. k\<lparr>sk_state := STATE_DNS\<rparr>) st in
      if 46 \<in> set (host_cstr s hostname st1)
      then enqueue_dns_req e s hostname None Retry_resolution (\<lambda>h. retry_resolution e h None s) st1
      else enqueue_dns_req e s hostname (dns_domain st1) Finish_resolution
             (\<lambda>_. finish_resolution e None s) st1)"

text \<open>The callbacks as the resolver calls them.\<close>

definition found_cb :: "env \<Rightarrow> found_fn \<Rightarrow> bytes \<Rightarrow> ip_addr option \<Rightarrow> nat option \<Rightarrow> ocp \<Rightarrow> ocp res" where
  "found_cb e f name ipaddr arg st =
     (case arg of
        None \<Rightarrow> Stop Fault
      | Some s \<Rightarrow>
          (case f of
             Finish_resolution \<Rightarrow> finish_resolution e ipaddr s st
           | Retry_resolution \<Rightarrow> retry_resolution e (Host_str (cstr_at name)) ipaddr s st))"

subsection \<open>SOCKS protocol\<close>

text \<open>
  Offsets in a request: version 0, command 1, address type 3; then an IPv4 address at 4 and a port
  at 8, or the length of a name at 4 and the name at 5.
\<close>

definition socks_auth :: "env \<Rightarrow> nat \<Rightarrow> ocp \<Rightarrow> ocp res" where
  "socks_auth e s st =
     (let k = sock_pool st s in
      if sk_sock_pos k \<le> 1 then event_add s st
      else if sk_sock_pos k \<le> unat (sk_sockbuf k ! 1) + 1 then event_add s st
      else
        let n = en_write e (trace st) (sk_fd k) [0x05, 0x00]; st1 = act (A_write (sk_fd k) [0x05, 0x00] n) st
        in if n \<noteq> 2 then ocp_sock_del s st1
           else event_add s (upd_sock s (\<lambda>k. k\<lparr>sk_state := STATE_SOCKS_CMD, sk_sock_pos := 0\<rparr>) st1))"

definition socks_cmd :: "env \<Rightarrow> nat \<Rightarrow> ocp \<Rightarrow> ocp res" where
  "socks_cmd e s st =
     (let k = sock_pool st s; b = sk_sockbuf k in
      if sk_sock_pos k \<le> 3 then event_add s st
      else if b ! 1 \<noteq> 0x01 then socks_reply e s 7 st
      else if b ! 3 = 0x01 then
        (if sk_sock_pos k < 10 then event_add s st
         else start_connection e s (u32_of (b ! 4) (b ! 5) (b ! 6) (b ! 7))
                (upd_sock s (\<lambda>k. k\<lparr>sk_rport := int (unat (lwip_ntohs (u16_of (b ! 8) (b ! 9))))\<rparr>) st))
      else if b ! 3 = 0x03 then
        (let namelen = unat (b ! 4) in
         if sk_sock_pos k \<le> 4 then event_add s st
         else if sk_sock_pos k \<le> 4 + namelen then event_add s st
         else start_resolution e s (Host_sockbuf 5)
                (upd_sock s (\<lambda>k. k\<lparr>sk_rport := int (unat (b ! (5 + namelen)) * 256 + unat (b ! (5 + namelen + 1))),
                                   sk_sockbuf := b[5 + namelen := 0]\<rparr>) st))
      else socks_reply e s 8 st)"

definition socks_cmd_cb :: "env \<Rightarrow> nat \<Rightarrow> ocp \<Rightarrow> ocp res" where
  "socks_cmd_cb e s st =
     (if sk_state (sock_pool st s) = STATE_DATA then local_data_cb e s st
      else
        let k = sock_pool st s; n = SOCKBUF_LEN - sk_sock_pos k; r = en_read e (trace st) (sk_fd k) n;
            st1 = act (A_read (sk_fd k) n r) st
        in case r of
             None \<Rightarrow> ocp_sock_del s st1
           | Some d \<Rightarrow>
               if d = [] then ocp_sock_del s st1
               else
                 let st2 = upd_sock s (\<lambda>k. k\<lparr>sk_sockbuf := buf_put (sk_sock_pos k) d (sk_sockbuf k),
                                             sk_sock_pos := sk_sock_pos k + length d\<rparr>) st1
                 in if sk_sockbuf (sock_pool st2 s) ! 0 \<noteq> 0x05 then ocp_sock_del s st2
                    else if sk_state (sock_pool st2 s) = STATE_SOCKS_AUTH then socks_auth e s st2
                    else if sk_state (sock_pool st2 s) = STATE_SOCKS_CMD then socks_cmd e s st2
                    else event_add s st2)"

text \<open>A connection \<open>fd\<close> was accepted on the listener in slot \<open>l\<close>.\<close>

definition new_conn_cb :: "env \<Rightarrow> nat \<Rightarrow> int \<Rightarrow> ocp \<Rightarrow> ocp res" where
  "new_conn_cb e l fd st =
     (let lsock = sock_pool st l in
      res_bind (ocp_sock_new e fd (if sk_conn_type lsock = CONN_TYPE_REDIR then Local_data_cb else Socks_cmd_cb) 0 st)
        (\<lambda>(r, st1).
          case r of
            None \<Rightarrow> Ok (warn st1)
          | Some s \<Rightarrow>
              let st2 = upd_sock s (\<lambda>k. k\<lparr>sk_conn_type := sk_conn_type (sock_pool st1 l),
                                          sk_rport := sk_rport (sock_pool st1 l)\<rparr>) st1
              in if sk_conn_type (sock_pool st2 s) = CONN_TYPE_REDIR then
                   (case sk_rhost_name (sock_pool st2 l) of
                      Ptr h \<Rightarrow> start_resolution e s (Host_str h) st2
                    | _ \<Rightarrow> Stop Fault)
                 else event_add s (upd_sock s (\<lambda>k. k\<lparr>sk_state := STATE_SOCKS_AUTH\<rparr>) st2)))"

subsection \<open>lwIP and the VPN\<close>

definition vpn_conn_down :: "ocp \<Rightarrow> ocp" where
  "vpn_conn_down = act A_loopbreak"

text \<open>The copy loop of \<^verbatim>\<open>lwip_data_cb\<close>: the bytes read go into the chain, pbuf by pbuf.\<close>

fun lwip_fill :: "chain \<Rightarrow> bytes \<Rightarrow> chain res" where
  "lwip_fill q [] = Ok q"
| "lwip_fill [] data = Stop Fault"
| "lwip_fill (q # qs) data =
     (let copy = (if length data > pb_len q then pb_len q else length data)
      in res_bind (lwip_fill qs (drop copy data)) (\<lambda>r. Ok (pb_put 0 (take copy data) q # r)))"

text \<open>
  A failed read stores nothing and returns -1, which becomes 65535 as the \<^verbatim>\<open>u16_t\<close> length of the
  pbuf. The packet given to \<^verbatim>\<open>netif->input\<close> is recorded in the trace.
\<close>

definition lwip_data_cb :: "env \<Rightarrow> nat \<Rightarrow> ocp \<Rightarrow> ocp res" where
  "lwip_data_cb e s st =
     (let fd = sk_fd (sock_pool st s); r = en_read e (trace st) fd SOCKBUF_LEN;
          st1 = act (A_read fd SOCKBUF_LEN r) st;
          data = (case r of Some d \<Rightarrow> d | None \<Rightarrow> []);
          st2 = upd_sock s (\<lambda>k. k\<lparr>sk_sockbuf := buf_put 0 data (sk_sockbuf k)\<rparr>) st1;
          st3 = (if data = [] then vpn_conn_down st2 else st2);
          len = (case r of Some d \<Rightarrow> length d mod 65536 | None \<Rightarrow> 65535)
      in res_bind (pbuf_alloc (en_alloc e (trace st3)) PBUF_RAW len PBUF_POOL) (\<lambda>p.
         res_bind
           (case p of
              None \<Rightarrow> Ok (warn st3)
            | Some c \<Rightarrow>
                res_bind (lwip_fill c (take (length data) (sk_sockbuf (sock_pool st3 s)))) (\<lambda>c'.
                  case sk_netif (sock_pool st3 s) of
                    Ptr u \<Rightarrow> Ok (act (A_input (chain_data c')) (st3\<lparr>link_recv := link_recv st3 + 1\<rparr>))
                  | _ \<Rightarrow> Stop Fault)) (event_add s)))"

text \<open>The \<^verbatim>\<open>iov\<close> array of \<^verbatim>\<open>lwip_data_out\<close>: at most 128 chunks, else the packet is dropped.\<close>

fun lwip_iov :: "chain \<Rightarrow> nat \<Rightarrow> bytes list \<Rightarrow> bytes list option" where
  "lwip_iov [] i iov = Some iov"
| "lwip_iov (p # ps) i iov = (if i \<ge> 128 then None else lwip_iov ps (i + 1) (iov @ [pb_payload p]))"

definition lwip_data_out :: "env \<Rightarrow> nat \<Rightarrow> chain \<Rightarrow> ocp \<Rightarrow> err_t \<times> ocp" where
  "lwip_data_out e s p st =
     (case lwip_iov p 0 [] of
        None \<Rightarrow> (ERR_OK, warn st)
      | Some iov \<Rightarrow>
          let fd = sk_fd (sock_pool st s); data = concat iov; total = sum_list (map pb_len p);
              ret = en_write e (trace st) fd data; st1 = act (A_writev fd data ret) st
          in (ERR_OK,
              if ret < 0 then
                (if en_conn_errno e (trace st1) then vpn_conn_down st1 else st1\<lparr>link_drop := link_drop st1 + 1\<rparr>)
              else if ret \<noteq> int total then st1\<lparr>link_lenerr := link_lenerr st1 + 1\<rparr>
              else st1\<lparr>link_xmit := link_xmit st1 + 1\<rparr>))"

subsection \<open>Periodic tasks\<close>

datatype signal = SIGHUP | SIGUSR1

fun handle_sig :: "signal \<Rightarrow> ocp \<Rightarrow> ocp" where
  "handle_sig SIGHUP st = st\<lparr>got_sighup := True\<rparr>"
| "handle_sig SIGUSR1 st = st\<lparr>got_sigusr1 := True\<rparr>"

definition cb_dns_tmr :: "env \<Rightarrow> ocp \<Rightarrow> ocp res" where
  "cb_dns_tmr e st = dns_tmr (found_cb e) (en_dns e (trace st)) st"

definition cb_housekeeping :: "env \<Rightarrow> int \<Rightarrow> ocp \<Rightarrow> ocp" where
  "cb_housekeeping e vpnfd st =
     (let n = en_write e (trace st) vpnfd []; st1 = act (A_write vpnfd [] n) st;
          st2 = (if n < 0 \<and> en_conn_errno e (trace st1) then vpn_conn_down st1
                 else if got_sighup st1 then vpn_conn_down st1 else st1)
      in if got_sigusr1 st2 then st2\<lparr>got_sigusr1 := False\<rparr> else st2)"

text \<open>libevent calls the function an event was created with.\<close>

fun event_cb :: "event_fn \<Rightarrow> env \<Rightarrow> nat \<Rightarrow> ocp \<Rightarrow> ocp res" where
  "event_cb Local_data_cb e s st = local_data_cb e s st"
| "event_cb Socks_cmd_cb e s st = socks_cmd_cb e s st"
| "event_cb Lwip_data_cb e s st = lwip_data_cb e s st"

end
