(* ===== verification/Ocp_Inv.thy ===== *)
theory Ocp_Inv
  imports Ocp_Proxy
begin

text \<open>
  The invariant of the proxy: the free list is a proper list of the unused slots, every slot in use
  is in a state its event, its TCP block and its pending lookup agree with, and nothing outside the
  pool refers to a slot that is not in use. The lemmas show what each operation on a slot does to it.
\<close>

subsection \<open>The free list\<close>

text \<open>A slot made by \<^verbatim>\<open>new_listener\<close>; such a slot is never given back.\<close>

definition is_listener :: "ocp_sock \<Rightarrow> bool" where
  "is_listener k \<longleftrightarrow> sk_listen_cb k = Ptr New_conn_cb"

fun free_path :: "(nat \<Rightarrow> ocp_sock) \<Rightarrow> nat option \<Rightarrow> nat list \<Rightarrow> bool" where
  "free_path pool h [] \<longleftrightarrow> h = None"
| "free_path pool h (x # xs) \<longleftrightarrow> h = Some x \<and> \<not> is_listener (pool x) \<and> free_path pool (sk_next (pool x)) xs"

lemma free_path_cong:
  "(\<And>x. x \<in> set xs \<Longrightarrow> pool' x = pool x) \<Longrightarrow> free_path pool' h xs = free_path pool h xs"
  by (induction xs arbitrary: h) auto

lemma free_path_listener: "free_path pool h xs \<Longrightarrow> is_listener (pool l) \<Longrightarrow> l \<notin> set xs"
  by (induction xs arbitrary: h) auto

lemma free_path_upd [simp]: "s \<notin> set xs \<Longrightarrow> free_path (pool(s := k)) h xs = free_path pool h xs"
  by (rule free_path_cong) auto

lemma free_path_unique: "free_path pool h xs \<Longrightarrow> free_path pool h ys \<Longrightarrow> xs = ys"
proof (induction xs arbitrary: h ys)
  case Nil
  then show ?case by (cases ys) auto
next
  case (Cons x xs)
  then show ?case by (cases ys) auto
qed

subsection \<open>Slots\<close>

text \<open>What a slot in use looks like: a listener, the VPN's slot, or a connection.\<close>

definition slot_ok :: "(nat \<Rightarrow> tcp_pcb option) \<Rightarrow> nat \<Rightarrow> ocp_sock \<Rightarrow> bool" where
  "slot_ok pm s k \<longleftrightarrow>
     length (sk_sockbuf k) = 2048 \<and> sk_sock_pos k \<le> 2048 \<and> (sk_lwip_blocked k \<longrightarrow> sk_state k = STATE_DATA) \<and>
     (case sk_ev k of
        Null \<Rightarrow> sk_state k = STATE_NEW \<and> sk_tpcb k = Null \<and>
                (is_listener k \<and> sk_conn_type k = 0 \<longrightarrow> (\<exists>h. sk_rhost_name k = Ptr h))
      | Wild \<Rightarrow> False
      | Ptr f \<Rightarrow>
          if f = Lwip_data_cb then sk_state k = STATE_NEW \<and> sk_tpcb k = Null \<and> sk_netif k = Ptr ()
          else if sk_state k = STATE_CONNECTING \<or> sk_state k = STATE_DATA
          then \<exists>p b. sk_tpcb k = Ptr p \<and> pm p = Some b \<and> pc_arg b = Some s
          else sk_state k \<noteq> State_poison \<and> sk_tpcb k = Null)"

text \<open>When the event of a slot may be armed.\<close>

definition ev_ready :: "ocp_sock \<Rightarrow> bool" where
  "ev_ready k \<longleftrightarrow>
     sk_ev k = Ptr Local_data_cb \<and> sk_state k = STATE_DATA \<or>
     sk_ev k = Ptr Socks_cmd_cb \<and> sk_state k \<in> {STATE_SOCKS_AUTH, STATE_SOCKS_CMD, STATE_DATA} \<or>
     sk_ev k = Ptr Lwip_data_cb"

definition is_conn :: "ocp_sock \<Rightarrow> bool" where
  "is_conn k \<longleftrightarrow> sk_ev k = Ptr Local_data_cb \<or> sk_ev k = Ptr Socks_cmd_cb"

type_synonym waiters = "nat \<Rightarrow> (found_fn \<times> nat option) option"

definition waited :: "waiters \<Rightarrow> nat \<Rightarrow> bool" where
  "waited w s \<longleftrightarrow> (\<exists>i f. w i = Some (f, Some s))"

text \<open>
  The invariant, given the free slots \<open>fl\<close> in list order and the callbacks \<open>w\<close> the resolver still
  owes. Slots in \<open>X\<close> are being worked on: nothing is known of them except that nothing but
  libevent refers to them.
\<close>

definition ocp_ok :: "nat set \<Rightarrow> nat list \<Rightarrow> waiters \<Rightarrow> ocp \<Rightarrow> bool" where
  "ocp_ok X fl w st \<longleftrightarrow>
     free_path (sock_pool st) (sock_free_list st) fl \<and> distinct fl \<and> set fl \<subseteq> {..<1024} - X \<and> X \<subseteq> {..<1024} \<and>
     sock_used st = 1024 - int (length fl) \<and>
     (\<forall>s<1024. s \<notin> set fl \<and> s \<notin> X \<longrightarrow> slot_ok (pcbs st) s (sock_pool st s)) \<and>
     (\<forall>s. pending st s \<longrightarrow> s < 1024 \<and> s \<notin> set fl \<and> (s \<notin> X \<longrightarrow> ev_ready (sock_pool st s))) \<and>
     (\<forall>p b. pcbs st p = Some b \<longrightarrow> (p < next_pcb st \<and> (pc_connected b \<longrightarrow> pc_arg b \<noteq> None)) \<and>
        (\<forall>s. pc_arg b = Some s \<longrightarrow> s < 1024 \<and> s \<notin> set fl \<and> s \<notin> X \<and> sk_tpcb (sock_pool st s) = Ptr p)) \<and>
     (\<forall>i f a. w i = Some (f, a) \<longrightarrow>
        (\<exists>s. a = Some s \<and> s < 1024 \<and> s \<notin> set fl \<and> s \<notin> X \<and> sk_state (sock_pool st s) = STATE_DNS)) \<and>
     (\<forall>i j f g a. w i = Some (f, a) \<and> w j = Some (g, a) \<longrightarrow> i = j)"

lemma ocp_okI:
  assumes "free_path (sock_pool st) (sock_free_list st) fl" and "distinct fl" and "set fl \<subseteq> {..<1024} - X" and "X \<subseteq> {..<1024}"
    and "sock_used st = 1024 - int (length fl)"
    and "\<And>s. s < 1024 \<Longrightarrow> s \<notin> set fl \<Longrightarrow> s \<notin> X \<Longrightarrow> slot_ok (pcbs st) s (sock_pool st s)"
    and "\<And>s. pending st s \<Longrightarrow> s < 1024 \<and> s \<notin> set fl \<and> (s \<notin> X \<longrightarrow> ev_ready (sock_pool st s))"
    and "\<And>p b. pcbs st p = Some b \<Longrightarrow> p < next_pcb st \<and> (pc_connected b \<longrightarrow> pc_arg b \<noteq> None)"
    and "\<And>p b s. pcbs st p = Some b \<Longrightarrow> pc_arg b = Some s \<Longrightarrow>
      s < 1024 \<and> s \<notin> set fl \<and> s \<notin> X \<and> sk_tpcb (sock_pool st s) = Ptr p"
    and "\<And>i f a. w i = Some (f, a) \<Longrightarrow>
      \<exists>s. a = Some s \<and> s < 1024 \<and> s \<notin> set fl \<and> s \<notin> X \<and> sk_state (sock_pool st s) = STATE_DNS"
    and "\<And>i j f g a. w i = Some (f, a) \<Longrightarrow> w j = Some (g, a) \<Longrightarrow> i = j"
  shows "ocp_ok X fl w st"
  unfolding ocp_ok_def using assms by blast

lemma ocp_okD:
  assumes "ocp_ok X fl w st"
  shows "free_path (sock_pool st) (sock_free_list st) fl" and "distinct fl" and "set fl \<subseteq> {..<1024} - X" and "X \<subseteq> {..<1024}"
    and "sock_used st = 1024 - int (length fl)"
    and "\<And>s. s < 1024 \<Longrightarrow> s \<notin> set fl \<Longrightarrow> s \<notin> X \<Longrightarrow> slot_ok (pcbs st) s (sock_pool st s)"
    and "\<And>s. pending st s \<Longrightarrow> s < 1024 \<and> s \<notin> set fl \<and> (s \<notin> X \<longrightarrow> ev_ready (sock_pool st s))"
    and "\<And>p b. pcbs st p = Some b \<Longrightarrow> p < next_pcb st \<and> (pc_connected b \<longrightarrow> pc_arg b \<noteq> None)"
    and "\<And>p b s. pcbs st p = Some b \<Longrightarrow> pc_arg b = Some s \<Longrightarrow>
      s < 1024 \<and> s \<notin> set fl \<and> s \<notin> X \<and> sk_tpcb (sock_pool st s) = Ptr p"
    and "\<And>i f a. w i = Some (f, a) \<Longrightarrow>
      \<exists>s. a = Some s \<and> s < 1024 \<and> s \<notin> set fl \<and> s \<notin> X \<and> sk_state (sock_pool st s) = STATE_DNS"
    and "\<And>i j f g a. w i = Some (f, a) \<Longrightarrow> w j = Some (g, a) \<Longrightarrow> i = j"
  using assms unfolding ocp_ok_def by blast+

definition ocp_inv :: "waiters \<Rightarrow> ocp \<Rightarrow> bool" where
  "ocp_inv w st \<longleftrightarrow> (\<exists>fl. ocp_ok {} fl w st)"

lemma upd_sock_simps [simp]:
  "sock_pool (upd_sock s f st) = (sock_pool st)(s := f (sock_pool st s))"
  "sock_free_list (upd_sock s f st) = sock_free_list st" "sock_used (upd_sock s f st) = sock_used st"
  "pending (upd_sock s f st) = pending st" "pcbs (upd_sock s f st) = pcbs st"
  "next_pcb (upd_sock s f st) = next_pcb st" "trace (upd_sock s f st) = trace st"
  "sock_bind_list (upd_sock s f st) = sock_bind_list st" "sock_max (upd_sock s f st) = sock_max st"
  "dns_domain (upd_sock s f st) = dns_domain st" "keep_intvl (upd_sock s f st) = keep_intvl st"
  by (simp_all add: upd_sock_def)

lemma upd_sock_upd_sock: "upd_sock s f (upd_sock s g st) = upd_sock s (\<lambda>k. f (g k)) st"
  by (simp add: upd_sock_def)

lemma act_simps [simp]:
  "sock_pool (act a st) = sock_pool st" "sock_free_list (act a st) = sock_free_list st"
  "sock_used (act a st) = sock_used st" "pending (act a st) = pending st" "pcbs (act a st) = pcbs st"
  "next_pcb (act a st) = next_pcb st" "trace (act a st) = trace st @ [a]"
  "dns_domain (act a st) = dns_domain st" "keep_intvl (act a st) = keep_intvl st"
  by (simp_all add: act_def)

text \<open>The resolver's part of the state is untouched by the program's own updates.\<close>

lemma dns_part_simps [simp]:
  "dns_wf (upd_sock s f st) = dns_wf st" "waiter (upd_sock s f st) = waiter st"
  "dns_wf (act a st) = dns_wf st" "waiter (act a st) = waiter st"
  "dns_wf (st\<lparr>pcbs := x1\<rparr>) = dns_wf st" "waiter (st\<lparr>pcbs := x1\<rparr>) = waiter st"
  "dns_wf (st\<lparr>pending := x2\<rparr>) = dns_wf st" "waiter (st\<lparr>pending := x2\<rparr>) = waiter st"
  "dns_wf (st\<lparr>next_pcb := x3\<rparr>) = dns_wf st" "waiter (st\<lparr>next_pcb := x3\<rparr>) = waiter st"
  "dns_wf (st\<lparr>sock_free_list := x4\<rparr>) = dns_wf st" "waiter (st\<lparr>sock_free_list := x4\<rparr>) = waiter st"
  "dns_wf (st\<lparr>sock_used := x5\<rparr>) = dns_wf st" "waiter (st\<lparr>sock_used := x5\<rparr>) = waiter st"
  "dns_wf (st\<lparr>sock_max := x6\<rparr>) = dns_wf st" "waiter (st\<lparr>sock_max := x6\<rparr>) = waiter st"
  "dns_wf (st\<lparr>sock_bind_list := x7\<rparr>) = dns_wf st" "waiter (st\<lparr>sock_bind_list := x7\<rparr>) = waiter st"
  "dns_wf (st\<lparr>link_recv := x8\<rparr>) = dns_wf st" "waiter (st\<lparr>link_recv := x8\<rparr>) = waiter st"
  by (auto simp: dns_wf_def waiter_def fun_eq_iff upd_sock_def act_def)

lemma ocp_ok_act [simp]: "ocp_ok X fl w (act a st) = ocp_ok X fl w st"
  by (simp add: ocp_ok_def)

lemma slot_ok_simps:
  "is_conn k \<Longrightarrow> slot_ok pm s k \<longleftrightarrow> length (sk_sockbuf k) = 2048 \<and> sk_sock_pos k \<le> 2048 \<and>
     (sk_lwip_blocked k \<longrightarrow> sk_state k = STATE_DATA) \<and>
     (if sk_state k = STATE_CONNECTING \<or> sk_state k = STATE_DATA
      then \<exists>p b. sk_tpcb k = Ptr p \<and> pm p = Some b \<and> pc_arg b = Some s
      else sk_state k \<noteq> State_poison \<and> sk_tpcb k = Null)"
  by (auto simp: slot_ok_def is_conn_def)

lemma is_conn_ev: "is_conn k \<Longrightarrow> \<exists>f. sk_ev k = Ptr f \<and> f \<noteq> Lwip_data_cb"
  by (auto simp: is_conn_def)

lemma slot_ok_busy:
  "slot_ok pm s k \<Longrightarrow> sk_state k \<noteq> STATE_NEW \<Longrightarrow> is_conn k"
  by (auto simp: slot_ok_def is_conn_def split: ptr.splits if_splits) (metis event_fn.exhaust)+

lemma zero_sock_simps [simp]:
  "sk_state zero_sock = STATE_NEW" "sk_tpcb zero_sock = Null" "sk_ev zero_sock = Null" "sk_sockbuf zero_sock = replicate 2048 0"
  "sk_sock_pos zero_sock = 0" "\<not> sk_lwip_blocked zero_sock"
  by (simp_all add: zero_sock_def)

lemma poison_not_listener [simp]: "\<not> is_listener (poison_sock\<lparr>sk_next := x\<rparr>)"
  by (simp add: is_listener_def poison_sock_def)

subsection \<open>Working on one slot\<close>

lemma ocp_ok_live: "ocp_ok {} fl w st \<Longrightarrow> s < 1024 \<Longrightarrow> s \<notin> set fl \<Longrightarrow> slot_ok (pcbs st) s (sock_pool st s)"
  by (auto simp: ocp_ok_def)

lemma ocp_ok_open:
  assumes "ocp_ok {} fl w st" and "s < 1024" and "s \<notin> set fl" and "\<not> waited w s" and "\<And>p. sk_tpcb (sock_pool st s) \<noteq> Ptr p"
  shows "ocp_ok {s} fl w st"
  using assms unfolding ocp_ok_def waited_def by (auto, metis+)

lemma ocp_ok_close:
  "ocp_ok {s} fl w st \<Longrightarrow> slot_ok (pcbs st) s (sock_pool st s) \<Longrightarrow> (pending st s \<Longrightarrow> ev_ready (sock_pool st s)) \<Longrightarrow>
     ocp_ok {} fl w st"
  unfolding ocp_ok_def by (auto, metis+)

lemma ocp_ok_X: "ocp_ok {s} fl w st \<Longrightarrow> s < 1024 \<and> s \<notin> set fl \<and> \<not> waited w s"
  unfolding ocp_ok_def waited_def by fastforce

lemma ocp_ok_upd_X [simp]: "ocp_ok {s} fl w (upd_sock s f st) = ocp_ok {s} fl w st"
proof (cases "s \<in> set fl")
  case True
  then show ?thesis by (auto simp: ocp_ok_def)
next
  case False
  then show ?thesis by (simp add: ocp_ok_def cong: conj_cong)
qed

lemma ocp_ok_pending_X:
  "ocp_ok {s} fl w st \<Longrightarrow> ocp_ok {s} fl w (st\<lparr>pending := (pending st)(s := b)\<rparr>)"
  unfolding ocp_ok_def by auto

lemma ocp_ok_free:
  assumes "ocp_ok {s} fl w st" and "\<not> pending st s" and "sk_next k = sock_free_list st" and "\<not> is_listener k"
  shows "ocp_ok {} (s # fl) w ((upd_sock s (\<lambda>_. k) st)\<lparr>sock_free_list := Some s, sock_used := sock_used st - 1\<rparr>)"
proof -
  have "s < 1024" "s \<notin> set fl" "\<not> waited w s" using ocp_ok_X [OF assms(1)] by auto
  with assms show ?thesis unfolding ocp_ok_def by (auto, metis+)
qed

lemma ocp_ok_alloc:
  assumes "ocp_ok {} (s # fl) w st"
  shows "ocp_ok {s} fl w (upd_sock s f (st\<lparr>sock_free_list := sk_next (sock_pool st s), sock_used := sock_used st + 1\<rparr>))"
proof -
  have "s < 1024" "s \<notin> set fl" "sock_free_list st = Some s" using assms by (auto simp: ocp_ok_def)
  with assms show ?thesis
    unfolding ocp_ok_upd_X unfolding ocp_ok_def by (auto, metis+)
qed

lemma ocp_ok_tpcb:
  assumes "ocp_ok {} fl w st" and "s < 1024" and "s \<notin> set fl" and "sk_tpcb (sock_pool st s) = Ptr p"
  shows "is_conn (sock_pool st s) \<and> sk_state (sock_pool st s) \<in> {STATE_CONNECTING, STATE_DATA} \<and>
    (\<exists>b. pcbs st p = Some b \<and> pc_arg b = Some s) \<and> \<not> waited w s"
proof -
  have so: "slot_ok (pcbs st) s (sock_pool st s)" using ocp_ok_live [OF assms(1-3)] .
  then have c: "is_conn (sock_pool st s)"
    using assms(4) by (auto simp: slot_ok_def is_conn_def split: ptr.splits if_splits) (metis event_fn.exhaust)+
  then have st: "sk_state (sock_pool st s) \<in> {STATE_CONNECTING, STATE_DATA}"
    "\<exists>b. pcbs st p = Some b \<and> pc_arg b = Some s"
    using so assms(4) by (auto simp: slot_ok_simps split: if_splits)
  have "\<not> waited w s" using assms(1) st(1) unfolding ocp_ok_def waited_def by fastforce
  with c st show ?thesis by blast
qed

text \<open>The TCP block of a slot forgets the slot, or goes away.\<close>

lemma ocp_ok_detach:
  assumes ok: "ocp_ok {} fl w st" and s: "s < 1024" "s \<notin> set fl" "sk_tpcb (sock_pool st s) = Ptr p"
    and x: "\<And>b. x = Some b \<Longrightarrow> pc_arg b = None \<and> \<not> pc_connected b"
  shows "ocp_ok {s} fl w (st\<lparr>pcbs := (pcbs st)(p := x)\<rparr>)" (is "ocp_ok _ _ _ ?st")
proof -
  obtain b where b: "pcbs st p = Some b" "pc_arg b = Some s" and nw: "\<not> waited w s"
    using ocp_ok_tpcb [OF ok s] by auto
  have slot: "slot_ok ((pcbs st)(p := x)) t (sock_pool st t)" if "t < 1024" "t \<notin> set fl" "t \<noteq> s" for t
  proof -
    have "slot_ok (pcbs st) t (sock_pool st t)" using ocp_ok_live [OF ok that(1,2)] .
    then show ?thesis using b that(3) by (auto simp: slot_ok_def split: ptr.splits if_splits)
  qed
  note d = ocp_okD [OF ok]
  show ?thesis
  proof (rule ocp_okI)
    show "slot_ok (pcbs ?st) t (sock_pool ?st t)" if "t < 1024" "t \<notin> set fl" "t \<notin> {s}" for t
      using slot that by simp
    show "t < 1024 \<and> t \<notin> set fl \<and> (t \<notin> {s} \<longrightarrow> ev_ready (sock_pool ?st t))" if "pending ?st t" for t
      using that d(7) [of t] by simp
    show "q < next_pcb ?st \<and> (pc_connected c \<longrightarrow> pc_arg c \<noteq> None)" if "pcbs ?st q = Some c" for q c
      using that d(8) [of q c] d(8) [OF b(1)] x [of c] by (cases "q = p") auto
    show "t < 1024 \<and> t \<notin> set fl \<and> t \<notin> {s} \<and> sk_tpcb (sock_pool ?st t) = Ptr q"
      if "pcbs ?st q = Some c" "pc_arg c = Some t" for q c t
      using that d(9) [of q c t] s(3) x [of c] by (cases "q = p") auto
    show "\<exists>t. a = Some t \<and> t < 1024 \<and> t \<notin> set fl \<and> t \<notin> {s} \<and> sk_state (sock_pool ?st t) = STATE_DNS"
      if "w i = Some (f, a)" for i f a
      using d(10) [OF that] nw that by (auto simp: waited_def)
  qed (use d(1-5,11) s(1,2) in auto)
qed

text \<open>A new TCP block for a slot.\<close>

lemma ocp_ok_attach:
  assumes ok: "ocp_ok {s} fl w st" and "\<not> pending st s" and "pc_arg b = Some s"
    and "is_conn k" and "length (sk_sockbuf k) = 2048" and "sk_sock_pos k \<le> 2048"
    and "sk_state k = STATE_CONNECTING" and "sk_tpcb k = Ptr (next_pcb st)" and "\<not> sk_lwip_blocked k"
  shows "ocp_ok {} fl w ((upd_sock s (\<lambda>_. k) st)
    \<lparr>next_pcb := next_pcb st + 1, pcbs := (pcbs st)(next_pcb st := Some b)\<rparr>)" (is "ocp_ok _ _ _ ?st")
proof -
  have s: "s < 1024" "s \<notin> set fl" "\<not> waited w s" using ocp_ok_X [OF ok] by auto
  have fresh: "pcbs st p = Some c \<Longrightarrow> p \<noteq> next_pcb st" for p c using ok by (auto simp: ocp_ok_def)
  have slot: "slot_ok ((pcbs st)(next_pcb st := Some b)) t (((sock_pool st)(s := k)) t)"
    if "t < 1024" "t \<notin> set fl" for t
  proof (cases "t = s")
    case True
    then show ?thesis using assms(3-) by (simp add: slot_ok_simps)
  next
    case False
    then have "slot_ok (pcbs st) t (sock_pool st t)" using ok that by (auto simp: ocp_ok_def)
    then show ?thesis using False fresh by (auto simp: slot_ok_def split: ptr.splits if_splits)
  qed
  note d = ocp_okD [OF ok]
  show ?thesis
  proof (rule ocp_okI)
    show "free_path (sock_pool ?st) (sock_free_list ?st) fl" using d(1) s by simp
    show "slot_ok (pcbs ?st) t (sock_pool ?st t)" if "t < 1024" "t \<notin> set fl" for t using slot [OF that] by simp
    show "t < 1024 \<and> t \<notin> set fl \<and> (t \<notin> {} \<longrightarrow> ev_ready (sock_pool ?st t))" if "pending ?st t" for t
      using that d(7) [of t] assms(2) by (cases "t = s") auto
    show "q < next_pcb ?st \<and> (pc_connected c \<longrightarrow> pc_arg c \<noteq> None)" if "pcbs ?st q = Some c" for q c
      using that d(8) [of q c] assms(3) by (auto split: if_splits)
    show "t < 1024 \<and> t \<notin> set fl \<and> t \<notin> {} \<and> sk_tpcb (sock_pool ?st t) = Ptr q"
      if "pcbs ?st q = Some c" "pc_arg c = Some t" for q c t
      using that d(9) [of q c t] assms(3,8) s by (auto split: if_splits)
    show "\<exists>t. a = Some t \<and> t < 1024 \<and> t \<notin> set fl \<and> t \<notin> {} \<and> sk_state (sock_pool ?st t) = STATE_DNS"
      if "w i = Some (f, a)" for i f a
      using d(10) [OF that] by auto
  qed (use d(2-5,11) in auto)
qed

text \<open>A slot starts to wait for the resolver.\<close>

lemma ocp_ok_wait:
  assumes ok: "ocp_ok {s} fl w st" and "\<not> pending st s" and "slot_ok (pcbs st) s (sock_pool st s)"
    and "sk_state (sock_pool st s) = STATE_DNS"
  shows "ocp_ok {} fl (w(j := Some (f, Some s))) st"
proof -
  have s: "s < 1024" "s \<notin> set fl" "\<not> waited w s" using ocp_ok_X [OF ok] by auto
  note d = ocp_okD [OF ok]
  show ?thesis
  proof (rule ocp_okI)
    show "slot_ok (pcbs st) t (sock_pool st t)" if "t < 1024" "t \<notin> set fl" for t
      using d(6) [of t] that assms(3) by (cases "t = s") auto
    show "t < 1024 \<and> t \<notin> set fl \<and> (t \<notin> {} \<longrightarrow> ev_ready (sock_pool st t))" if "pending st t" for t
      using that d(7) [of t] assms(2) by (cases "t = s") auto
    show "t < 1024 \<and> t \<notin> set fl \<and> t \<notin> {} \<and> sk_tpcb (sock_pool st t) = Ptr q"
      if "pcbs st q = Some c" "pc_arg c = Some t" for q c t
      using that d(9) [of q c t] by auto
    show "\<exists>t. a = Some t \<and> t < 1024 \<and> t \<notin> set fl \<and> t \<notin> {} \<and> sk_state (sock_pool st t) = STATE_DNS"
      if "(w(j := Some (f, Some s))) i = Some (g, a)" for i g a
      using that d(10) [of i g a] assms(4) s by (auto split: if_splits)
    show "i = k" if "(w(j := Some (f, Some s))) i = Some (g, a)" "(w(j := Some (f, Some s))) k = Some (h, a)" for i k g h a
      using that d(11) [of i g a k h] s(3) by (auto simp: waited_def split: if_splits)
  qed (use d(1-5,8) in auto)
qed

subsection \<open>Operations\<close>

text \<open>
  The outcome of an operation of the program alone: the invariant holds again, for the same callbacks
  to come, and the resolver's state is as before.
\<close>

definition keeps :: "waiters \<Rightarrow> ocp \<Rightarrow> ocp \<Rightarrow> bool" where
  "keeps w st st' \<longleftrightarrow> ocp_inv w st' \<and> dns_wf st' = dns_wf st \<and> waiter st' = waiter st"

lemma keepsI: "ocp_ok {} fl w st' \<Longrightarrow> dns_wf st' = dns_wf st \<Longrightarrow> waiter st' = waiter st \<Longrightarrow> keeps w st st'"
  by (auto simp: keeps_def ocp_inv_def)

lemma event_add_X:
  assumes "ocp_ok {s} fl w st" and "slot_ok (pcbs st) s (sock_pool st s)" and "ev_ready (sock_pool st s)"
  shows "res_safe (keeps w st) (event_add s st)"
proof -
  obtain f where "sk_ev (sock_pool st s) = Ptr f" using assms(3) by (auto simp: ev_ready_def)
  moreover have "ocp_ok {} fl w (st\<lparr>pending := (pending st)(s := True)\<rparr>)"
    by (rule ocp_ok_close [OF ocp_ok_pending_X [OF assms(1)]]) (use assms in auto)
  ultimately show ?thesis by (auto simp: event_add_def intro: keepsI)
qed

lemma sock_del_X:
  assumes "ocp_ok {s} fl w st" and "sk_tpcb (sock_pool st s) = Null" and "sk_ev (sock_pool st s) = Ptr f"
    and "sk_state (sock_pool st s) \<noteq> STATE_DNS"
  shows "res_safe (keeps w st) (ocp_sock_del s st)"
proof -
  let ?s1 = "(act (A_close (sk_fd (sock_pool st s))) st)\<lparr>pending := (pending st)(s := False)\<rparr>"
  have "ocp_ok {s} fl w ?s1"
    using ocp_ok_pending_X [of s fl w "act (A_close (sk_fd (sock_pool st s))) st" False] assms(1) by simp
  from ocp_ok_free [OF this, of "poison_sock\<lparr>sk_next := sock_free_list st\<rparr>"]
  show ?thesis
    using assms by (auto simp: ocp_sock_del_def event_free_def Let_def intro!: keepsI)
qed

lemma sock_del_safe:
  assumes ok: "ocp_ok {} fl w st" and s: "s < 1024" "s \<notin> set fl" "is_conn (sock_pool st s)" "\<not> waited w s"
  shows "res_safe (keeps w st) (ocp_sock_del s st)"
proof -
  have so: "slot_ok (pcbs st) s (sock_pool st s)" using ocp_ok_live [OF ok s(1,2)] .
  obtain f where f: "sk_ev (sock_pool st s) = Ptr f" using is_conn_ev [OF s(3)] by auto
  consider p where "sk_tpcb (sock_pool st s) = Ptr p" | "sk_tpcb (sock_pool st s) = Null"
    using so s(3) by (auto simp: slot_ok_simps split: if_splits)
  then show ?thesis
  proof cases
    case 1
    obtain b where b: "pcbs st p = Some b" "sk_state (sock_pool st s) \<noteq> STATE_DNS"
      using ocp_ok_tpcb [OF ok s(1,2) 1] by auto
    let ?s1 = "st\<lparr>pcbs := (pcbs st)(p := if pc_connected b then None else Some (b\<lparr>pc_arg := None\<rparr>))\<rparr>"
    let ?s2 = "?s1\<lparr>trace := trace st @ [A_close (sk_fd (sock_pool st s)), A_tcp_close p], pending := (pending st)(s := False)\<rparr>"
    have "ocp_ok {s} fl w ?s1" by (rule ocp_ok_detach [OF ok s(1,2) 1]) (auto split: if_splits)
    then have "ocp_ok {s} fl w ?s2" unfolding ocp_ok_def by simp
    from ocp_ok_free [OF this, of "poison_sock\<lparr>sk_next := sock_free_list st\<rparr>"]
    show ?thesis
      using 1 b f by (auto simp: ocp_sock_del_def event_free_def tcp_arg_def tcp_close_def upd_pcb_def act_def Let_def
          dns_wf_def waiter_def fun_eq_iff upd_sock_def intro!: keepsI)
  next
    case 2
    have X: "ocp_ok {s} fl w st" by (rule ocp_ok_open [OF ok s(1,2,4)]) (simp add: 2)
    show ?thesis
    proof (cases "sk_state (sock_pool st s) = STATE_DNS")
      case True
      have "\<not> pending st s" using ocp_okD(7) [OF ok, of s] True s(3) by (auto simp: ev_ready_def is_conn_def)
      then have "ocp_ok {} fl w (upd_sock s (\<lambda>k. k\<lparr>sk_state := STATE_DEAD\<rparr>) st)"
        by (intro ocp_ok_close [of s]) (use X so s(3) 2 in \<open>auto simp: slot_ok_simps is_conn_def\<close>)
      then show ?thesis using True by (auto simp: ocp_sock_del_def intro: keepsI)
    next
      case False
      then show ?thesis using sock_del_X [OF X 2 f] by simp
    qed
  qed
qed

end
