(* ===== verification/Ocp_Resolve.thy ===== *)
theory Ocp_Resolve
  imports Ocp_Inv
begin

text \<open>
  Connection setup keeps the invariant of the proxy, and the two functions it registers with the
  resolver meet the resolver's contract \<open>dns_client\<close>.
\<close>

lemma ocp_ok_view:
  assumes "ocp_ok X fl w st" and "sock_pool st' = sock_pool st" and "sock_free_list st' = sock_free_list st"
    and "sock_used st' = sock_used st" and "pending st' = pending st" and "pcbs st' = pcbs st" and "next_pcb st' = next_pcb st"
  shows "ocp_ok X fl w st'"
  using assms by (simp add: ocp_ok_def)

lemma keeps_act [simp]: "keeps w (act a st) = keeps w st"
  by (simp add: keeps_def fun_eq_iff)

lemma keeps_upd [simp]: "keeps w (upd_sock s f st) = keeps w st"
  by (simp add: keeps_def fun_eq_iff)

lemma fun_upd_same_iff: "f(a := x) = f(a := y) \<longleftrightarrow> x = y"
  by (metis fun_upd_same)

text \<open>What \<^verbatim>\<open>start_connection\<close> leaves behind.\<close>

lemma start_connection_cases:
  "start_connection e s a st = Stop Die \<or>
   (\<exists>st' b. start_connection e s a st = Ok st' \<and> pc_arg b = Some s \<and> pc_errf b \<and>
      sock_pool st' = (sock_pool st)(s := (sock_pool st s)\<lparr>sk_state := STATE_CONNECTING, sk_tpcb := Ptr (next_pcb st)\<rparr>) \<and>
      sock_free_list st' = sock_free_list st \<and> sock_used st' = sock_used st \<and> pending st' = pending st \<and>
      pcbs st' = (pcbs st)(next_pcb st := Some b) \<and> next_pcb st' = next_pcb st + 1 \<and>
      dns_wf st' = dns_wf st \<and> waiter st' = waiter st)"
  by (cases "en_tcp_new e (trace st)") (auto simp: start_connection_def Let_def warn_def fun_upd_same_iff)

lemma start_connection_X:
  assumes "ocp_ok {s} fl w st" and "\<not> pending st s" and "is_conn (sock_pool st s)"
    and "length (sk_sockbuf (sock_pool st s)) = 2048" and "sk_sock_pos (sock_pool st s) \<le> 2048"
    and "\<not> sk_lwip_blocked (sock_pool st s)"
  shows "res_safe (keeps w st) (start_connection e s a st)"
proof -
  let ?k = "(sock_pool st s)\<lparr>sk_state := STATE_CONNECTING, sk_tpcb := Ptr (next_pcb st)\<rparr>"
  have att: "ocp_ok {} fl w ((upd_sock s (\<lambda>_. ?k) st)\<lparr>next_pcb := next_pcb st + 1, pcbs := (pcbs st)(next_pcb st := Some b)\<rparr>)"
    if "pc_arg b = Some s" for b
    by (rule ocp_ok_attach [OF assms(1,2) that]) (use assms(3-) in \<open>auto simp: is_conn_def\<close>)
  show ?thesis
    using start_connection_cases [of e s a st]
  proof (elim disjE exE conjE)
    fix st' b
    assume st': "start_connection e s a st = Ok st'" "pc_arg b = Some s" "sock_pool st' = (sock_pool st)(s := ?k)"
      "sock_free_list st' = sock_free_list st" "sock_used st' = sock_used st" "pending st' = pending st"
      "pcbs st' = (pcbs st)(next_pcb st := Some b)" "next_pcb st' = next_pcb st + 1"
      "dns_wf st' = dns_wf st" "waiter st' = waiter st"
    have "ocp_ok {} fl w st'" by (rule ocp_ok_view [OF att [OF st'(2)]]) (use st' in auto)
    then show ?thesis using st' by (auto intro: keepsI)
  qed simp
qed

lemma socks_reply_safe:
  assumes "ocp_ok {} fl w st" and "s < 1024" "s \<notin> set fl" "is_conn (sock_pool st s)" "\<not> waited w s" and "rep \<noteq> 0"
  shows "res_safe (keeps w st) (socks_reply e s rep st)"
  using sock_del_safe [of fl w "act a st" s for a] assms by (simp add: socks_reply_def Let_def)

subsection \<open>Name resolution\<close>

text \<open>The callbacks to come, without those of the entries in \<open>K\<close>, which are being dropped.\<close>

definition restr :: "nat set \<Rightarrow> waiters \<Rightarrow> waiters" where
  "restr K w = (\<lambda>i. if i \<in> K then None else w i)"

definition resolving :: "nat set \<Rightarrow> nat \<Rightarrow> ocp \<Rightarrow> bool" where
  "resolving K s st \<longleftrightarrow> dns_wf st \<and> (\<exists>fl. ocp_ok {} fl (restr K (waiter st)) st \<and> s < 1024 \<and> s \<notin> set fl) \<and>
     sk_state (sock_pool st s) = STATE_DNS \<and> \<not> waited (restr K (waiter st)) s"

definition resolved :: "nat set \<Rightarrow> ocp \<Rightarrow> bool" where
  "resolved K st \<longleftrightarrow> dns_wf st \<and> ocp_inv (restr K (waiter st)) st"

lemma restr_simps [simp]: "restr {} w = w" "restr {i} w = w(i := None)"
  by (auto simp: restr_def)

lemma resolving_conn:
  assumes "resolving K s st"
  obtains fl where "ocp_ok {} fl (restr K (waiter st)) st" "s < 1024" "s \<notin> set fl" "is_conn (sock_pool st s)"
    "\<not> pending st s" "\<not> waited (restr K (waiter st)) s" "dns_wf st" "sk_tpcb (sock_pool st s) = Null"
    "slot_ok (pcbs st) s (sock_pool st s)" "ocp_ok {s} fl (restr K (waiter st)) st"
proof -
  from assms obtain fl where fl: "ocp_ok {} fl (restr K (waiter st)) st" "s < 1024" "s \<notin> set fl"
    and st: "sk_state (sock_pool st s) = STATE_DNS" "\<not> waited (restr K (waiter st)) s" "dns_wf st"
    by (auto simp: resolving_def)
  have so: "slot_ok (pcbs st) s (sock_pool st s)" using ocp_ok_live [OF fl] .
  then have c: "is_conn (sock_pool st s)" using slot_ok_busy st(1) by auto
  then have t: "sk_tpcb (sock_pool st s) = Null" using so st(1) by (simp add: slot_ok_simps)
  have p: "\<not> pending st s" using ocp_okD(7) [OF fl(1), of s] c st(1) by (auto simp: ev_ready_def is_conn_def)
  have X: "ocp_ok {s} fl (restr K (waiter st)) st" by (rule ocp_ok_open [OF fl st(2)]) (simp add: t)
  show thesis by (rule that [OF fl c p st(2,3) t so X])
qed

lemma keeps_resolved: "dns_wf st \<Longrightarrow> res_safe (keeps (restr K (waiter st)) st) r \<Longrightarrow> res_safe (resolved K) r"
  by (erule res_safe_mono) (simp add: keeps_def resolved_def)

lemma finish_resolution_safe:
  assumes "resolving K s st"
  shows "res_safe (resolved K) (finish_resolution e ip s st)"
proof -
  have st: "sk_state (sock_pool st s) \<noteq> STATE_DEAD" using assms by (simp add: resolving_def)
  from assms obtain fl where fl: "ocp_ok {} fl (restr K (waiter st)) st" "s < 1024" "s \<notin> set fl" "is_conn (sock_pool st s)"
    "\<not> pending st s" "\<not> waited (restr K (waiter st)) s" "dns_wf st"
    "slot_ok (pcbs st) s (sock_pool st s)" "ocp_ok {s} fl (restr K (waiter st)) st"
    by (rule resolving_conn)
  show ?thesis
  proof (rule keeps_resolved [OF fl(7)], cases ip)
    case None
    then show "res_safe (keeps (restr K (waiter st)) st) (finish_resolution e ip s st)"
      using st sock_del_safe [OF fl(1-4,6)] socks_reply_safe [OF fl(1-4,6)] by (simp add: finish_resolution_def)
  next
    case (Some a)
    then show "res_safe (keeps (restr K (waiter st)) st) (finish_resolution e ip s st)"
      using st assms start_connection_X [OF fl(9,5,4)] fl(4,8) by (auto simp: finish_resolution_def slot_ok_simps resolving_def)
  qed
qed

lemma dns_more_eq:
  assumes "dns.more (st' :: ocp) = dns.more st"
  shows "sock_pool st' = sock_pool st" "sock_free_list st' = sock_free_list st" "sock_used st' = sock_used st"
    "pending st' = pending st" "pcbs st' = pcbs st" "next_pcb st' = next_pcb st" "dns_domain st' = dns_domain st"
    "trace st' = trace st"
  using assms by - (cases st, cases st', simp)+

lemma ocp_ok_frame: "ocp_ok X fl w st \<Longrightarrow> dns.more st' = dns.more st \<Longrightarrow> ocp_ok X fl w st'"
  by (erule ocp_ok_view) (erule dns_more_eq)+

lemma ocp_ok_forget:
  assumes "ocp_ok X fl w st" and "\<And>i. w' i = None \<or> w' i = w i"
  shows "ocp_ok X fl w' st"
proof -
  have w: "w' i = Some x \<Longrightarrow> w i = Some x" for i x using assms(2) [of i] by auto
  note d = ocp_okD [OF assms(1)]
  show ?thesis
  proof (rule ocp_okI)
    show "\<exists>s. a = Some s \<and> s < 1024 \<and> s \<notin> set fl \<and> s \<notin> X \<and> sk_state (sock_pool st s) = STATE_DNS"
      if "w' i = Some (f, a)" for i f a using d(10) [OF w [OF that]] .
    show "i = j" if "w' i = Some (f, a)" "w' j = Some (g, a)" for i j f g a
      using d(11) [OF w [OF that(1)] w [OF that(2)]] .
  qed (fact d | rule d; assumption)+
qed

lemma resolving_upd:
  assumes "resolving K s st" and "\<And>k. sk_ev (f k) = sk_ev k" "\<And>k. sk_state (f k) = sk_state k" "\<And>k. sk_tpcb (f k) = sk_tpcb k"
    "\<And>k. length (sk_sockbuf k) = 2048 \<Longrightarrow> length (sk_sockbuf (f k)) = 2048" "\<And>k. sk_sock_pos (f k) = sk_sock_pos k"
    "\<And>k. sk_lwip_blocked (f k) = sk_lwip_blocked k"
  shows "resolving K s (upd_sock s f st)"
proof -
  from assms(1) obtain fl where fl: "s < 1024" "s \<notin> set fl" "is_conn (sock_pool st s)" "\<not> pending st s"
    "slot_ok (pcbs st) s (sock_pool st s)" "ocp_ok {s} fl (restr K (waiter st)) st"
    by (rule resolving_conn)
  have "is_conn (f (sock_pool st s))" using fl(3) assms(2) by (simp add: is_conn_def)
  then have "slot_ok (pcbs st) s (f (sock_pool st s))" using fl(3,5) assms(2-) by (auto simp: slot_ok_simps split: if_splits)
  then have "ocp_ok {} fl (restr K (waiter st)) (upd_sock s f st)"
    by (intro ocp_ok_close [of s]) (use fl in auto)
  then show ?thesis using assms(1,3) fl(1,2) by (auto simp: resolving_def)
qed

lemma resolving_act [simp]: "resolving K s (act a st) = resolving K s st"
  by (simp add: resolving_def)

lemma length_put_fqdn: "length b = 2048 \<Longrightarrow> length (put_fqdn h d b) = 2048"
  by (simp add: put_fqdn_def)

text \<open>A query is under way: the slot waits, unless its entry is one that is being dropped.\<close>

lemma enqueued_resolved:
  assumes "resolving K s st" and "dns_wf st'" and "dns.more st' = dns.more st"
    and "waiter st' = (waiter st)(j := Some (f, Some s))"
  shows "resolved K st'"
proof -
  from assms(1) obtain fl where fl: "ocp_ok {} fl (restr K (waiter st)) st" "\<not> pending st s"
    "slot_ok (pcbs st) s (sock_pool st s)" "ocp_ok {s} fl (restr K (waiter st)) st"
    by (rule resolving_conn)
  have "ocp_ok {} fl (restr K (waiter st')) st"
  proof (cases "j \<in> K")
    case True
    then have "restr K (waiter st') = restr K (waiter st)" by (auto simp: assms(4) restr_def)
    then show ?thesis using fl(1) by simp
  next
    case False
    then have "restr K (waiter st') = (restr K (waiter st))(j := Some (f, Some s))"
      by (auto simp: assms(4) restr_def)
    then show ?thesis using ocp_ok_wait [OF fl(4,2,3)] assms(1) by (simp add: resolving_def)
  qed
  then show ?thesis using ocp_ok_frame [OF _ assms(3)] assms(2) by (auto simp: resolved_def ocp_inv_def)
qed

lemma connected_resolved:
  assumes "resolving K s st"
  shows "res_safe (resolved K) (start_connection e s a st)"
proof -
  from assms obtain fl where fl: "is_conn (sock_pool st s)" "\<not> pending st s" "dns_wf st"
    "slot_ok (pcbs st) s (sock_pool st s)" "ocp_ok {s} fl (restr K (waiter st)) st"
    by (rule resolving_conn)
  then show ?thesis
    using assms keeps_resolved [OF fl(3) start_connection_X [OF fl(5,2,1)]] by (auto simp: slot_ok_simps resolving_def)
qed

lemma enqueue_dns_req_safe:
  assumes "resolving K s st" and "domain = None \<or> (\<exists>c. hostname = Host_str c)"
    and now: "\<And>st1. resolving K s st1 \<Longrightarrow> dns_domain st1 = dns_domain st \<Longrightarrow> res_safe (resolved K) (found_now hostname st1)"
  shows "res_safe (resolved K) (enqueue_dns_req e s hostname domain found found_now st)"
proof -
  have rest: "res_safe (resolved K) (res_bind (dns_gethostbyname no_cb env (Some name) (Some found) (Some s) st1)
       (\<lambda>(err, addr, st2).
         if err = ERR_INPROGRESS then Ok st2
         else if err = ERR_OK then
           (case addr of
              Some a \<Rightarrow> start_connection e s a (upd_sock s (\<lambda>k. k\<lparr>sk_rhost := a\<rparr>) st2)
            | None \<Rightarrow> start_connection e s (sk_rhost (sock_pool st2 s)) st2)
         else found_now hostname (warn st2)))"
    if r: "resolving K s st1" "dns_domain st1 = dns_domain st" for st1 env name
  proof -
    have wf: "dns_wf st1" using r(1) by (simp add: resolving_def)
    have "res_safe (resolved K) (start_connection e s a (upd_sock s (\<lambda>k. k\<lparr>sk_rhost := a\<rparr>) st1))" for a
      by (rule connected_resolved, rule resolving_upd [OF r(1)]) auto
    moreover have "res_safe (resolved K) (found_now hostname (warn st1))"
      by (rule now) (use r in \<open>auto simp: warn_def\<close>)
    moreover have "resolved K st'" if "dns_wf st'" "dns.more st' = dns.more st1"
        "waiter st' = (waiter st1)(j := map_option (\<lambda>f. (f, Some s)) (Some found))" for st' j
      using enqueued_resolved [OF r(1) that(1,2), of j found] that(3) by simp
    ultimately show ?thesis
      using dns_gethostbyname_cases [OF wf, of no_cb env "Some name" "Some found" "Some s"]
      by (elim disjE exE conjE) (simp_all only: res_bind.simps prod.case if_False if_True option.case res_safe.simps
        err_t.distinct HOL.simp_thms)
  qed
  show ?thesis
  proof (cases domain)
    case None
    then show ?thesis using rest [OF assms(1)] by (simp add: enqueue_dns_req_def del: res_safe_bind)
  next
    case (Some d)
    then obtain c where h: "hostname = Host_str c" using assms(2) by auto
    show ?thesis
      unfolding h
      using rest [OF resolving_upd [OF assms(1), of "\<lambda>k. k\<lparr>sk_sockbuf := put_fqdn c d (sk_sockbuf k)\<rparr>"], unfolded h]
      by (simp add: Some enqueue_dns_req_def Let_def length_put_fqdn del: res_safe_bind)
  qed
qed

lemma retry_resolution_safe:
  assumes "resolving K s st" and "dns_domain st = None \<or> (\<exists>c. hostname = Host_str c)"
  shows "res_safe (resolved K) (retry_resolution e hostname ip s st)"
  using enqueue_dns_req_safe [OF assms, of "\<lambda>_. finish_resolution e None s"] finish_resolution_safe assms(1)
  by (auto simp: retry_resolution_def)

text \<open>
  Resolution may start for any slot that is not yet connected, waited for or armed. The name must
  not lie in the slot's own buffer when a domain would be appended to it.
\<close>

lemma start_resolution_safe:
  assumes "dns_wf st" and "ocp_ok {s} fl (waiter st) st" and "\<not> pending st s" and "is_conn (sock_pool st s)"
    and "length (sk_sockbuf (sock_pool st s)) = 2048" and "sk_sock_pos (sock_pool st s) \<le> 2048"
    and "sk_tpcb (sock_pool st s) = Null" and "\<not> sk_lwip_blocked (sock_pool st s)" and h: "dns_domain st = None \<or> (\<exists>c. hostname = Host_str c)"
  shows "res_safe (resolved {}) (start_resolution e s hostname st)"
proof -
  let ?st = "upd_sock s (\<lambda>k. k\<lparr>sk_state := STATE_DNS\<rparr>) st"
  have "ocp_ok {} fl (waiter st) ?st"
    by (rule ocp_ok_close [of s]) (use assms in \<open>auto simp: slot_ok_simps is_conn_def\<close>)
  then have r: "resolving {} s ?st"
    using ocp_ok_X [OF assms(2)] assms(1) by (auto simp: resolving_def)
  have retry: "res_safe (resolved {}) (retry_resolution e hostname None s st1)"
    if "resolving {} s st1" "dns_domain st1 = dns_domain ?st" for st1
    by (rule retry_resolution_safe [OF that(1)]) (use that(2) h in simp)
  have "res_safe (resolved {}) (enqueue_dns_req e s hostname None Retry_resolution (\<lambda>h. retry_resolution e h None s) ?st)"
    by (rule enqueue_dns_req_safe [OF r]) (use retry in simp_all)
  moreover have "res_safe (resolved {})
      (enqueue_dns_req e s hostname (dns_domain ?st) Finish_resolution (\<lambda>_. finish_resolution e None s) ?st)"
    by (rule enqueue_dns_req_safe [OF r]) (use h finish_resolution_safe in simp_all)
  ultimately show ?thesis by (simp add: start_resolution_def Let_def)
qed

lemma found_cb_safe:
  assumes "resolving K s st"
  shows "res_safe (resolved K) (found_cb e f name addr (Some s) st)"
  using finish_resolution_safe [OF assms] retry_resolution_safe [OF assms]
  by (cases f) (auto simp: found_cb_def)

text \<open>The program is a client of the resolver as the resolver expects it.\<close>

interpretation ocp_dns: dns_client "found_cb e" ocp_inv for e
proof
  show "ocp_inv w st'" if "ocp_inv w st" "dns.more st' = dns.more st" for w st st'
    using that(1) ocp_ok_frame [OF _ that(2)] by (auto simp: ocp_inv_def)
  show "ocp_inv w' st" if "ocp_inv w st" "\<And>i. w' i = None \<or> w' i = w i" for w w' st
    using that ocp_ok_forget by (metis ocp_inv_def)
  fix st i f a and addr :: "ip_addr option" and name
  assume wf: "dns_wf st" and inv: "ocp_inv ((waiter st)(i := Some (f, a))) st" and addr: "addr = None \<or> waiter st i = None"
  then obtain fl where fl: "ocp_ok {} fl ((waiter st)(i := Some (f, a))) st" by (auto simp: ocp_inv_def)
  obtain s where s: "a = Some s" "s < 1024" "s \<notin> set fl" "sk_state (sock_pool st s) = STATE_DNS"
    using ocp_okD(10) [OF fl, of i f a] by auto
  have "\<not> waited ((waiter st)(i := None)) s"
  proof
    assume "waited ((waiter st)(i := None)) s"
    then obtain j g where "j \<noteq> i" "waiter st j = Some (g, a)" by (auto simp: waited_def s(1) split: if_splits)
    with ocp_okD(11) [OF fl, of i f a j g] show False by simp
  qed
  moreover have "ocp_ok {} fl ((waiter st)(i := None)) st" by (rule ocp_ok_forget [OF fl]) auto
  ultimately have r: "resolving {i} s st" using wf s by (auto simp: resolving_def)
  show "res_safe (\<lambda>st'. dns_wf st' \<and> ocp_inv (if addr = None then (waiter st')(i := None) else waiter st') st')
      (found_cb e f name addr a st)"
  proof (cases addr)
    case None
    then show ?thesis using found_cb_safe [OF r, of e f name addr] s(1) by (simp add: resolved_def [abs_def])
  next
    case (Some x)
    then have "(waiter st)(i := None) = waiter st" using addr by auto
    then have "resolving {} s st" using r by (simp add: resolving_def)
    then show ?thesis using Some found_cb_safe [of "{}" s st e f name addr] s(1) by (simp add: resolved_def [abs_def])
  qed
qed

text \<open>Every second, and for every DNS answer: no assertion fails in \<^verbatim>\<open>dns_tmr\<close>.\<close>

lemma cb_dns_tmr_safe: "client_ok ocp_inv st \<Longrightarrow> res_safe (client_ok ocp_inv) (cb_dns_tmr e st)"
  unfolding cb_dns_tmr_def by (rule ocp_dns.tmr_ok)

lemma dns_recv_keeps:
  "client_ok ocp_inv st \<Longrightarrow> chain_wf p \<Longrightarrow> p \<noteq> [] \<Longrightarrow> res_all (client_ok ocp_inv) (dns_recv (found_cb e) p st)"
  by (rule ocp_dns.recv_ok)

end
