(* ===== verification/Ocp_Handlers.thy ===== *)
theory Ocp_Handlers
  imports Ocp_Resolve Pbuf_Props
begin

text \<open>
  Every handler of the event loop keeps the invariant of the proxy. For all of them but
  \<^verbatim>\<open>connect_cb\<close> and the SOCKS requests discussed below, the lemmas also show that no wild or null
  pointer is followed and no assertion fails.
\<close>

text \<open>What the operating system promises: a read returns at most what was asked for.\<close>

definition env_ok :: "env \<Rightarrow> bool" where
  "env_ok e \<longleftrightarrow> (\<forall>h fd n d. en_read e h fd n = Some d \<longrightarrow> length d \<le> n) \<and> (\<forall>h. en_event_new e h)"

abbreviation good :: "ocp \<Rightarrow> bool" where
  "good \<equiv> client_ok ocp_inv"

lemma good_iff: "good st \<longleftrightarrow> dns_wf st \<and> (\<exists>fl. ocp_ok {} fl (waiter st) st)"
  by (simp add: client_ok_def ocp_inv_def)

lemma keeps_view: "dns_wf st' = dns_wf st \<Longrightarrow> waiter st' = waiter st \<Longrightarrow> keeps w st' = keeps w st"
  by (simp add: keeps_def fun_eq_iff)

lemma keeps_good: "dns_wf st \<Longrightarrow> res_safe (keeps (waiter st) st) r \<Longrightarrow> res_safe good r"
  by (erule res_safe_mono) (simp add: keeps_def client_ok_def)

lemma resolved_good: "res_safe (resolved {}) r \<Longrightarrow> res_safe good r"
  by (erule res_safe_mono) (simp add: resolved_def client_ok_def)

subsection \<open>Slots in use\<close>

lemma ocp_ok_upd:
  assumes ok: "ocp_ok {} fl w st" and s: "s < 1024" "s \<notin> set fl"
    and "slot_ok (pcbs st) s (f (sock_pool st s))"
    and "sk_tpcb (f (sock_pool st s)) = sk_tpcb (sock_pool st s)"
    and "sk_state (f (sock_pool st s)) = sk_state (sock_pool st s) \<or> \<not> waited w s"
    and "pending st s \<Longrightarrow> ev_ready (f (sock_pool st s))"
  shows "ocp_ok {} fl w (upd_sock s f st)"
proof -
  note d = ocp_okD [OF ok]
  show ?thesis
  proof (rule ocp_okI)
    show "slot_ok (pcbs (upd_sock s f st)) t (sock_pool (upd_sock s f st) t)" if "t < 1024" "t \<notin> set fl" for t
      using that d(6) [of t] assms(4) by (cases "t = s") auto
    show "t < 1024 \<and> t \<notin> set fl \<and> (t \<notin> {} \<longrightarrow> ev_ready (sock_pool (upd_sock s f st) t))"
      if "pending (upd_sock s f st) t" for t
      using that d(7) [of t] assms(7) by (cases "t = s") auto
    show "t < 1024 \<and> t \<notin> set fl \<and> t \<notin> {} \<and> sk_tpcb (sock_pool (upd_sock s f st) t) = Ptr p"
      if "pcbs (upd_sock s f st) p = Some b" "pc_arg b = Some t" for p b t
      using that d(9) [of p b t] assms(5) by auto
    show "\<exists>t. a = Some t \<and> t < 1024 \<and> t \<notin> set fl \<and> t \<notin> {} \<and> sk_state (sock_pool (upd_sock s f st) t) = STATE_DNS"
      if "w i = Some (g, a)" for i g a
      using d(10) [OF that] that assms(6) by (auto simp: waited_def)
  qed (use d(1-5,8,11) s in auto)
qed

lemma ocp_ok_arm:
  "ocp_ok {} fl w st \<Longrightarrow> s < 1024 \<Longrightarrow> s \<notin> set fl \<Longrightarrow> ev_ready (sock_pool st s) \<Longrightarrow>
     ocp_ok {} fl w (st\<lparr>pending := (pending st)(s := True)\<rparr>)"
  unfolding ocp_ok_def by simp

lemma event_add_safe:
  assumes "ocp_ok {} fl w st" and "s < 1024" "s \<notin> set fl" and "ev_ready (sock_pool st s)"
  shows "res_safe (keeps w st) (event_add s st)"
proof -
  obtain f where "sk_ev (sock_pool st s) = Ptr f" using assms(4) by (auto simp: ev_ready_def)
  moreover have "ocp_ok {} fl w (st\<lparr>pending := (pending st)(s := True)\<rparr>)" using assms by (rule ocp_ok_arm)
  ultimately show ?thesis by (auto simp: event_add_def intro: keepsI)
qed

text \<open>lwIP changes a block, or frees one that has no slot.\<close>

lemma slot_ok_mono:
  assumes "slot_ok pm t k"
    and *: "\<And>q c. pm q = Some c \<Longrightarrow> pc_arg c = Some t \<Longrightarrow> \<exists>b. pm' q = Some b \<and> pc_arg b = Some t"
  shows "slot_ok pm' t k"
proof (cases "is_conn k")
  case True
  then show ?thesis using assms(1) * by (fastforce simp: slot_ok_simps)
next
  case False
  then have "slot_ok pm' t k = slot_ok pm t k"
    by (auto simp: slot_ok_def is_conn_def split: ptr.split) (metis event_fn.exhaust)+
  with assms(1) show ?thesis by simp
qed

lemma ocp_ok_pcb:
  assumes ok: "ocp_ok {} fl w st" and p: "pcbs st p = Some b"
    and x: "x = None \<Longrightarrow> pc_arg b = None" "\<And>c. x = Some c \<Longrightarrow> pc_arg c = pc_arg b \<and> (pc_connected c \<longrightarrow> pc_connected b)"
  shows "ocp_ok {} fl w (st\<lparr>pcbs := (pcbs st)(p := x)\<rparr>)" (is "ocp_ok _ _ _ ?st")
proof -
  note d = ocp_okD [OF ok]
  have "slot_ok ((pcbs st)(p := x)) t k" if k: "slot_ok (pcbs st) t k" for t k
  proof -
    have "\<exists>b'. ((pcbs st)(p := x)) q = Some b' \<and> pc_arg b' = Some t" if "pcbs st q = Some c" "pc_arg c = Some t" for q c
    proof (cases x)
      case None
      then show ?thesis using that p x(1) by auto
    next
      case (Some y)
      then show ?thesis using that p x(2) [OF Some] by auto
    qed
    with k show ?thesis by (rule slot_ok_mono)
  qed
  note slot = this
  show ?thesis
  proof (rule ocp_okI)
    show "slot_ok (pcbs ?st) t (sock_pool ?st t)" if "t < 1024" "t \<notin> set fl" for t
      using slot d(6) [of t] that by simp
    show "q < next_pcb ?st \<and> (pc_connected c \<longrightarrow> pc_arg c \<noteq> None)" if "pcbs ?st q = Some c" for q c
      using that d(8) [of q c] d(8) [OF p] x(2) [of c] by (cases "q = p") auto
    show "t < 1024 \<and> t \<notin> set fl \<and> t \<notin> {} \<and> sk_tpcb (sock_pool ?st t) = Ptr q"
      if "pcbs ?st q = Some c" "pc_arg c = Some t" for q c t
      using that d(9) [of q c t] d(9) [OF p, of t] x(2) [of c] by (cases "q = p") auto
    show "t < 1024 \<and> t \<notin> set fl \<and> (t \<notin> {} \<longrightarrow> ev_ready (sock_pool ?st t))" if "pending ?st t" for t
      using that d(7) [of t] by simp
    show "\<exists>t. a = Some t \<and> t < 1024 \<and> t \<notin> set fl \<and> t \<notin> {} \<and> sk_state (sock_pool ?st t) = STATE_DNS"
      if "w i = Some (f, a)" for i f a
      using d(10) [OF that] by simp
  qed (use d(1-5,11) in auto)
qed

text \<open>A slot with a TCP block, found through its event or through the block.\<close>

lemma live_tpcb:
  assumes "ocp_ok {} fl w st" and "pcbs st p = Some b" and "pc_arg b = Some s"
  shows "s < 1024 \<and> s \<notin> set fl \<and> sk_tpcb (sock_pool st s) = Ptr p \<and> is_conn (sock_pool st s) \<and>
    sk_state (sock_pool st s) \<in> {STATE_CONNECTING, STATE_DATA} \<and> \<not> waited w s"
proof -
  have s: "s < 1024" "s \<notin> set fl" "sk_tpcb (sock_pool st s) = Ptr p" using ocp_okD(9) [OF assms] by auto
  with ocp_ok_tpcb [OF assms(1) s] show ?thesis by auto
qed

text \<open>An event fires: libevent disarms it and calls its function.\<close>

definition fired :: "nat \<Rightarrow> ocp \<Rightarrow> ocp" where
  "fired s st = st\<lparr>pending := (pending st)(s := False)\<rparr>"

lemma fired_simps [simp]:
  "sock_pool (fired s st) = sock_pool st" "pcbs (fired s st) = pcbs st" "waiter (fired s st) = waiter st"
  "dns_wf (fired s st) = dns_wf st" "trace (fired s st) = trace st" "\<not> pending (fired s st) s"
  "dns_domain (fired s st) = dns_domain st"
  by (simp_all add: fired_def)

lemma ocp_ok_fired: "ocp_ok X fl w st \<Longrightarrow> ocp_ok X fl w (fired s st)"
  unfolding ocp_ok_def fired_def by auto

lemma fired_good: "good st \<Longrightarrow> good (fired s st)"
  using ocp_ok_fired by (auto simp: good_iff) blast

lemma pending_slot:
  assumes "good st" and "pending st s"
  obtains fl where "ocp_ok {} fl (waiter st) (fired s st)" "dns_wf st" "s < 1024" "s \<notin> set fl" "ev_ready (sock_pool st s)"
    "slot_ok (pcbs st) s (sock_pool st s)"
proof -
  from assms(1) obtain fl where fl: "ocp_ok {} fl (waiter st) st" "dns_wf st" by (auto simp: good_iff)
  have "s < 1024" "s \<notin> set fl" "ev_ready (sock_pool st s)" using ocp_okD(7) [OF fl(1) assms(2)] by auto
  with that fl ocp_ok_fired ocp_ok_live [OF fl(1)] show thesis by blast
qed

subsection \<open>Relay\<close>

lemma local_data_cb_safe:
  assumes "env_ok e" and ok: "ocp_ok {} fl w st" and s: "s < 1024" "s \<notin> set fl"
    and st: "sk_state (sock_pool st s) = STATE_DATA" and np: "\<not> pending st s"
  shows "res_safe (keeps w st) (local_data_cb e s st)"
proof -
  have so: "slot_ok (pcbs st) s (sock_pool st s)" using ocp_ok_live [OF ok s] .
  then have c: "is_conn (sock_pool st s)" using slot_ok_busy st by auto
  obtain p b where p: "sk_tpcb (sock_pool st s) = Ptr p" "pcbs st p = Some b"
    using so c st by (auto simp: slot_ok_simps)
  have nw: "\<not> waited w s" using ocp_ok_tpcb [OF ok s p(1)] by simp
  have del: "res_safe (keeps w st) (ocp_sock_del s (act a st))" for a
    using sock_del_safe [of fl w "act a st" s] ok s c nw by simp
  have blocked: "keeps w st (upd_sock s (\<lambda>k. k\<lparr>sk_lwip_blocked := True\<rparr>) st)"
    by (rule keepsI [OF ocp_ok_upd [OF ok s]]) (use so c st np in \<open>auto simp: slot_ok_simps is_conn_def\<close>)
  have buf: "ocp_ok {} fl w (upd_sock s (\<lambda>k. k\<lparr>sk_sockbuf := buf_put 0 d (sk_sockbuf k)\<rparr>) st)" if "length d \<le> 2048" for d
    by (rule ocp_ok_upd [OF ok s]) (use so c st np that in \<open>auto simp: slot_ok_simps is_conn_def\<close>)
  have add: "res_safe (keeps w st) (event_add s st')"
    if "length d \<le> 2048" "sock_pool st' = sock_pool (upd_sock s (\<lambda>k. k\<lparr>sk_sockbuf := buf_put 0 d (sk_sockbuf k)\<rparr>) st)"
      "sock_free_list st' = sock_free_list st" "sock_used st' = sock_used st" "pending st' = pending st" "pcbs st' = pcbs st"
      "next_pcb st' = next_pcb st" "dns_wf st' = dns_wf st" "waiter st' = waiter st" for d st'
  proof -
    have "ocp_ok {} fl w st'" by (rule ocp_ok_view [OF buf [OF that(1)]]) (use that in auto)
    moreover have "ev_ready (sock_pool st' s)" using that(2) c st by (auto simp: ev_ready_def is_conn_def)
    ultimately show ?thesis using event_add_safe [of fl w st' s] s keeps_view [OF that(8,9)] by simp
  qed
  let ?n = "if pc_snd_buf b > 2048 then 2048 else pc_snd_buf b" and ?fd = "sk_fd (sock_pool st s)"
  show ?thesis
  proof (cases "?n = 0 \<or> pc_snd_queuelen b > 127 \<or> en_read e (trace st) ?fd ?n \<in> {None, Some []}")
    case True
    then show ?thesis using p blocked del by (auto simp: local_data_cb_def Let_def)
  next
    case False
    then obtain d where d: "en_read e (trace st) ?fd ?n = Some d" "d \<noteq> []" by auto
    have "length d \<le> ?n" using assms(1) d(1) unfolding env_ok_def by blast
    then have "length d \<le> 2048" by (simp split: if_splits)
    note add = add [OF this]
    show ?thesis using p False d(2) add
      by (simp add: local_data_cb_def d(1) Let_def warn_def)
  qed
qed

lemma sent_cb_safe:
  assumes ok: "ocp_ok {} fl w st" and p: "pcbs st p = Some b" "pc_arg b = ctx"
  shows "res_safe (\<lambda>(err, st'). err = ERR_OK \<and> keeps w st st') (sent_cb ctx st)"
proof (cases ctx)
  case None
  then show ?thesis using ok by (auto simp: sent_cb_def intro: keepsI)
next
  case (Some s)
  have s: "s < 1024" "s \<notin> set fl" "is_conn (sock_pool st s)" using live_tpcb [OF ok p(1)] p(2) Some by auto
  have so: "slot_ok (pcbs st) s (sock_pool st s)" using ocp_ok_live [OF ok s(1,2)] .
  let ?st = "upd_sock s (\<lambda>k. k\<lparr>sk_lwip_blocked := False\<rparr>) st"
  have "res_safe (keeps w st) (event_add s ?st)" if "sk_lwip_blocked (sock_pool st s)"
  proof -
    have st: "sk_state (sock_pool st s) = STATE_DATA" using so that s(3) by (simp add: slot_ok_simps)
    have "ocp_ok {} fl w ?st"
      by (rule ocp_ok_upd [OF ok s(1,2)])
        (use so s(3) st in \<open>auto simp: slot_ok_simps is_conn_def ev_ready_def\<close>)
    from event_add_safe [OF this s(1,2)] show ?thesis using st s(3) by (auto simp: is_conn_def ev_ready_def)
  qed
  then show ?thesis using Some ok
    by (auto simp: sent_cb_def intro: keepsI elim: res_safe_mono)
qed

lemma recv_loop_safe:
  assumes "ocp_ok {} fl w st" and "s < 1024" "s \<notin> set fl" "is_conn (sock_pool st s)" "\<not> waited w s"
  shows "res_safe (\<lambda>(r, st'). keeps w st st' \<and>
      (r = None \<longrightarrow> ocp_ok {} fl w st' \<and> is_conn (sock_pool st' s))) (recv_loop e s tp q off st)"
  using assms
proof (induction e s tp q off st rule: recv_loop.induct)
  case (1 e s tp off st)
  then show ?case by (auto intro: keepsI)
next
  case (2 e s tp p ps off st)
  define try_len data fd wlen where
    "try_len = pb_len p - off" and "data = take try_len (drop off (pb_payload p))" and
    "fd = sk_fd (sock_pool st s)" and "wlen = en_write e (trace st) fd data"
  define st1 where "st1 = act (A_write fd data wlen) st"
  define st3 where
    "st3 = act (A_tcp_recved tp (nat wlen)) (upd_sock s (\<lambda>k. k\<lparr>sk_done_len := sk_done_len k + nat wlen\<rparr>) st1)"
  have so: "slot_ok (pcbs st) s (sock_pool st s)" using ocp_ok_live 2(2-4) .
  have ok3: "ocp_ok {} fl w st3" unfolding st3_def st1_def ocp_ok_act
    by (rule ocp_ok_upd) (use 2(2-6) so ocp_okD(7) [OF 2(2)] in \<open>auto simp: slot_ok_simps is_conn_def ev_ready_def\<close>)
  moreover have "keeps w st st3" by (rule keepsI [OF ok3]) (simp_all add: st3_def st1_def)
  moreover have "is_conn (sock_pool st3 s)" using 2(5) by (simp add: st3_def st1_def is_conn_def)
  moreover have "keeps w st3 = keeps w st" by (simp add: st3_def st1_def)
  moreover have "res_safe (keeps w st) (ocp_sock_del s st1)"
    using sock_del_safe [of fl w st1 s] 2(2-6) by (simp add: st1_def)
  ultimately show ?case
    using 2(1) [OF try_len_def data_def fd_def wlen_def st1_def _ refl st3_def [unfolded act_simps]] 2(2-6)
    by (auto simp: Let_def simp flip: try_len_def data_def fd_def wlen_def st1_def st3_def
        elim: res_safe_mono)
qed

lemma recv_cb_safe:
  assumes ok: "ocp_ok {} fl w st" and p: "pcbs st tp = Some b" "pc_arg b = ctx" and c: "chain_wf c"
  shows "res_safe (\<lambda>(err, st'). keeps w st st') (recv_cb e ctx tp c st)"
proof (cases ctx)
  case None
  then show ?thesis using ok by (auto simp: recv_cb_def intro: keepsI)
next
  case (Some s)
  have s: "s < 1024" "s \<notin> set fl" "is_conn (sock_pool st s)" "\<not> waited w s"
    using live_tpcb [OF ok p(1)] p(2) Some by auto
  have fin: "keeps w st (upd_sock s (\<lambda>k. k\<lparr>sk_done_len := 0\<rparr>) st')"
    if "keeps w st st'" "ocp_ok {} fl w st'" "is_conn (sock_pool st' s)" for st'
  proof -
    have "ocp_ok {} fl w (upd_sock s (\<lambda>k. k\<lparr>sk_done_len := 0\<rparr>) st')"
      by (rule ocp_ok_upd [OF that(2) s(1,2)])
        (use ocp_ok_live [OF that(2) s(1,2)] ocp_okD(7) [OF that(2), of s] that(3)
          in \<open>auto simp: slot_ok_simps is_conn_def ev_ready_def\<close>)
    then show ?thesis by (rule keepsI) (use that(1) in \<open>auto simp: keeps_def\<close>)
  qed
  show ?thesis
  proof (cases "c = []")
    case True
    then show ?thesis using Some sock_del_safe [OF ok s] by (auto simp: recv_cb_def elim: res_safe_mono)
  next
    case False
    then obtain r where r: "pbuf_free c = Ok r" using pbuf_free_ok c by blast
    obtain q off where q: "recv_skip c (sk_done_len (sock_pool st s)) = (q, off)" by force
    show ?thesis using False Some r
      by (auto simp: recv_cb_def q intro!: res_safe_mono [OF recv_loop_safe [OF ok s]] fin split: option.split)
  qed
qed

text \<open>lwIP reports an error after it has freed the block.\<close>

lemma tcp_err_cb_safe:
  assumes ok: "ocp_ok {} fl w st" and p: "pcbs st p = Some b"
  shows "res_safe (keeps w st) (tcp_err_cb e (pc_arg b) (st\<lparr>pcbs := (pcbs st)(p := None)\<rparr>))"
    (is "res_safe _ (tcp_err_cb _ _ ?st)")
proof (cases "pc_arg b")
  case None
  have "ocp_ok {} fl w ?st" by (rule ocp_ok_pcb [OF ok p]) (simp_all add: None)
  then show ?thesis using None by (auto simp: tcp_err_cb_def intro: keepsI)
next
  case (Some s)
  have s: "s < 1024" "s \<notin> set fl" "sk_tpcb (sock_pool st s) = Ptr p" "is_conn (sock_pool st s)"
    "sk_state (sock_pool st s) \<noteq> STATE_DNS"
    using live_tpcb [OF ok p Some] by auto
  obtain f where f: "sk_ev (sock_pool st s) = Ptr f" using is_conn_ev [OF s(4)] by auto
  have ok1: "ocp_ok {s} fl w (upd_sock s (\<lambda>k. k\<lparr>sk_tpcb := Null\<rparr>) ?st)"
    unfolding ocp_ok_upd_X by (rule ocp_ok_detach [OF ok s(1-3)]) simp
  have del: "res_safe (keeps w st) (ocp_sock_del s st1)"
    if "st1 = upd_sock s (\<lambda>k. k\<lparr>sk_tpcb := Null\<rparr>) ?st \<or> (\<exists>a. st1 = act a (upd_sock s (\<lambda>k. k\<lparr>sk_tpcb := Null\<rparr>) ?st))" for st1
  proof -
    have "keeps w st1 = keeps w st" by (rule keeps_view) (use that in auto)
    moreover have "ocp_ok {s} fl w st1" using that ok1 by auto
    ultimately show ?thesis using sock_del_X [of s fl w st1 f] that f s(5) by auto
  qed
  show ?thesis using Some del by (auto simp: tcp_err_cb_def socks_reply_def Let_def)
qed

text \<open>The copy loop of \<^verbatim>\<open>lwip_data_cb\<close> does what \<^verbatim>\<open>pbuf_take\<close> does.\<close>

lemma lwip_fill_take: "length data \<le> chain_tot c \<Longrightarrow> chain_wf c \<Longrightarrow> lwip_fill c data = pbuf_take_loop c data"
proof (induction c data rule: lwip_fill.induct)
  case (3 q qs x xs)
  have "length (drop (min (pb_len q) (length (x # xs))) (x # xs)) \<le> chain_tot qs" using 3(2,3) by auto
  moreover have "(if pb_len q < length (x # xs) then pb_len q else length (x # xs)) = min (pb_len q) (length (x # xs))"
    by (simp add: min_def)
  ultimately show ?case using 3(1) [OF refl] 3(3)
    by (simp add: pbuf_take_loop_Cons Let_def del: length_Cons drop_Suc_Cons)
qed auto

lemma lwip_data_cb_safe:
  assumes "env_ok e" and ok: "ocp_ok {} fl w st" and s: "s < 1024" "s \<notin> set fl" "sk_ev (sock_pool st s) = Ptr Lwip_data_cb"
  shows "res_safe (keeps w st) (lwip_data_cb e s st)"
proof -
  have so: "slot_ok (pcbs st) s (sock_pool st s)" using ocp_ok_live [OF ok s(1,2)] .
  define r where "r = en_read e (trace st) (sk_fd (sock_pool st s)) 2048"
  define d where "d = (case r of Some d \<Rightarrow> d | None \<Rightarrow> [])"
  define len where "len = (case r of Some d \<Rightarrow> length d mod 65536 | None \<Rightarrow> 65535)"
  have "length x \<le> 2048" if "r = Some x" for x using assms(1) that unfolding env_ok_def r_def by blast
  then have d: "length d \<le> 2048" "length d \<le> len" "len < 65536"
    by (force simp: d_def len_def split: option.split)+
  define st2 where "st2 = upd_sock s (\<lambda>k. k\<lparr>sk_sockbuf := buf_put 0 d (sk_sockbuf k)\<rparr>) (act (A_read (sk_fd (sock_pool st s)) 2048 r) st)"
  define st3 where "st3 = (if d = [] then vpn_conn_down st2 else st2)"
  have "ocp_ok {} fl w st2" unfolding st2_def
    by (rule ocp_ok_upd) (use ok s so d(1) in \<open>auto simp: slot_ok_def ev_ready_def\<close>)
  then have ok3: "ocp_ok {} fl w st3" by (simp add: st3_def vpn_conn_down_def)
  have st3: "dns_wf st3 = dns_wf st" "waiter st3 = waiter st" "ev_ready (sock_pool st3 s)"
    using s(3) by (simp_all add: st3_def st2_def vpn_conn_down_def ev_ready_def)
  have add: "res_safe (keeps w st) (event_add s st')"
    if "st' = warn st3 \<or> (\<exists>a. st' = act a (st3\<lparr>link_recv := link_recv st3 + 1\<rparr>))" for st'
  proof -
    have "ocp_ok {} fl w st'" by (rule ocp_ok_view [OF ok3]) (use that in \<open>auto simp: warn_def\<close>)
    moreover have "keeps w st' = keeps w st"
      by (rule keeps_view) (use that st3 in \<open>auto simp: warn_def\<close>)
    moreover have "ev_ready (sock_pool st' s)" using that st3 by (auto simp: warn_def)
    ultimately show ?thesis using event_add_safe [of fl w st' s] s(1,2) by simp
  qed
  have nf: "sk_netif (sock_pool st3 s) = Ptr ()" "take (length d) (sk_sockbuf (sock_pool st3 s)) = d"
    using so s(3) d(1) by (auto simp: slot_ok_def st3_def st2_def vpn_conn_down_def buf_put_def)
  have eq: "lwip_data_cb e s st =
    res_bind (pbuf_alloc (en_alloc e (trace st3)) PBUF_RAW len PBUF_POOL) (\<lambda>p.
         res_bind
           (case p of
              None \<Rightarrow> Ok (warn st3)
            | Some c \<Rightarrow>
                res_bind (lwip_fill c d) (\<lambda>c'.
                  Ok (act (A_input (chain_data c')) (st3\<lparr>link_recv := link_recv st3 + 1\<rparr>)))) (event_add s))"
    unfolding lwip_data_cb_def Let_def r_def [symmetric] d_def [symmetric] len_def [symmetric]
      st2_def [symmetric] st3_def [symmetric] nf ptr.case by (rule refl)
  consider "pbuf_alloc (en_alloc e (trace st3)) PBUF_RAW len PBUF_POOL = Ok None"
    | c where "pbuf_alloc (en_alloc e (trace st3)) PBUF_RAW len PBUF_POOL = Ok (Some c)" "chain_wf c" "chain_tot c = len"
    using pbuf_alloc_ok [OF d(3), of PBUF_POOL "en_alloc e (trace st3)" PBUF_RAW] by auto
  then show ?thesis
  proof cases
    case 1
    then show ?thesis using add by (simp add: eq)
  next
    case (2 c)
    then obtain c' where "lwip_fill c d = Ok c'"
      using lwip_fill_take [of d c] pbuf_take_loop_ok [of c d] d(2) by auto
    then show ?thesis using 2(1) by (auto simp: eq intro!: add)
  qed
qed

subsection \<open>New connections\<close>

text \<open>The state after the head of the free list was taken.\<close>

definition taken :: "nat \<Rightarrow> ocp \<Rightarrow> ocp" where
  "taken s st = (upd_sock s (\<lambda>_. zero_sock\<lparr>sk_next := sock_bind_list st\<rparr>)
     (st\<lparr>sock_free_list := sk_next (sock_pool st s), sock_used := sock_used st + 1,
         sock_max := (if sock_used st + 1 > sock_max st then sock_used st + 1 else sock_max st)\<rparr>))
     \<lparr>sock_bind_list := Some s\<rparr>"

lemma ocp_sock_new_taken:
  "sock_free_list st = Some s \<Longrightarrow>
     ocp_sock_new e fd cb flags st =
       (if fd < 0 then Ok (Some s, taken s st)
        else
          let ok = en_event_new e (trace st);
              st1 = upd_sock s (\<lambda>k. k\<lparr>sk_fd := fd, sk_ev := (if ok then Ptr cb else Null)\<rparr>) (act (A_event_new ok) (taken s st))
          in if flags AND FL_ACTIVATE \<noteq> 0
             then res_bind (event_add s st1) (\<lambda>st2. Ok (Some s, st2)) else Ok (Some s, st1))"
  by (simp add: ocp_sock_new_def taken_def Let_def upd_sock_def act_def)

lemma taken_simps [simp]:
  "sock_pool (taken s st) = (sock_pool st)(s := zero_sock\<lparr>sk_next := sock_bind_list st\<rparr>)"
  "pending (taken s st) = pending st" "pcbs (taken s st) = pcbs st" "trace (taken s st) = trace st"
  "dns_wf (taken s st) = dns_wf st" "waiter (taken s st) = waiter st" "dns_domain (taken s st) = dns_domain st"
  "sock_bind_list (taken s st) = Some s" "dns_domain (taken s st) = dns_domain st"
  by (simp_all add: taken_def)

lemma taken_ok:
  assumes "ocp_ok {} (s # fl) w st"
  shows "sock_free_list st = Some s" and "ocp_ok {s} fl w (taken s st)" and "\<not> pending st s"
proof -
  show "sock_free_list st = Some s" "\<not> pending st s" using ocp_okD(1) [OF assms] ocp_okD(7) [OF assms, of s] by auto
  show "ocp_ok {s} fl w (taken s st)"
    by (rule ocp_ok_view [OF ocp_ok_alloc [OF assms, of "\<lambda>_. sock_pool (taken s st) s"]]) (simp_all add: taken_def)
qed

lemma ocp_sock_new_ok:
  assumes "env_ok e" and ok: "ocp_ok {} fl w st" and fd: "0 \<le> fd"
  obtains "fl = []" "ocp_sock_new e fd cb 0 st = Ok (None, st)"
  | s fl' st' where "fl = s # fl'" "ocp_sock_new e fd cb 0 st = Ok (Some s, st')" "ocp_ok {s} fl' w st'"
    "sock_pool st' = (sock_pool st)(s := zero_sock\<lparr>sk_next := sock_bind_list st, sk_fd := fd, sk_ev := Ptr cb\<rparr>)"
    "\<not> pending st' s" "dns_wf st' = dns_wf st" "waiter st' = waiter st" "dns_domain st' = dns_domain st"
    "pending st' = pending st"
proof (cases fl)
  case Nil
  then show ?thesis using that(1) ok by (auto simp: ocp_ok_def ocp_sock_new_def)
next
  case (Cons s fl')
  note t = taken_ok [OF ok [unfolded Cons]]
  let ?st = "upd_sock s (\<lambda>k. k\<lparr>sk_fd := fd, sk_ev := Ptr cb\<rparr>) (act (A_event_new True) (taken s st))"
  have "ocp_sock_new e fd cb 0 st = Ok (Some s, ?st)"
    using assms(1) fd by (simp add: ocp_sock_new_taken [OF t(1)] env_ok_def Let_def)
  then show ?thesis using that(2) [OF Cons] t(2,3) by simp
qed

lemma new_conn_cb_safe:
  assumes "env_ok e" and wf: "dns_wf st" and ok: "ocp_ok {} fl (waiter st) st" and "0 \<le> fd"
    and l: "l < 1024" "l \<notin> set fl" "sk_ev (sock_pool st l) = Null" "is_listener (sock_pool st l)"
  shows "res_safe good (new_conn_cb e l fd st)"
  using assms(1) ok assms(4)
proof (cases rule: ocp_sock_new_ok [where cb = "if sk_conn_type (sock_pool st l) = 0 then Local_data_cb else Socks_cmd_cb"])
  case 1
  then show ?thesis using ok wf by (auto simp: new_conn_cb_def warn_def good_iff)
next
  case (2 s fl' st')
  have so: "slot_ok (pcbs st) l (sock_pool st l)" using ocp_ok_live [OF ok l(1,2)] .
  have ls: "l \<noteq> s" using l(2) 2(1) by auto
  define st2 where "st2 = upd_sock s (\<lambda>k. k\<lparr>sk_conn_type := sk_conn_type (sock_pool st l),
    sk_rport := sk_rport (sock_pool st l)\<rparr>) st'"
  have ok2: "ocp_ok {s} fl' (waiter st) st2" using 2(3) by (simp add: st2_def)
  have z: "length (sk_sockbuf zero_sock) = 2048" "sk_tpcb zero_sock = Null" "\<not> sk_lwip_blocked zero_sock"
    "sk_sock_pos zero_sock = 0" by (simp_all add: zero_sock_def)
  show ?thesis
  proof (cases "sk_conn_type (sock_pool st l) = 0")
    case True
    obtain h where h: "sk_rhost_name (sock_pool st l) = Ptr h" using so l(3,4) True by (auto simp: slot_ok_def)
    have "res_safe (resolved {}) (start_resolution e s (Host_str h) st2)"
      by (rule start_resolution_safe [where fl = fl'])
        (use ok2 True 2(4-) wf z in \<open>auto simp: st2_def is_conn_def\<close>)
    from resolved_good [OF this] show ?thesis
      using 2(2,4) True h ls by (simp add: new_conn_cb_def Let_def st2_def)
  next
    case False
    let ?st3 = "upd_sock s (\<lambda>k. k\<lparr>sk_state := STATE_SOCKS_AUTH\<rparr>) st2"
    have "res_safe (keeps (waiter st) ?st3) (event_add s ?st3)"
      by (rule event_add_X [where fl = fl'])
        (use ok2 False 2(4) z in \<open>auto simp: st2_def slot_ok_simps is_conn_def ev_ready_def\<close>)
    then have "res_safe good (event_add s ?st3)"
      by (intro keeps_good [of ?st3]) (use 2(6,7) wf in \<open>auto simp: st2_def\<close>)
    then show ?thesis using 2(2,4) False ls by (simp add: new_conn_cb_def Let_def st2_def)
  qed
qed

subsection \<open>Connection setup\<close>

text \<open>
  A positive SOCKS reply that cannot be written completely deletes the slot, and \<^verbatim>\<open>connect_cb\<close> goes on
  with it. In every other case the connection is ready for data.
\<close>

lemma connect_cb_cases:
  assumes ok: "ocp_ok {} fl w st" and p: "pcbs st p = Some b" "pc_arg b = Some s"
  shows "if sk_conn_type (sock_pool st s) = CONN_TYPE_SOCKS \<and>
            en_write e (trace st) (sk_fd (sock_pool st s)) (socks_reply_bytes 0 (Some b)) \<noteq> 10
         then connect_cb e (Some s) p st = Stop Fault
         else res_safe (\<lambda>(err, st'). err = ERR_OK \<and> keeps w st st') (connect_cb e (Some s) p st)"
proof -
  have s: "s < 1024" "s \<notin> set fl" "sk_tpcb (sock_pool st s) = Ptr p" "is_conn (sock_pool st s)"
    "sk_state (sock_pool st s) \<noteq> STATE_DNS" "\<not> waited w s" using live_tpcb [OF ok p] by auto
  obtain f where f: "sk_ev (sock_pool st s) = Ptr f" "f \<noteq> Lwip_data_cb" using is_conn_ev [OF s(4)] by auto
  have so: "slot_ok (pcbs st) s (sock_pool st s)" using ocp_ok_live [OF ok s(1,2)] .
  let ?w = "\<lambda>n. A_write (sk_fd (sock_pool st s)) (socks_reply_bytes 0 (Some b)) n"
  have del: "ocp_sock_del s (act a st) = Ok st1 \<Longrightarrow> sk_ev (sock_pool st1 s) = Wild" for a st1
    using s(3,5) p f by (auto simp: ocp_sock_del_def Let_def tcp_arg_def upd_pcb_def tcp_close_def event_free_def poison_sock_def split: if_splits)
  have fine: "res_safe (\<lambda>(err, st'). err = ERR_OK \<and> keeps w st st')
      (res_bind (event_add s (upd_sock s (\<lambda>k. k\<lparr>sk_state := STATE_DATA\<rparr>) st1)) (\<lambda>st2.
       res_bind (upd_pcb p (\<lambda>b. b\<lparr>pc_recv := True, pc_sent := True\<rparr>) st2) (\<lambda>st3. Ok (ERR_OK, st3))))"
    if st1: "st1 = st \<or> (\<exists>a. st1 = act a st)" for st1
  proof -
    let ?st = "upd_sock s (\<lambda>k. k\<lparr>sk_state := STATE_DATA\<rparr>) st1"
    have "ocp_ok {} fl w ?st"
      by (rule ocp_ok_upd) (use st1 ok s f so p in \<open>auto simp: slot_ok_simps is_conn_def ev_ready_def\<close>)
    from ocp_ok_arm [OF this s(1,2)] have 1: "ocp_ok {} fl w (?st\<lparr>pending := (pending st1)(s := True)\<rparr>)"
      using s(4) st1 by (auto simp: ev_ready_def is_conn_def)
    show ?thesis
      using ocp_ok_pcb [OF 1, of p b "Some (b\<lparr>pc_recv := True, pc_sent := True\<rparr>)"] st1 f p
      by (auto simp: event_add_def upd_pcb_def intro!: keepsI)
  qed
  have bad: "res_safe (keeps w st) (ocp_sock_del s (act a st))" for a
    using sock_del_safe [of fl w "act a st" s] ok s by simp
  show ?thesis
  proof (cases "sk_conn_type (sock_pool st s) = CONN_TYPE_SOCKS \<and>
            en_write e (trace st) (sk_fd (sock_pool st s)) (socks_reply_bytes 0 (Some b)) \<noteq> 10")
    case True
    let ?a = "?w (en_write e (trace st) (sk_fd (sock_pool st s)) (socks_reply_bytes 0 (Some b)))"
    obtain st1 where st1: "ocp_sock_del s (act ?a st) = Ok st1"
      using s(3,5) p f by (cases "pc_connected b") (auto simp: ocp_sock_del_def Let_def tcp_arg_def upd_pcb_def tcp_close_def event_free_def split: if_splits)
    with True s(3) p del [OF st1] show ?thesis
      by (simp add: connect_cb_def socks_reply_def Let_def event_add_def)
  next
    case False
    then show ?thesis using s(3) p by (auto simp: connect_cb_def socks_reply_def Let_def simp del: res_safe_bind intro!: fine)
  qed
qed

subsection \<open>SOCKS requests\<close>

lemma enqueue_dns_req_all:
  assumes "resolving K s st"
    and now: "\<And>st1. resolving K s st1 \<Longrightarrow> res_all (resolved K) (found_now hostname st1)"
  shows "res_all (resolved K) (enqueue_dns_req e s hostname domain found found_now st)"
proof (cases "domain = None \<or> (\<exists>c. hostname = Host_str c)")
  case True
  define now' where "now' h st1 = (case found_now h st1 of Ok x \<Rightarrow> Ok x | Stop _ \<Rightarrow> Stop Die)" for h st1
  have "res_safe (resolved K) (now' hostname st1)" if "resolving K s st1" for st1
    using now [OF that] by (cases "found_now hostname st1") (simp_all add: now'_def)
  then have "res_safe (resolved K) (enqueue_dns_req e s hostname domain found now' st)"
    by (intro enqueue_dns_req_safe [OF assms(1) True]) auto
  then have "res_all (resolved K) (enqueue_dns_req e s hostname domain found now' st)" by (rule res_safe_all)
  moreover have "res_all P (now' h st1) = res_all P (found_now h st1)" for P h st1
    by (simp add: now'_def split: res.split)
  ultimately show ?thesis unfolding enqueue_dns_req_def
    by (simp add: if_distrib [of "res_all (resolved K)"] split_def cong: if_cong)
next
  case False
  then show ?thesis by (cases hostname) (auto simp: enqueue_dns_req_def)
qed

lemma start_resolution_all:
  assumes "dns_wf st" and "ocp_ok {s} fl (waiter st) st" and "\<not> pending st s" and "is_conn (sock_pool st s)"
    and "length (sk_sockbuf (sock_pool st s)) = 2048" and "sk_sock_pos (sock_pool st s) \<le> 2048"
    and "sk_tpcb (sock_pool st s) = Null" and "\<not> sk_lwip_blocked (sock_pool st s)"
  shows "res_all good (start_resolution e s hostname st)"
proof -
  let ?st = "upd_sock s (\<lambda>k. k\<lparr>sk_state := STATE_DNS\<rparr>) st"
  have "ocp_ok {} fl (waiter st) ?st"
    by (rule ocp_ok_close [of s]) (use assms in \<open>auto simp: slot_ok_simps is_conn_def\<close>)
  then have r: "resolving {} s ?st"
    using ocp_ok_X [OF assms(2)] assms(1) by (auto simp: resolving_def)
  have fin: "res_all (resolved {}) (finish_resolution e None s st1)" if "resolving {} s st1" for st1
    using finish_resolution_safe [OF that] by (rule res_safe_all)
  then have "res_all (resolved {}) (retry_resolution e h None s st1)" if "resolving {} s st1" for h st1
    using that enqueue_dns_req_all [OF that, of "\<lambda>_. finish_resolution e None s"] by (simp add: retry_resolution_def)
  with fin have "res_all (resolved {}) (start_resolution e s hostname st)"
    unfolding start_resolution_def Let_def by (auto intro!: enqueue_dns_req_all [OF r])
  then show ?thesis by (rule res_all_mono) (simp add: resolved_def client_ok_def)
qed


text \<open>A SOCKS slot between two events, opened for the handler.\<close>

lemma socks_slot:
  assumes ok: "ocp_ok {} fl w st" and s: "s < 1024" "s \<notin> set fl" "sk_ev (sock_pool st s) = Ptr Socks_cmd_cb"
    and st: "sk_state (sock_pool st s) \<in> {STATE_SOCKS_AUTH, STATE_SOCKS_CMD}"
  shows "ocp_ok {s} fl w st \<and> sk_tpcb (sock_pool st s) = Null \<and> \<not> sk_lwip_blocked (sock_pool st s) \<and>
    length (sk_sockbuf (sock_pool st s)) = 2048 \<and> sk_sock_pos (sock_pool st s) \<le> 2048 \<and> \<not> waited w s"
proof -
  have so: "slot_ok (pcbs st) s (sock_pool st s)" using ocp_ok_live [OF ok s(1,2)] .
  have nw: "\<not> waited w s" using ocp_okD(10) [OF ok] st by (fastforce simp: waited_def)
  have "ocp_ok {s} fl w st" by (rule ocp_ok_open [OF ok s(1,2) nw]) (use so s(3) st in \<open>auto simp: slot_ok_def\<close>)
  with so s(3) st nw show ?thesis by (auto simp: slot_ok_def)
qed

lemma socks_auth_safe:
  assumes "ocp_ok {} fl w st" and "s < 1024" "s \<notin> set fl" "sk_ev (sock_pool st s) = Ptr Socks_cmd_cb"
    and "sk_state (sock_pool st s) = STATE_SOCKS_AUTH"
  shows "res_safe (keeps w st) (socks_auth e s st)"
proof -
  have k: "ocp_ok {s} fl w st" "sk_tpcb (sock_pool st s) = Null" "\<not> sk_lwip_blocked (sock_pool st s)"
    "length (sk_sockbuf (sock_pool st s)) = 2048" "\<not> waited w s"
    using socks_slot [OF assms(1-4)] assms(5) by auto
  have "res_safe (keeps w st) (event_add s st)"
    by (rule event_add_safe [OF assms(1-3)]) (use assms(4,5) in \<open>auto simp: ev_ready_def\<close>)
  moreover have "res_safe (keeps w st) (ocp_sock_del s (act a st))" for a
    using sock_del_X [of s fl w "act a st"] k assms by simp
  moreover have "res_safe (keeps w st) (event_add s (upd_sock s (\<lambda>k. k\<lparr>sk_state := STATE_SOCKS_CMD, sk_sock_pos := 0\<rparr>) (act a st)))"
      (is "res_safe _ (event_add s ?st)") for a
  proof -
    have "res_safe (keeps w ?st) (event_add s ?st)"
      by (rule event_add_X [of s fl]) (use k assms in \<open>auto simp: slot_ok_simps is_conn_def ev_ready_def\<close>)
    then show ?thesis by simp
  qed
  ultimately show ?thesis by (simp add: socks_auth_def Let_def)
qed

text \<open>Only a name without a dot, or one that cannot be queued, meets the configured domain in the buffer.\<close>

lemma socks_cmd_good:
  assumes wf: "dns_wf st" and ok: "ocp_ok {} fl (waiter st) st"
    and s: "s < 1024" "s \<notin> set fl" "sk_ev (sock_pool st s) = Ptr Socks_cmd_cb" and np: "\<not> pending st s"
    and st: "sk_state (sock_pool st s) = STATE_SOCKS_CMD"
  shows "res_all good (socks_cmd e s st)" and "dns_domain st = None \<Longrightarrow> res_safe good (socks_cmd e s st)"
proof -
  have k: "ocp_ok {s} fl (waiter st) st" "sk_tpcb (sock_pool st s) = Null" "\<not> sk_lwip_blocked (sock_pool st s)"
    "length (sk_sockbuf (sock_pool st s)) = 2048" "sk_sock_pos (sock_pool st s) \<le> 2048" "\<not> waited (waiter st) s"
    using socks_slot [OF ok s] st by auto
  have add: "res_safe good (event_add s st)"
    by (rule keeps_good [OF wf event_add_safe [OF ok s(1,2)]]) (use s(3) st in \<open>auto simp: ev_ready_def\<close>)
  have reply: "res_safe good (socks_reply e s rep st)" if "rep \<noteq> 0" for rep
    by (rule keeps_good [OF wf socks_reply_safe [OF ok s(1,2)]]) (use s(3) k(6) that in \<open>auto simp: is_conn_def\<close>)
  have conn: "res_safe good (start_connection e s a (upd_sock s (\<lambda>k. k\<lparr>sk_rport := p\<rparr>) st))" for a p
    by (rule keeps_good [of "upd_sock s (\<lambda>k. k\<lparr>sk_rport := p\<rparr>) st"], simp add: wf, rule start_connection_X [of s fl])
      (use k s(3) np in \<open>auto simp: is_conn_def\<close>)
  note * = add reply conn add [THEN res_safe_all] reply [THEN res_safe_all] conn [THEN res_safe_all]
  let ?st = "\<lambda>p b. upd_sock s (\<lambda>k. k\<lparr>sk_rport := p, sk_sockbuf := b\<rparr>) st"
  have "res_all good (start_resolution e s h (?st p (list_update (sk_sockbuf (sock_pool st s)) i 0)))" for p i h
    by (rule start_resolution_all [of _ s fl]) (use k s(3) np wf in \<open>auto simp: is_conn_def\<close>)
  with * show "res_all good (socks_cmd e s st)" by (simp add: socks_cmd_def Let_def)
  have "res_safe (resolved {}) (start_resolution e s h (?st p (list_update (sk_sockbuf (sock_pool st s)) i 0)))"
    if "dns_domain st = None" for p i h
    by (rule start_resolution_safe [of _ s fl]) (use k s(3) np wf that in \<open>auto simp: is_conn_def\<close>)
  from resolved_good [OF this] * show "res_safe good (socks_cmd e s st)" if "dns_domain st = None"
    using that by (simp add: socks_cmd_def Let_def)
qed

lemma socks_cmd_cb_good:
  assumes "env_ok e" and wf: "dns_wf st" and ok: "ocp_ok {} fl (waiter st) st"
    and s: "s < 1024" "s \<notin> set fl" "sk_ev (sock_pool st s) = Ptr Socks_cmd_cb" and np: "\<not> pending st s"
    and st: "sk_state (sock_pool st s) \<in> {STATE_SOCKS_AUTH, STATE_SOCKS_CMD, STATE_DATA}"
  shows "res_all good (socks_cmd_cb e s st)" and "dns_domain st = None \<or> sk_state (sock_pool st s) \<noteq> STATE_SOCKS_CMD \<Longrightarrow>
    res_safe good (socks_cmd_cb e s st)"
proof -
  let ?n = "2048 - sk_sock_pos (sock_pool st s)" and ?fd = "sk_fd (sock_pool st s)"
  define r where "r = en_read e (trace st) ?fd ?n"
  define st2 where "st2 d = upd_sock s (\<lambda>k. k\<lparr>sk_sockbuf := buf_put (sk_sock_pos k) d (sk_sockbuf k),
    sk_sock_pos := sk_sock_pos k + length d\<rparr>) (act (A_read ?fd ?n r) st)" for d
  have r: "length d \<le> ?n" if "r = Some d" for d using assms(1) that unfolding env_ok_def r_def by blast
  consider (data) "sk_state (sock_pool st s) = STATE_DATA" | (eof) "sk_state (sock_pool st s) \<noteq> STATE_DATA" "r \<in> {None, Some []}"
    | (socks) d where "sk_state (sock_pool st s) \<noteq> STATE_DATA" "r = Some d" "d \<noteq> []" by fastforce
  then have "res_all good (socks_cmd_cb e s st) \<and>
    (dns_domain st = None \<or> sk_state (sock_pool st s) \<noteq> STATE_SOCKS_CMD \<longrightarrow> res_safe good (socks_cmd_cb e s st))"
  proof cases
    case data
    then have "res_safe good (socks_cmd_cb e s st)"
      using keeps_good [OF wf local_data_cb_safe [OF assms(1) ok s(1,2) data np]] by (simp add: socks_cmd_cb_def)
    then show ?thesis using res_safe_all by blast
  next
    case eof
    have "res_safe (keeps (waiter st) st) (ocp_sock_del s (act a st))" for a
      using sock_del_safe [of fl "waiter st" "act a st" s] socks_slot [OF ok s] st eof(1) ok s by (simp add: is_conn_def)
    from keeps_good [OF wf this] have "res_safe good (socks_cmd_cb e s st)"
      using eof by (auto simp: socks_cmd_cb_def Let_def r_def)
    then show ?thesis using res_safe_all by blast
  next
    case (socks d)
    have k: "length (sk_sockbuf (sock_pool st s)) = 2048" "sk_sock_pos (sock_pool st s) \<le> 2048" "\<not> waited (waiter st) s"
      "sk_tpcb (sock_pool st s) = Null" "\<not> sk_lwip_blocked (sock_pool st s)"
      using socks_slot [OF ok s] st socks(1) by auto
    have ok2: "ocp_ok {} fl (waiter st) (st2 d)" unfolding st2_def
      by (rule ocp_ok_upd) (use ok s np k st socks(1) r [OF socks(2)] in \<open>auto simp: slot_ok_simps is_conn_def\<close>)
    have f: "sk_ev (sock_pool (st2 d) s) = Ptr Socks_cmd_cb" "\<not> pending (st2 d) s" "dns_wf (st2 d)" "waiter (st2 d) = waiter st"
      "sk_state (sock_pool (st2 d) s) = sk_state (sock_pool st s)" "dns_domain (st2 d) = dns_domain st"
      using s(3) np wf by (simp_all add: st2_def)
    have del: "res_safe good (ocp_sock_del s (st2 d))"
      by (rule keeps_good [OF f(3)], simp only: f(4), rule sock_del_safe [OF ok2 s(1,2)]) (use f(1) k(3) in \<open>auto simp: is_conn_def\<close>)
    have auth: "res_safe good (socks_auth e s (st2 d))" if "sk_state (sock_pool st s) = STATE_SOCKS_AUTH"
      by (rule keeps_good [OF f(3)], simp only: f(4), rule socks_auth_safe [OF ok2 s(1,2) f(1)]) (use f(5) that in simp)
    note cmd = socks_cmd_good [OF f(3) ok2 [folded f(4)] s(1,2) f(1,2), unfolded f(5,6), of e]
    have eq: "socks_cmd_cb e s st =
      (if sk_sockbuf (sock_pool (st2 d) s) ! 0 \<noteq> 0x05 then ocp_sock_del s (st2 d)
       else if sk_state (sock_pool st s) = STATE_SOCKS_AUTH then socks_auth e s (st2 d) else socks_cmd e s (st2 d))"
      using socks st by (auto simp: socks_cmd_cb_def Let_def st2_def simp flip: r_def)
    show ?thesis using del auth cmd st socks(1) by (auto simp: eq dest: res_safe_all)
  qed
  then show "res_all good (socks_cmd_cb e s st)" "dns_domain st = None \<or> sk_state (sock_pool st s) \<noteq> STATE_SOCKS_CMD \<Longrightarrow>
    res_safe good (socks_cmd_cb e s st)" by auto
qed

end
