(* ===== verification/Ocp_Loop.thy ===== *)
theory Ocp_Loop
  imports Ocp_Handlers
begin

text \<open>
  The event loop (\<^verbatim>\<open>event_base_dispatch\<close> at the end of \<^verbatim>\<open>main\<close>) as a step relation: each step is one
  event of libevent, or one call-back of lwIP while it works on a packet or a timer, handled by the
  function the program registered for it. The invariant holds in every state that can be reached,
  so a slot that was given back is never used again.
\<close>

subsection \<open>Events\<close>

text \<open>
  \<open>Fd_ready s\<close>: the event of slot \<open>s\<close> fires; \<open>Accepted l fd\<close>: the listener of slot \<open>l\<close> accepts.
  \<open>Connected\<close>, \<open>Received\<close>, \<open>Sent\<close> and \<open>Tcp_error\<close> are the call-backs of a TCP block,
  \<open>Tcp_changed\<close> and \<open>Tcp_freed\<close> what lwIP does to a block without telling. \<open>Dns_packet\<close> is a
  datagram on the resolver's port, \<open>Ip_output\<close> a packet lwIP sends.
\<close>

datatype loop_event =
    Fd_ready nat
  | Accepted nat int
  | Connected nat
  | Received nat chain
  | Sent nat
  | Tcp_error nat
  | Tcp_changed nat nat nat ip_addr u16
  | Tcp_freed nat
  | Dns_packet chain
  | Dns_timer
  | Ip_output nat chain
  | Housekeeping int
  | Signal signal

fun enabled :: "loop_event \<Rightarrow> ocp \<Rightarrow> bool" where
  "enabled (Fd_ready s) st \<longleftrightarrow> pending st s"
| "enabled (Accepted l fd) st \<longleftrightarrow>
     l < MAX_CONN \<and> is_listener (sock_pool st l) \<and> sk_ev (sock_pool st l) = Null \<and> 0 \<le> fd"
| "enabled (Connected p) st \<longleftrightarrow> (case pcbs st p of Some b \<Rightarrow> pc_connected b | None \<Rightarrow> False)"
| "enabled (Received p c) st \<longleftrightarrow> (case pcbs st p of Some b \<Rightarrow> pc_recv b | None \<Rightarrow> False) \<and> chain_wf c"
| "enabled (Sent p) st \<longleftrightarrow> (case pcbs st p of Some b \<Rightarrow> pc_sent b | None \<Rightarrow> False)"
| "enabled (Tcp_error p) st \<longleftrightarrow> (case pcbs st p of Some b \<Rightarrow> pc_errf b | None \<Rightarrow> False)"
| "enabled (Tcp_changed p snd_buf queuelen ip port) st \<longleftrightarrow> pcbs st p \<noteq> None"
| "enabled (Tcp_freed p) st \<longleftrightarrow> (case pcbs st p of Some b \<Rightarrow> pc_arg b = None | None \<Rightarrow> False)"
| "enabled (Dns_packet c) st \<longleftrightarrow> chain_wf c \<and> c \<noteq> []"
| "enabled Dns_timer st \<longleftrightarrow> True"
| "enabled (Ip_output s c) st \<longleftrightarrow> sk_ev (sock_pool st s) = Ptr Lwip_data_cb"
| "enabled (Housekeeping fd) st \<longleftrightarrow> True"
| "enabled (Signal x) st \<longleftrightarrow> True"

text \<open>
  libevent disarms an event before it calls its function. lwIP marks a block as established before
  it calls \<^verbatim>\<open>connect_cb\<close>, and frees it before it calls \<^verbatim>\<open>tcp_err_cb\<close>.
\<close>

fun dispatch :: "env \<Rightarrow> loop_event \<Rightarrow> ocp \<Rightarrow> ocp res" where
  "dispatch e (Fd_ready s) st =
     (case sk_ev (sock_pool st s) of Ptr f \<Rightarrow> event_cb f e s (fired s st) | _ \<Rightarrow> Stop Fault)"
| "dispatch e (Accepted l fd) st = new_conn_cb e l fd st"
| "dispatch e (Connected p) st =
     (case pcbs st p of
        Some b \<Rightarrow> res_bind (connect_cb e (pc_arg b) p (st\<lparr>pcbs := (pcbs st)(p := Some (b\<lparr>pc_connected := False\<rparr>))\<rparr>))
                    (\<lambda>(err, st1). Ok st1)
      | None \<Rightarrow> Stop Fault)"
| "dispatch e (Received p c) st =
     (case pcbs st p of
        Some b \<Rightarrow> res_bind (recv_cb e (pc_arg b) p c st) (\<lambda>(err, st1). Ok st1)
      | None \<Rightarrow> Stop Fault)"
| "dispatch e (Sent p) st =
     (case pcbs st p of
        Some b \<Rightarrow> res_bind (sent_cb (pc_arg b) st) (\<lambda>(err, st1). Ok st1)
      | None \<Rightarrow> Stop Fault)"
| "dispatch e (Tcp_error p) st =
     (case pcbs st p of
        Some b \<Rightarrow> tcp_err_cb e (pc_arg b) (st\<lparr>pcbs := (pcbs st)(p := None)\<rparr>)
      | None \<Rightarrow> Stop Fault)"
| "dispatch e (Tcp_changed p snd_buf queuelen ip port) st =
     upd_pcb p (\<lambda>b. b\<lparr>pc_snd_buf := snd_buf, pc_snd_queuelen := queuelen, pc_local_ip := ip, pc_local_port := port\<rparr>) st"
| "dispatch e (Tcp_freed p) st = Ok (st\<lparr>pcbs := (pcbs st)(p := None)\<rparr>)"
| "dispatch e (Dns_packet c) st = dns_recv (found_cb e) c st"
| "dispatch e Dns_timer st = cb_dns_tmr e st"
| "dispatch e (Ip_output s c) st = Ok (snd (lwip_data_out e s c st))"
| "dispatch e (Housekeeping fd) st = Ok (cb_housekeeping e fd st)"
| "dispatch e (Signal x) st = Ok (handle_sig x st)"

text \<open>The loop runs until \<^verbatim>\<open>event_base_loopbreak\<close> was called.\<close>

definition running :: "ocp \<Rightarrow> bool" where
  "running st \<longleftrightarrow> A_loopbreak \<notin> set (trace st)"

inductive loop_step :: "env \<Rightarrow> ocp \<Rightarrow> ocp \<Rightarrow> bool" for e where
  loop_stepI: "running st \<Longrightarrow> enabled ev st \<Longrightarrow> dispatch e ev st = Ok st' \<Longrightarrow> loop_step e st st'"

inductive reach :: "env \<Rightarrow> ocp \<Rightarrow> ocp \<Rightarrow> bool" for e st0 where
  reach_init: "reach e st0 st0"
| reach_step: "reach e st0 st \<Longrightarrow> loop_step e st st' \<Longrightarrow> reach e st0 st'"

inductive_cases loop_stepE: "loop_step e st st'"

subsection \<open>Every handler keeps the invariant\<close>

text \<open>
  Three events can make the program misbehave: a positive SOCKS reply that is not written
  completely, a SOCKS request when a domain is configured, and a malformed DNS reply.
\<close>

fun risky :: "env \<Rightarrow> loop_event \<Rightarrow> ocp \<Rightarrow> bool" where
  "risky e (Connected p) st \<longleftrightarrow>
     (case pcbs st p of
        Some b \<Rightarrow>
          (case pc_arg b of
             Some s \<Rightarrow> sk_conn_type (sock_pool st s) = CONN_TYPE_SOCKS \<and>
                       en_write e (trace st) (sk_fd (sock_pool st s)) (socks_reply_bytes 0 (Some b)) \<noteq> 10
           | None \<Rightarrow> False)
      | None \<Rightarrow> False)"
| "risky e (Fd_ready s) st \<longleftrightarrow> dns_domain st \<noteq> None \<and> sk_state (sock_pool st s) = STATE_SOCKS_CMD"
| "risky e (Dns_packet c) st \<longleftrightarrow> True"
| "risky e ev st \<longleftrightarrow> False"

lemma good_view:
  assumes "good st" and "sock_pool st' = sock_pool st" "sock_free_list st' = sock_free_list st" "sock_used st' = sock_used st"
    "pending st' = pending st" "pcbs st' = pcbs st" "next_pcb st' = next_pcb st" "dns_wf st' = dns_wf st" "waiter st' = waiter st"
  shows "good st'"
  using assms ocp_ok_view [OF _ assms(2-7)] by (auto simp: good_iff)

lemma good_act [simp]: "good st \<Longrightarrow> good (act a st)"
  by (erule good_view) simp_all

lemma good_stats:
  assumes "good st"
  shows "good (st\<lparr>link_drop := x1\<rparr>)" and "good (st\<lparr>link_lenerr := x1\<rparr>)" and "good (st\<lparr>link_xmit := x1\<rparr>)"
    and "good (st\<lparr>got_sighup := b\<rparr>)" and "good (st\<lparr>got_sigusr1 := b\<rparr>)"
  by (rule good_view [OF assms]; simp add: dns_wf_def waiter_def fun_eq_iff)+

lemma lwip_data_out_good: "good st \<Longrightarrow> good (snd (lwip_data_out e s c st))"
  by (simp add: lwip_data_out_def Let_def warn_def vpn_conn_down_def good_stats split: option.split)

lemma cb_housekeeping_good: "good st \<Longrightarrow> good (cb_housekeeping e fd st)"
  by (simp add: cb_housekeeping_def Let_def vpn_conn_down_def good_stats)

lemma handle_sig_good: "good st \<Longrightarrow> good (handle_sig x st)"
  by (cases x) (simp_all add: good_stats)

text \<open>An event of a slot fires.\<close>

lemma fd_ready_good:
  assumes "env_ok e" and "good st" and "pending st s"
  shows "res_all good (dispatch e (Fd_ready s) st)"
    and "\<not> risky e (Fd_ready s) st \<Longrightarrow> res_safe good (dispatch e (Fd_ready s) st)"
proof -
  obtain fl where fl: "ocp_ok {} fl (waiter st) (fired s st)" "dns_wf st" "s < 1024" "s \<notin> set fl" "ev_ready (sock_pool st s)"
    using pending_slot [OF assms(2,3)] by metis
  have ok: "ocp_ok {} fl (waiter (fired s st)) (fired s st)" and wf: "dns_wf (fired s st)" using fl by simp_all
  have data: "res_safe good (local_data_cb e s (fired s st))" if "sk_state (sock_pool st s) = STATE_DATA"
    using keeps_good [OF wf local_data_cb_safe [OF assms(1) ok fl(3,4)]] that by simp
  have vpn: "res_safe good (lwip_data_cb e s (fired s st))" if "sk_ev (sock_pool st s) = Ptr Lwip_data_cb"
    using keeps_good [OF wf lwip_data_cb_safe [OF assms(1) ok fl(3,4)]] that by simp
  have socks: "res_all good (socks_cmd_cb e s (fired s st))"
    "dns_domain st = None \<or> sk_state (sock_pool st s) \<noteq> STATE_SOCKS_CMD \<Longrightarrow> res_safe good (socks_cmd_cb e s (fired s st))"
    if "sk_ev (sock_pool st s) = Ptr Socks_cmd_cb"
    using socks_cmd_cb_good [OF assms(1) wf ok fl(3,4)] that fl(5) by (auto simp: ev_ready_def)
  show "res_all good (dispatch e (Fd_ready s) st)"
    using fl(5) data vpn socks by (auto simp: ev_ready_def dest: res_safe_all)
  show "res_safe good (dispatch e (Fd_ready s) st)" if "\<not> risky e (Fd_ready s) st"
    using fl(5) data vpn socks that by (auto simp: ev_ready_def)
qed

text \<open>A call-back of a TCP block.\<close>

lemma connected_good:
  assumes "good st" and "enabled (Connected p) st"
  shows "res_all good (dispatch e (Connected p) st)"
    and "\<not> risky e (Connected p) st \<Longrightarrow> res_safe good (dispatch e (Connected p) st)"
    and "risky e (Connected p) st \<Longrightarrow> dispatch e (Connected p) st = Stop Fault"
proof -
  obtain fl where fl: "ocp_ok {} fl (waiter st) st" "dns_wf st" using assms(1) by (auto simp: good_iff)
  obtain b where b: "pcbs st p = Some b" "pc_connected b" using assms(2) by (auto split: option.splits)
  obtain s where s: "pc_arg b = Some s" using ocp_okD(8) [OF fl(1) b(1)] b(2) by auto
  let ?b = "b\<lparr>pc_connected := False\<rparr>" and ?st = "st\<lparr>pcbs := (pcbs st)(p := Some (b\<lparr>pc_connected := False\<rparr>))\<rparr>"
  have "ocp_ok {} fl (waiter st) ?st" by (rule ocp_ok_pcb [OF fl(1) b(1)]) auto
  note c = connect_cb_cases [OF this, of p ?b s e]
  have [simp]: "socks_reply_bytes 0 (Some ?b) = socks_reply_bytes 0 (Some b)" by (simp add: socks_reply_bytes_def)
  show f: "dispatch e (Connected p) st = Stop Fault" if "risky e (Connected p) st" using c b s that by auto
  show sa: "res_safe good (dispatch e (Connected p) st)" if "\<not> risky e (Connected p) st"
    using c b s that fl(2) by (auto simp: keeps_def client_ok_def elim!: res_safe_mono split: if_splits)
  show "res_all good (dispatch e (Connected p) st)"
    using f sa by (cases "risky e (Connected p) st") (simp, blast dest: res_safe_all)
qed

lemma block_good:
  assumes "good st" and "enabled ev st"
    and "ev \<in> {Received p c, Sent p, Tcp_error p, Tcp_changed p n q ip port, Tcp_freed p}"
  shows "res_safe good (dispatch e ev st)"
proof -
  obtain fl where fl: "ocp_ok {} fl (waiter st) st" "dns_wf st" using assms(1) by (auto simp: good_iff)
  obtain b where b: "pcbs st p = Some b" using assms(2,3) by (auto split: option.splits)
  have g: "good st'" if "keeps (waiter st) st st'" for st' using that fl(2) by (simp add: keeps_def client_ok_def)
  have pcb: "good (st\<lparr>pcbs := (pcbs st)(p := x)\<rparr>)"
    if "x = None \<Longrightarrow> pc_arg b = None" "\<And>c. x = Some c \<Longrightarrow> pc_arg c = pc_arg b \<and> (pc_connected c \<longrightarrow> pc_connected b)" for x
    by (rule g, rule keepsI [OF ocp_ok_pcb [OF fl(1) b that]]) simp_all
  consider "ev = Received p c" | "ev = Sent p" | "ev = Tcp_error p" | "ev = Tcp_changed p n q ip port" | "ev = Tcp_freed p"
    using assms(3) by blast
  then show ?thesis
  proof cases
    case 1
    then show ?thesis using recv_cb_safe [OF fl(1) b refl, of c e] assms(2) b g by (auto elim!: res_safe_mono)
  next
    case 2
    then show ?thesis using sent_cb_safe [OF fl(1) b refl] b g by (auto elim!: res_safe_mono)
  next
    case 3
    then show ?thesis using tcp_err_cb_safe [OF fl(1) b, of e] b g by (auto elim!: res_safe_mono)
  next
    case 4
    then show ?thesis using b by (auto simp: upd_pcb_def intro!: pcb)
  next
    case 5
    then show ?thesis using b assms(2) by (auto intro!: pcb)
  qed
qed

lemma accepted_good:
  assumes "env_ok e" and "good st" and "enabled (Accepted l fd) st"
  shows "res_safe good (dispatch e (Accepted l fd) st)"
proof -
  obtain fl where fl: "ocp_ok {} fl (waiter st) st" "dns_wf st" using assms(2) by (auto simp: good_iff)
  have "l \<notin> set fl" using free_path_listener [OF ocp_okD(1) [OF fl(1)]] assms(3) by simp
  then show ?thesis using new_conn_cb_safe [OF assms(1) fl(2,1)] assms(3) by simp
qed

lemma dispatch_good:
  assumes "env_ok e" and "good st" and "enabled ev st"
  shows "res_all good (dispatch e ev st) \<and> (\<not> risky e ev st \<longrightarrow> res_safe good (dispatch e ev st))"
proof -
  have *: "res_safe good (dispatch e ev st) \<Longrightarrow> ?thesis" using res_safe_all by blast
  show ?thesis
  proof (cases ev)
    case (Fd_ready s)
    then show ?thesis using fd_ready_good [OF assms(1,2)] assms(3) by auto
  next
    case (Connected p)
    then show ?thesis using connected_good [OF assms(2)] assms(3) by blast
  next
    case (Accepted l fd)
    show ?thesis by (rule *) (use Accepted accepted_good [OF assms(1,2)] assms(3) in simp)
  next
    case (Dns_packet c)
    then show ?thesis using dns_recv_keeps [OF assms(2)] assms(3) by simp
  next
    case Dns_timer
    show ?thesis by (rule *) (use Dns_timer cb_dns_tmr_safe [OF assms(2)] in simp)
  next
    case (Ip_output s c)
    show ?thesis by (rule *) (use Ip_output lwip_data_out_good [OF assms(2)] in simp)
  next
    case (Housekeeping fd)
    show ?thesis by (rule *) (use Housekeeping cb_housekeeping_good [OF assms(2)] in simp)
  next
    case (Signal x)
    show ?thesis by (rule *) (use Signal handle_sig_good [OF assms(2)] in simp)
  qed (rule *, rule block_good [OF assms(2,3)]; simp)+
qed

lemma reach_good: "reach e st0 st \<Longrightarrow> env_ok e \<Longrightarrow> good st0 \<Longrightarrow> good st"
proof (induction rule: reach.induct)
  case (reach_step st st')
  from reach_step.hyps(2) obtain ev where "enabled ev st" "dispatch e ev st = Ok st'" by (auto elim: loop_stepE)
  with dispatch_good [OF reach_step.prems(1) reach_step.IH [OF reach_step.prems], of ev] show ?case by simp
qed

end
