(* ===== verification/Ocp_Stall.thy ===== *)
theory Ocp_Stall
  imports Ocp_Loop
begin

text \<open>
  No connection is forgotten: a slot whose client may speak has its event armed, and one that is
  relaying has its event armed or waits for lwIP to report progress. Every handler keeps this, because
  it touches one slot only and leaves that slot with something to wake it up.
\<close>

definition awake :: "ocp \<Rightarrow> nat \<Rightarrow> bool" where
  "awake st t \<longleftrightarrow>
     (sk_state (sock_pool st t) \<in> {STATE_SOCKS_AUTH, STATE_SOCKS_CMD} \<longrightarrow> pending st t) \<and>
     (sk_state (sock_pool st t) = STATE_DATA \<longrightarrow> pending st t \<or> sk_lwip_blocked (sock_pool st t)) \<and>
     (sk_ev (sock_pool st t) = Ptr Lwip_data_cb \<longrightarrow> pending st t)"

text \<open>The effect of a handler of slot \<open>s\<close>.\<close>

definition attends :: "nat \<Rightarrow> ocp \<Rightarrow> ocp \<Rightarrow> bool" where
  "attends s st st' \<longleftrightarrow> awake st' s \<and>
     (\<forall>t. t \<noteq> s \<longrightarrow> sock_pool st' t = sock_pool st t \<and> pending st' t = pending st t)"

definition calm :: "ocp \<Rightarrow> ocp \<Rightarrow> bool" where
  "calm st st' \<longleftrightarrow> (\<forall>t. awake st t \<longrightarrow> awake st' t)"

lemma calm_trans: "calm st1 st2 \<Longrightarrow> calm st2 st3 \<Longrightarrow> calm st1 st3"
  by (simp add: calm_def)

lemma attends_calm: "attends s st st' \<Longrightarrow> calm st st'"
  unfolding attends_def calm_def awake_def by metis

lemma awake_cong: "sock_pool st' t = sock_pool st t \<Longrightarrow> pending st' t = pending st t \<Longrightarrow> awake st' t = awake st t"
  by (simp add: awake_def)

lemma attends_from:
  assumes "\<And>t. t \<noteq> s \<Longrightarrow> sock_pool st1 t = sock_pool st t \<and> pending st1 t = pending st t"
  shows "attends s st1 = attends s st"
  using assms by (auto simp: attends_def fun_eq_iff)

lemma attends_simps [simp]:
  "attends s (act a st) = attends s st" "attends s (upd_sock s f st) = attends s st"
  "attends s (st\<lparr>pcbs := x\<rparr>) = attends s st" "attends s (fired s st) = attends s st" "attends s (taken s st) = attends s st"
  "attends s (st\<lparr>link_recv := y\<rparr>) = attends s st"
  by (rule attends_from; simp add: fired_def)+

lemma event_add_attends: "res_all (attends s st) (event_add s st)"
  by (auto simp: event_add_def attends_def awake_def split: ptr.split)

lemma ocp_sock_del_attends:
  "sk_ev (sock_pool st s) \<noteq> Ptr Lwip_data_cb \<Longrightarrow> res_all (attends s st) (ocp_sock_del s st)"
  by (auto simp: ocp_sock_del_def tcp_arg_def upd_pcb_def tcp_close_def event_free_def Let_def attends_def awake_def
      poison_sock_def split: ptr.split option.split)

lemma start_connection_attends:
  "sk_ev (sock_pool st s) \<noteq> Ptr Lwip_data_cb \<Longrightarrow> res_all (attends s st) (start_connection e s a st)"
  by (auto simp: start_connection_def Let_def warn_def attends_def awake_def)

lemma socks_reply_attends:
  "sk_ev (sock_pool st s) \<noteq> Ptr Lwip_data_cb \<Longrightarrow> rep \<noteq> 0 \<Longrightarrow> res_all (attends s st) (socks_reply e s rep st)"
  using ocp_sock_del_attends [of "act a st" s for a] by (simp add: socks_reply_def Let_def)

lemma finish_resolution_attends:
  "sk_ev (sock_pool st s) \<noteq> Ptr Lwip_data_cb \<Longrightarrow> res_all (attends s st) (finish_resolution e ip s st)"
  by (auto simp: finish_resolution_def split: option.split
      intro!: ocp_sock_del_attends start_connection_attends socks_reply_attends)

lemma tcp_err_cb_attends:
  "sk_ev (sock_pool st s) \<noteq> Ptr Lwip_data_cb \<Longrightarrow> res_all (attends s st) (tcp_err_cb e (Some s) st)"
  using socks_reply_attends [of "upd_sock s (\<lambda>k. k\<lparr>sk_tpcb := Null\<rparr>) st" s 5 e]
    ocp_sock_del_attends [of "upd_sock s (\<lambda>k. k\<lparr>sk_tpcb := Null\<rparr>) st" s]
  by (simp add: tcp_err_cb_def Let_def)

lemma upd_pcb_attends: "res_all (\<lambda>st'. sock_pool st' = sock_pool st \<and> pending st' = pending st) (upd_pcb p f st)"
  by (simp add: upd_pcb_def split: option.split)

lemma attends_view: "attends s st st1 \<Longrightarrow> sock_pool st' = sock_pool st1 \<Longrightarrow> pending st' = pending st1 \<Longrightarrow> attends s st st'"
  by (simp add: attends_def awake_def)

subsection \<open>Name resolution\<close>

text \<open>A slot in \<^verbatim>\<open>STATE_DNS\<close> needs no event.\<close>

definition in_dns :: "nat \<Rightarrow> ocp \<Rightarrow> ocp \<Rightarrow> bool" where
  "in_dns s st st1 \<longleftrightarrow> dns_wf st1 \<and> sk_state (sock_pool st1 s) = STATE_DNS \<and> sk_ev (sock_pool st1 s) \<noteq> Ptr Lwip_data_cb \<and>
     (\<forall>t. t \<noteq> s \<longrightarrow> sock_pool st1 t = sock_pool st t \<and> pending st1 t = pending st t)"

lemma in_dns_attends: "in_dns s st st1 \<Longrightarrow> attends s st1 = attends s st" "in_dns s st st1 \<Longrightarrow> attends s st st1"
  by (rule attends_from) (auto simp: in_dns_def attends_def awake_def)

lemma in_dns_upd:
  "in_dns s st st1 \<Longrightarrow> (\<And>k. sk_state (f k) = sk_state k) \<Longrightarrow> (\<And>k. sk_ev (f k) = sk_ev k) \<Longrightarrow> in_dns s st (upd_sock s f st1)"
  "in_dns s st st1 \<Longrightarrow> in_dns s st (act a st1)"
  by (auto simp: in_dns_def)

lemma in_dns_more: "in_dns s st st1 \<Longrightarrow> dns_wf st2 \<Longrightarrow> dns.more st2 = dns.more st1 \<Longrightarrow> in_dns s st st2"
  by (frule dns_more_eq(1), drule dns_more_eq(4)) (simp add: in_dns_def)

lemma enqueue_dns_req_attends:
  assumes d: "in_dns s st st1"
    and now: "\<And>st2. in_dns s st st2 \<Longrightarrow> res_all (attends s st) (found_now hostname st2)"
  shows "res_all (attends s st) (enqueue_dns_req e s hostname domain found found_now st1)"
proof -
  have conn: "res_all (attends s st) (start_connection e s a st2)" if "in_dns s st st2" for a st2
    using start_connection_attends [of st2 s e a] in_dns_attends(1) [OF that] that by (simp add: in_dns_def)
  have rest: "res_all (attends s st) (res_bind (dns_gethostbyname no_cb env (Some name) (Some found) (Some s) st2)
       (\<lambda>(err, addr, st3).
         if err = ERR_INPROGRESS then Ok st3
         else if err = ERR_OK then
           (case addr of
              Some a \<Rightarrow> start_connection e s a (upd_sock s (\<lambda>k. k\<lparr>sk_rhost := a\<rparr>) st3)
            | None \<Rightarrow> start_connection e s (sk_rhost (sock_pool st3 s)) st3)
         else found_now hostname (warn st3)))"
    if r: "in_dns s st st2" for st2 env name
  proof -
    have wf: "dns_wf st2" using r by (simp add: in_dns_def)
    have "res_all (attends s st) (start_connection e s a (upd_sock s (\<lambda>k. k\<lparr>sk_rhost := a\<rparr>) st2))" for a
      by (rule conn [OF in_dns_upd(1) [OF r]]) simp_all
    moreover have "res_all (attends s st) (found_now hostname (warn st2))"
      unfolding warn_def by (rule now [OF in_dns_upd(2) [OF r]])
    moreover have "attends s st st'" if "dns_wf st'" "dns.more st' = dns.more st2" for st'
      by (rule in_dns_attends(2) [OF in_dns_more [OF r that]])
    ultimately show ?thesis
      using dns_gethostbyname_cases [OF wf, of no_cb env "Some name" "Some found" "Some s"]
      by (elim disjE exE conjE) (simp_all only: res_bind.simps prod.case if_False if_True option.case res_all.simps
        err_t.distinct HOL.simp_thms)
  qed
  show ?thesis
  proof (cases "domain = None \<or> (\<exists>c. hostname = Host_str c)")
    case True
    then show ?thesis
      using rest [OF d] rest [OF in_dns_upd(1) [OF d, of "\<lambda>k. k\<lparr>sk_sockbuf := put_fqdn c x (sk_sockbuf k)\<rparr>" for c x]]
      by (cases domain) (auto simp: enqueue_dns_req_def Let_def simp del: res_all_bind)
  next
    case False
    then show ?thesis by (cases hostname) (auto simp: enqueue_dns_req_def)
  qed
qed

lemma retry_resolution_attends:
  assumes "in_dns s st st1"
  shows "res_all (attends s st) (retry_resolution e hostname ip s st1)"
proof -
  have fin: "res_all (attends s st) (finish_resolution e x s st2)" if "in_dns s st st2" for x st2
    using finish_resolution_attends [of st2 s e x] in_dns_attends(1) [OF that] that by (simp add: in_dns_def)
  then show ?thesis using assms by (auto simp: retry_resolution_def intro!: enqueue_dns_req_attends)
qed

lemma start_resolution_attends:
  assumes "dns_wf st" and "sk_ev (sock_pool st s) \<noteq> Ptr Lwip_data_cb"
  shows "res_all (attends s st) (start_resolution e s hostname st)"
proof -
  have d: "in_dns s st (upd_sock s (\<lambda>k. k\<lparr>sk_state := STATE_DNS\<rparr>) st)" using assms by (simp add: in_dns_def)
  have fin: "res_all (attends s st) (finish_resolution e x s st2)" if "in_dns s st st2" for x st2
    using finish_resolution_attends [of st2 s e x] in_dns_attends(1) [OF that] that by (simp add: in_dns_def)
  show ?thesis unfolding start_resolution_def Let_def
    by (auto intro!: enqueue_dns_req_attends [OF d] retry_resolution_attends fin)
qed

text \<open>The callbacks of the resolver.\<close>

lemma found_cb_attends:
  assumes "dns_wf st" and "ocp_inv w st" and "w i = Some (f, a)"
  shows "res_all (calm st) (found_cb e g name addr a st)"
proof -
  obtain fl where ok: "ocp_ok {} fl w st" using assms(2) by (auto simp: ocp_inv_def)
  obtain s where s: "a = Some s" "s < 1024" "s \<notin> set fl" "sk_state (sock_pool st s) = STATE_DNS"
    using ocp_okD(10) [OF ok assms(3)] by auto
  have "is_conn (sock_pool st s)" using slot_ok_busy [OF ocp_ok_live [OF ok s(2,3)]] s(4) by simp
  then have ev: "sk_ev (sock_pool st s) \<noteq> Ptr Lwip_data_cb" by (auto simp: is_conn_def)
  have "in_dns s st st" using assms(1) s(4) ev by (simp add: in_dns_def)
  with ev have "res_all (attends s st) (found_cb e g name addr a st)"
    by (auto simp: found_cb_def s(1) split: found_fn.split intro!: finish_resolution_attends retry_resolution_attends)
  then show ?thesis by (rule res_all_mono) (rule attends_calm)
qed

lemma calm_more: "calm st0 st \<Longrightarrow> dns.more st' = dns.more (st :: ocp) \<Longrightarrow> calm st0 st'"
  by (frule dns_more_eq(1), drule dns_more_eq(4)) (simp add: calm_def awake_def)

lemma res_safe_conj: "res_safe P r \<Longrightarrow> res_all Q r \<Longrightarrow> res_safe (\<lambda>x. P x \<and> Q x) r"
  by (cases r) auto

interpretation ocp_calm: dns_client "found_cb e" "\<lambda>w st. ocp_inv w st \<and> calm st0 st" for e st0
proof (unfold_locales, goal_cases)
  case (1 w st st')
  then show ?case using ocp_dns.cinv_frame calm_more by blast
next
  case (2 w st w')
  then show ?case using ocp_dns.cinv_forget by blast
next
  case (3 st i f a addr name)
  have "res_all (calm st) (found_cb e f name addr a st)"
    using found_cb_attends [OF 3(1), of "(waiter st)(i := Some (f, a))" i f a] 3(3) by simp
  then have "res_all (calm st0) (found_cb e f name addr a st)"
    by (rule res_all_mono) (use 3(3) calm_trans in blast)
  from res_safe_conj [OF ocp_dns.cb_safe [OF 3(1,2) _ 3(4)] this] 3(3) show ?case
    by (auto elim!: res_safe_mono)
qed

subsection \<open>Handlers\<close>

lemma local_data_cb_attends:
  assumes "sk_state (sock_pool st s) = STATE_DATA" and "sk_ev (sock_pool st s) \<noteq> Ptr Lwip_data_cb"
  shows "res_all (attends s st) (local_data_cb e s st)"
proof -
  have "attends s st (upd_sock s (\<lambda>k. k\<lparr>sk_lwip_blocked := True\<rparr>) st)" using assms by (simp add: attends_def awake_def)
  moreover have "res_all (attends s st) (ocp_sock_del s (act a st))" for a
    using ocp_sock_del_attends [of "act a st" s] assms(2) by simp
  moreover have "res_all (attends s st) (event_add s (act x (act y (upd_sock s f (act a st)))))"
    "res_all (attends s st) (event_add s (act x (upd_sock s f (act a st))))"
    "res_all (attends s st) (event_add s (act x (act z (act y (upd_sock s f (act a st))))))" for x y z a f
    using event_add_attends [of s "act x (act y (upd_sock s f (act a st)))"]
      event_add_attends [of s "act x (upd_sock s f (act a st))"]
      event_add_attends [of s "act x (act z (act y (upd_sock s f (act a st))))"] by simp_all
  ultimately show ?thesis
    by (auto simp: local_data_cb_def Let_def warn_def split: ptr.split option.split)
qed

lemma socks_cmd_cb_attends:
  assumes wf: "dns_wf st" and ev: "sk_ev (sock_pool st s) \<noteq> Ptr Lwip_data_cb"
  shows "res_all (attends s st) (socks_cmd_cb e s st)"
proof -
  have add: "res_all (attends s st) (event_add s st1)" if "attends s st1 = attends s st" for st1
    using event_add_attends [of s st1] that by simp
  have del: "res_all (attends s st) (ocp_sock_del s st1)"
    if "attends s st1 = attends s st" "sk_ev (sock_pool st1 s) = sk_ev (sock_pool st s)" for st1
    using ocp_sock_del_attends [of st1 s] that ev by simp
  have reply: "res_all (attends s st) (socks_reply e s rep st1)"
    if "attends s st1 = attends s st" "sk_ev (sock_pool st1 s) = sk_ev (sock_pool st s)" "rep \<noteq> 0" for st1 rep
    using socks_reply_attends [of st1 s rep e] that ev by simp
  have conn: "res_all (attends s st) (start_connection e s a st1)"
    if "attends s st1 = attends s st" "sk_ev (sock_pool st1 s) = sk_ev (sock_pool st s)" for st1 a
    using start_connection_attends [of st1 s e a] that ev by simp
  have res: "res_all (attends s st) (start_resolution e s h st1)"
    if "attends s st1 = attends s st" "sk_ev (sock_pool st1 s) = sk_ev (sock_pool st s)" "dns_wf st1" for st1 h
    using start_resolution_attends [of st1 s e h] that ev by simp
  have cmd: "res_all (attends s st) (socks_cmd e s st1)"
    if "attends s st1 = attends s st" "sk_ev (sock_pool st1 s) = sk_ev (sock_pool st s)" "dns_wf st1" for st1
    using that by (auto simp: socks_cmd_def Let_def intro!: add reply conn res)
  have auth: "res_all (attends s st) (socks_auth e s st1)"
    if "attends s st1 = attends s st" "sk_ev (sock_pool st1 s) = sk_ev (sock_pool st s)" for st1
    using that by (auto simp: socks_auth_def Let_def intro!: add del)
  show ?thesis
    using wf ev by (auto simp: socks_cmd_cb_def Let_def split: option.split intro!: local_data_cb_attends add del cmd auth)
qed

lemma lwip_data_cb_attends: "res_all (attends s st) (lwip_data_cb e s st)"
proof -
  have add: "res_all (attends s st) (event_add s st1)" if "attends s st1 = attends s st" for st1
    using event_add_attends [of s st1] that by simp
  have any: "(\<And>x. P x) \<Longrightarrow> res_all P (pbuf_alloc a b c d)" "(\<And>x. Q x) \<Longrightarrow> res_all Q (lwip_fill u v)" for P Q a b c d u v
    by (blast intro: res_allI)+
  show ?thesis
    by (auto simp: lwip_data_cb_def Let_def warn_def vpn_conn_down_def split: option.split ptr.split
        intro!: add any(1) any(2))
qed

lemma recv_loop_calm:
  assumes "sk_ev (sock_pool st s) \<noteq> Ptr Lwip_data_cb" and "awake st s"
  shows "res_all (\<lambda>(r, st'). attends s st st') (recv_loop e s tp q off st)"
  using assms
proof (induction e s tp q off st rule: recv_loop.induct)
  case (1 e s tp off st)
  then show ?case by (simp add: attends_def)
next
  case (2 e s tp p ps off st)
  define try_len data fd wlen where
    "try_len = pb_len p - off" and "data = take try_len (drop off (pb_payload p))" and
    "fd = sk_fd (sock_pool st s)" and "wlen = en_write e (trace st) fd data"
  define st1 where "st1 = act (A_write fd data wlen) st"
  define st3 where
    "st3 = act (A_tcp_recved tp (nat wlen)) (upd_sock s (\<lambda>k. k\<lparr>sk_done_len := sk_done_len k + nat wlen\<rparr>) st1)"
  have a: "attends s st3 = attends s st" "attends s st st3" "awake st3 s" "sk_ev (sock_pool st3 s) \<noteq> Ptr Lwip_data_cb"
    using 2(2,3) by (simp_all add: st3_def st1_def attends_def awake_def)
  moreover have "res_all (attends s st) (ocp_sock_del s st1)"
    using ocp_sock_del_attends [of st1 s] 2(2) by (simp add: st1_def)
  ultimately show ?case
    using 2(1) [OF try_len_def data_def fd_def wlen_def st1_def _ refl st3_def [unfolded act_simps]]
    by (auto simp: Let_def simp flip: try_len_def data_def fd_def wlen_def st1_def st3_def elim: res_all_mono)
qed

lemma recv_cb_calm:
  assumes "sk_ev (sock_pool st s) \<noteq> Ptr Lwip_data_cb" and "awake st s"
  shows "res_all (\<lambda>(err, st'). attends s st st') (recv_cb e (Some s) tp c st)"
proof -
  have any: "(\<And>x. P x) \<Longrightarrow> res_all P (pbuf_free c)" for P by (blast intro: res_allI)
  have "attends s st (upd_sock s (\<lambda>k. k\<lparr>sk_done_len := 0\<rparr>) st')" if "attends s st st'" for st'
    using that by (simp add: attends_def awake_def)
  then show ?thesis
    using ocp_sock_del_attends [OF assms(1)]
    by (auto simp: recv_cb_def split: prod.split option.split intro!: any res_all_mono [OF recv_loop_calm [OF assms]]
        elim: res_all_mono)
qed

lemma sent_cb_calm:
  assumes "awake st s"
  shows "res_all (\<lambda>(err, st'). attends s st st') (sent_cb (Some s) st)"
  using assms event_add_attends [of s "upd_sock s (\<lambda>k. k\<lparr>sk_lwip_blocked := False\<rparr>) st"]
  by (auto simp: sent_cb_def attends_def elim: res_all_mono)

lemma connect_cb_attends: "res_all (\<lambda>(err, st'). attends s st st') (connect_cb e (Some s) tp st)"
proof -
  have add: "res_all (\<lambda>st2. res_all (attends s st) (upd_pcb tp f st2)) (event_add s (upd_sock s g st1))"
    if "\<And>t. t \<noteq> s \<Longrightarrow> sock_pool st1 t = sock_pool st t \<and> pending st1 t = pending st t" for st1 f g
  proof -
    have "attends s (upd_sock s g st1) = attends s st" using attends_from [OF that] by simp
    with event_add_attends [of s "upd_sock s g st1"] have "res_all (attends s st) (event_add s (upd_sock s g st1))" by simp
    then show ?thesis
      by (rule res_all_mono) (rule res_all_mono [OF upd_pcb_attends], blast intro: attends_view)
  qed
  have del: "res_all (\<lambda>st2. \<forall>t. t \<noteq> s \<longrightarrow> sock_pool st2 t = sock_pool st t \<and> pending st2 t = pending st t) (ocp_sock_del s (act a st))" for a
    by (auto simp: ocp_sock_del_def tcp_arg_def upd_pcb_def tcp_close_def event_free_def Let_def split: ptr.split option.split)
  show ?thesis
    by (auto simp: connect_cb_def socks_reply_def Let_def split: ptr.split option.split intro!: res_all_mono [OF del] add)
qed

lemma new_conn_cb_calm:
  assumes "env_ok e" and "dns_wf st" and ok: "ocp_ok {} fl w st" and "0 \<le> fd"
  shows "res_all (calm st) (new_conn_cb e l fd st)"
  using assms(1) ok assms(4)
proof (cases rule: ocp_sock_new_ok [where cb = "if sk_conn_type (sock_pool st l) = 0 then Local_data_cb else Socks_cmd_cb"])
  case 1
  then show ?thesis by (simp add: new_conn_cb_def warn_def calm_def awake_def)
next
  case (2 s fl' st')
  have at: "attends s st' = attends s st" by (rule attends_from) (simp add: 2(4,9))
  have ev: "sk_ev (sock_pool st' s) \<noteq> Ptr Lwip_data_cb" using 2(4) by simp
  have "res_all (attends s st) (start_resolution e s h (upd_sock s f st'))" if "\<And>k. sk_ev (f k) = sk_ev k" for h f
    using start_resolution_attends [of "upd_sock s f st'" s e h] ev at assms(2) 2(6) that by simp
  moreover have "res_all (attends s st) (event_add s (upd_sock s f st'))" for f
    using event_add_attends [of s "upd_sock s f st'"] at by simp
  ultimately have "res_all (attends s st) (new_conn_cb e l fd st)"
    using 2(2) by (auto simp: new_conn_cb_def Let_def upd_sock_upd_sock split: ptr.split)
  then show ?thesis by (rule res_all_mono) (rule attends_calm)
qed

definition no_stall :: "ocp \<Rightarrow> bool" where
  "no_stall st \<longleftrightarrow> (\<forall>t. awake st t)"

lemma no_stall_calm: "no_stall st \<Longrightarrow> calm st st' \<Longrightarrow> no_stall st'"
  by (simp add: no_stall_def calm_def)

lemma no_stall_view: "no_stall st \<Longrightarrow> sock_pool st' = sock_pool st \<Longrightarrow> pending st' = pending st \<Longrightarrow> no_stall st'"
  by (simp add: no_stall_def awake_def)

lemma attends_no_stall: "no_stall st \<Longrightarrow> res_all (attends s st) r \<Longrightarrow> res_all no_stall r"
  by (erule res_all_mono) (blast intro: no_stall_calm attends_calm)

lemma attends_no_stall2: "no_stall st \<Longrightarrow> res_all (\<lambda>(x, st'). attends s st st') r \<Longrightarrow> res_all (\<lambda>(x, st'). no_stall st') r"
  by (erule res_all_mono) (auto intro: no_stall_calm attends_calm)

lemma block_calm:
  assumes "good st" and "no_stall st" and "enabled ev st"
    and "ev \<in> {Connected p, Received p c, Sent p, Tcp_error p, Tcp_changed p n q ip port, Tcp_freed p}"
  shows "res_all no_stall (dispatch e ev st)"
proof -
  obtain fl where fl: "ocp_ok {} fl (waiter st) st" using assms(1) by (auto simp: good_iff)
  obtain b where b: "pcbs st p = Some b" using assms(3,4) by (auto split: option.splits)
  have pcb: "no_stall (st\<lparr>pcbs := x\<rparr>)" for x by (rule no_stall_view [OF assms(2)]) simp_all
  show ?thesis
  proof (cases "pc_arg b")
    case None
    then show ?thesis using assms(2-4) b pcb
      by (auto simp: connect_cb_def recv_cb_def sent_cb_def tcp_err_cb_def upd_pcb_def)
  next
    case (Some s)
    have ev: "sk_ev (sock_pool st s) \<noteq> Ptr Lwip_data_cb" using live_tpcb [OF fl b Some] by (auto simp: is_conn_def)
    have aw: "awake st s" using assms(2) by (simp add: no_stall_def)
    have "res_all (\<lambda>(x, st'). no_stall st') (connect_cb e (Some s) p (st\<lparr>pcbs := y\<rparr>))" for y
      using attends_no_stall2 [OF pcb connect_cb_attends] .
    moreover have "res_all (\<lambda>(x, st'). no_stall st') (recv_cb e (Some s) p c st)"
      by (rule attends_no_stall2 [OF assms(2) recv_cb_calm [OF ev aw]])
    moreover have "res_all (\<lambda>(x, st'). no_stall st') (sent_cb (Some s) st)"
      by (rule attends_no_stall2 [OF assms(2) sent_cb_calm [OF aw]])
    moreover have "res_all no_stall (tcp_err_cb e (Some s) (st\<lparr>pcbs := y\<rparr>))" for y
      by (rule attends_no_stall [OF pcb tcp_err_cb_attends]) (simp add: ev)
    ultimately show ?thesis using assms(4) b Some pcb
      by (auto simp: upd_pcb_def split_def elim: res_all_mono)
  qed
qed

lemma dispatch_no_stall:
  assumes "env_ok e" and "good st" and "no_stall st" and "enabled ev st"
  shows "res_all no_stall (dispatch e ev st)"
proof (cases ev)
  case (Fd_ready s)
  then have "pending st s" using assms(4) by simp
  obtain fl where "ev_ready (sock_pool st s)" "dns_wf st" using pending_slot [OF assms(2) \<open>pending st s\<close>] by metis
  then have "res_all (attends s (fired s st)) (dispatch e ev st)" unfolding Fd_ready
    by (auto simp: ev_ready_def simp del: attends_simps
      intro!: local_data_cb_attends socks_cmd_cb_attends lwip_data_cb_attends)
  then show ?thesis using attends_no_stall [OF assms(3)] by simp
next
  case (Accepted l fd)
  obtain fl where fl: "ocp_ok {} fl (waiter st) st" "dns_wf st" using assms(2) by (auto simp: good_iff)
  have "res_all (calm st) (new_conn_cb e l fd st)"
    by (rule new_conn_cb_calm [OF assms(1) fl(2,1)]) (use assms(4) Accepted in simp)
  then show ?thesis unfolding Accepted dispatch.simps
    by (rule res_all_mono) (rule no_stall_calm [OF assms(3)])
next
  case (Dns_packet c)
  have "client_ok (\<lambda>w st'. ocp_inv w st' \<and> calm st st') st" using assms(2) by (simp add: client_ok_def calm_def)
  from ocp_calm.recv_ok [OF this] have "res_all (client_ok (\<lambda>w st'. ocp_inv w st' \<and> calm st st')) (dispatch e ev st)"
    using assms(4) Dns_packet by simp
  then show ?thesis by (rule res_all_mono) (use no_stall_calm [OF assms(3)] in \<open>auto simp: client_ok_def\<close>)
next
  case Dns_timer
  have "client_ok (\<lambda>w st'. ocp_inv w st' \<and> calm st st') st" using assms(2) by (simp add: client_ok_def calm_def)
  from res_safe_all [OF ocp_calm.tmr_ok [OF this]]
  have "res_all (client_ok (\<lambda>w st'. ocp_inv w st' \<and> calm st st')) (dispatch e ev st)"
    using Dns_timer by (simp add: cb_dns_tmr_def)
  then show ?thesis by (rule res_all_mono) (use no_stall_calm [OF assms(3)] in \<open>auto simp: client_ok_def\<close>)
next
  case (Ip_output s c)
  have "sock_pool (snd (lwip_data_out e s c st)) = sock_pool st \<and> pending (snd (lwip_data_out e s c st)) = pending st"
    by (simp add: lwip_data_out_def Let_def warn_def vpn_conn_down_def split: option.split)
  then show ?thesis using no_stall_view [OF assms(3)] Ip_output by simp
next
  case (Housekeeping fd)
  have "sock_pool (cb_housekeeping e fd st) = sock_pool st \<and> pending (cb_housekeeping e fd st) = pending st"
    by (simp add: cb_housekeeping_def Let_def vpn_conn_down_def)
  then show ?thesis using no_stall_view [OF assms(3)] Housekeeping by simp
next
  case (Signal x)
  have "sock_pool (handle_sig x st) = sock_pool st \<and> pending (handle_sig x st) = pending st" by (cases x) simp_all
  then show ?thesis using no_stall_view [OF assms(3)] Signal by simp
qed (rule block_calm [OF assms(2-4)]; simp)+

lemma reach_no_stall: "reach e st0 st \<Longrightarrow> env_ok e \<Longrightarrow> good st0 \<Longrightarrow> no_stall st0 \<Longrightarrow> no_stall st"
proof (induction rule: reach.induct)
  case (reach_step st st')
  from reach_step.hyps(2) obtain ev where "enabled ev st" "dispatch e ev st = Ok st'" by (auto elim: loop_stepE)
  with dispatch_no_stall [OF reach_step.prems(1) reach_good [OF reach_step.hyps(1) reach_step.prems(1,2)]
      reach_step.IH [OF reach_step.prems], of ev] show ?case by simp
qed

end
