(* ===== verification/Ocp_Main.thy ===== *)
theory Ocp_Main
  imports Ocp_Stall Netif
begin

text \<open>
  Start-up of \<^verbatim>\<open>src/ocproxy.c\<close>: numbers and port forwards on the command line, listeners, and \<^verbatim>\<open>main\<close>
  up to the event loop. \<^verbatim>\<open>getopt_long\<close> is not modelled: the options are given as the list it
  returns one by one. Nor are \<^verbatim>\<open>tcpdump_init\<close> and the \<^verbatim>\<open>-v\<close> flag, which only add diagnostics.
\<close>

subsection \<open>Numbers\<close>

definition digit_val :: "u8 \<Rightarrow> nat" where
  "digit_val c =
     (if in_range c 48 57 then unat c - 48
      else if in_range c 97 122 then unat c - 87
      else if in_range c 65 90 then unat c - 55 else 36)"

fun strtol_digits :: "nat \<Rightarrow> nat \<Rightarrow> cstr \<Rightarrow> nat \<times> cstr" where
  "strtol_digits base acc [] = (acc, [])"
| "strtol_digits base acc (c # cs) =
     (if digit_val c < base then strtol_digits base (acc * base + digit_val c) cs else (acc, c # cs))"

text \<open>\<^verbatim>\<open>strtol(s, &p, 0)\<close> with 64-bit \<^verbatim>\<open>long\<close>: the value and the text from \<^verbatim>\<open>p\<close> on.\<close>

definition strtol :: "cstr \<Rightarrow> int \<times> cstr" where
  "strtol s =
     (let t = dropWhile isspace s;
          neg = (cur t = 45);
          u = (if cur t = 45 \<or> cur t = 43 then tl t else t);
          hex = (cur u = 48 \<and> (cur (tl u) = 120 \<or> cur (tl u) = 88) \<and> digit_val (cur (tl (tl u))) < 16);
          base = (if hex then 16 else if cur u = 48 then 8 else 10);
          v = (if hex then tl (tl u) else u);
          (n, rest) = strtol_digits base 0 v
      in if rest = v then (0, s)
         else (max (- (2 ^ 63)) (min (2 ^ 63 - 1) (if neg then - int n else int n)), rest))"

definition ocp_atoi :: "cstr \<Rightarrow> int res" where
  "ocp_atoi s =
     (let (val, p) = strtol s in if s = [] \<or> p \<noteq> [] then Stop Die else Ok (sint (word_of_int val :: 32 word)))"

text \<open>\<^verbatim>\<open>strsep\<close>: the token and what is left, NULL when the separator does not occur.\<close>

definition strsep :: "u8 \<Rightarrow> cstr \<Rightarrow> cstr \<times> cstr option" where
  "strsep c s =
     (takeWhile (\<lambda>x. x \<noteq> c) s, case dropWhile (\<lambda>x. x \<noteq> c) s of [] \<Rightarrow> None | _ # r \<Rightarrow> Some r)"

text \<open>\<^verbatim>\<open>strrchr\<close>: the text before and after the last occurrence.\<close>

definition strrchr :: "u8 \<Rightarrow> cstr \<Rightarrow> (cstr \<times> cstr) option" where
  "strrchr c s =
     (case dropWhile (\<lambda>x. x \<noteq> c) (rev s) of
        [] \<Rightarrow> None
      | _ # r \<Rightarrow> Some (rev r, rev (takeWhile (\<lambda>x. x \<noteq> c) (rev s))))"

subsection \<open>Listeners\<close>

text \<open>A slot without a file descriptor gets no event, whatever function is named.\<close>

definition new_listener :: "env \<Rightarrow> int \<Rightarrow> ocp \<Rightarrow> (nat \<times> ocp) res" where
  "new_listener e port st =
     res_bind (ocp_sock_new e (-1) Local_data_cb FL_DIE_ON_ERROR st) (\<lambda>(r, st1).
       case r of
         None \<Rightarrow> Stop Fault
       | Some s \<Rightarrow> Ok (s, upd_sock s (\<lambda>k. k\<lparr>sk_lport := port, sk_listen_cb := Ptr New_conn_cb\<rparr>) st1))"

definition fwd_add :: "env \<Rightarrow> cstr \<Rightarrow> ocp \<Rightarrow> ocp res" where
  "fwd_add e opt st =
     (case strsep 58 opt of
        (p, None) \<Rightarrow> Stop Die
      | (p, Some str) \<Rightarrow>
          res_bind (ocp_atoi p) (\<lambda>lport.
          case strsep 58 str of
            (h, None) \<Rightarrow> Stop Die
          | (h, Some str') \<Rightarrow>
              res_bind (new_listener e lport st) (\<lambda>(s, st1).
              res_bind (ocp_atoi str') (\<lambda>rport.
                let st2 = upd_sock s (\<lambda>k. k\<lparr>sk_rhost_name := Ptr h, sk_rport := rport, sk_conn_type := CONN_TYPE_REDIR\<rparr>) st1
                in if rport \<le> 0 then Stop Die else Ok st2))))"

definition dyn_fwd :: "env \<Rightarrow> cstr \<Rightarrow> ocp \<Rightarrow> ocp res" where
  "dyn_fwd e arg st =
     res_bind
       (case strrchr 58 arg of
          Some (addr, port) \<Rightarrow>
            res_bind (ocp_atoi port) (\<lambda>n.
            res_bind (new_listener e n st) (\<lambda>(s, st1).
              Ok (s, upd_sock s (\<lambda>k. k\<lparr>sk_bind_addr := Ptr addr\<rparr>) st1)))
        | None \<Rightarrow> res_bind (ocp_atoi arg) (\<lambda>n. new_listener e n st)) (\<lambda>(s, st2).
       Ok (upd_sock s (\<lambda>k. k\<lparr>sk_conn_type := CONN_TYPE_SOCKS\<rparr>) st2))"

text \<open>
  What \<^verbatim>\<open>main\<close> finds outside the program: the process environment, and the results of
  \<^verbatim>\<open>event_base_new\<close>, \<^verbatim>\<open>udp_new\<close>, \<^verbatim>\<open>inet_aton\<close> and \<^verbatim>\<open>evconnlistener_new_bind\<close>; \<open>mv_pad\<close> are the bytes
  by which the resolver's payload buffer is longer than needed.
\<close>

record main_env =
  mv_getenv :: "string \<Rightarrow> cstr option"
  mv_event_base :: bool
  mv_udp_new :: bool
  mv_inet_aton :: "cstr \<Rightarrow> ip_addr option"
  mv_listen :: "history \<Rightarrow> ip_addr \<Rightarrow> u16 \<Rightarrow> bool"
  mv_pad :: nat

definition listen_addr :: "main_env \<Rightarrow> ocp_sock \<Rightarrow> ocp \<Rightarrow> ip_addr option" where
  "listen_addr mv k st =
     (case sk_bind_addr k of
        Ptr a \<Rightarrow> mv_inet_aton mv a
      | _ \<Rightarrow> Some (lwip_htonl (if allow_remote st then 0 else 0x7f000001)))"

partial_function (option) bind_loop :: "main_env \<Rightarrow> nat option \<Rightarrow> ocp \<Rightarrow> ocp res option" where
  "bind_loop mv t st =
     (case t of
        None \<Rightarrow> Some (Ok st)
      | Some s \<Rightarrow>
          let k = sock_pool st s in
          if sk_listen_cb k = Null then bind_loop mv (sk_next k) st
          else if sk_lport k < 1 \<or> sk_lport k > 65535 then Some (Stop Die)
          else case listen_addr mv k st of
                 None \<Rightarrow> Some (Stop Die)
               | Some a \<Rightarrow>
                   let port = lwip_htons (of_int (sk_lport k)) in
                   if mv_listen mv (trace st) a port
                   then bind_loop mv (sk_next k) (upd_sock s (\<lambda>k. k\<lparr>sk_listener := True\<rparr>) (act (A_listen s a port) st))
                   else Some (Stop Die))"

definition bind_all_listeners :: "main_env \<Rightarrow> ocp \<Rightarrow> ocp res option" where
  "bind_all_listeners mv st = bind_loop mv (sock_bind_list st) st"

subsection \<open>Options\<close>

datatype opt =
    Opt_I cstr | Opt_M cstr | Opt_d cstr | Opt_o cstr | Opt_D cstr | Opt_k cstr | Opt_g | Opt_L cstr
  | Opt_v | Opt_T | Opt_bad

record main_vars =
  ip_str :: "cstr option"
  mtu_str :: "cstr option"
  dns_str :: "cstr option"

fun main_opt :: "env \<Rightarrow> opt \<Rightarrow> main_vars \<times> ocp \<Rightarrow> (main_vars \<times> ocp) res" where
  "main_opt e (Opt_I a) (v, st) = Ok (v\<lparr>ip_str := Some a\<rparr>, st)"
| "main_opt e (Opt_M a) (v, st) = Ok (v\<lparr>mtu_str := Some a\<rparr>, st)"
| "main_opt e (Opt_d a) (v, st) = Ok (v\<lparr>dns_str := Some a\<rparr>, st)"
| "main_opt e (Opt_o a) (v, st) = Ok (v, st\<lparr>dns_domain := Some a\<rparr>)"
| "main_opt e (Opt_D a) (v, st) = res_bind (dyn_fwd e a st) (\<lambda>st1. Ok (v, st1))"
| "main_opt e (Opt_k a) (v, st) = res_bind (ocp_atoi a) (\<lambda>n. Ok (v, st\<lparr>keep_intvl := n\<rparr>))"
| "main_opt e Opt_g (v, st) = Ok (v, st\<lparr>allow_remote := True\<rparr>)"
| "main_opt e (Opt_L a) (v, st) = res_bind (fwd_add e a st) (\<lambda>st1. Ok (v, st1))"
| "main_opt e Opt_v (v, st) = Ok (v, st)"
| "main_opt e Opt_T (v, st) = Ok (v, st\<lparr>tcpdump_enabled := True\<rparr>)"
| "main_opt e Opt_bad (v, st) = Stop Die"

subsection \<open>The program up to the event loop\<close>

text \<open>The globals before \<^verbatim>\<open>main\<close>, and the pool with all slots chained.\<close>

definition ocp0 :: "main_env \<Rightarrow> ocp" where
  "ocp0 mv = \<lparr>dns_pcb = False, dns_remote = 0, dns_seqno = 0, dns_table = (\<lambda>_. zero_entry), dns_servers = (\<lambda>_. 0),
     dns_payload = replicate (DNS_MSG_SIZE + mv_pad mv) 0, dns_sent = [],
     sock_pool = (\<lambda>_. zero_sock), sock_free_list = None, sock_bind_list = None, sock_used = 0, sock_max = 0,
     keep_intvl = 0, dns_domain = None, allow_remote = False, tcpdump_enabled = False, got_sighup = False,
     got_sigusr1 = False, link_recv = 0, link_xmit = 0, link_drop = 0, link_lenerr = 0,
     pending = (\<lambda>_. False), pcbs = (\<lambda>_. None), next_pcb = 0, trace = []\<rparr>"

definition init_pool :: "ocp \<Rightarrow> ocp" where
  "init_pool st =
     fold (\<lambda>i. upd_sock (i - 1) (\<lambda>k. k\<lparr>sk_next := Some i\<rparr>)) [1..<MAX_CONN] (st\<lparr>sock_free_list := Some 0\<rparr>)"

definition new_periodic_event :: "env \<Rightarrow> ocp \<Rightarrow> ocp res" where
  "new_periodic_event e st =
     (let ok = en_event_new e (trace st) in if ok then Ok (act (A_event_new ok) st) else Stop Die)"

datatype netif_out = Lwip_data_out

definition init_oc_netif :: "(nat, netif_out) netif_obj \<Rightarrow> err_t \<times> (nat, netif_out) netif_obj" where
  "init_oc_netif k = (ERR_OK, k\<lparr>nif_name := (117, 110), nif_output := Some Lwip_data_out\<rparr>)"

definition zero_netifs :: "(nat, netif_out) netifs" where
  "zero_netifs = \<lparr>nf_obj = (\<lambda>_. \<lparr>nif_ip_addr = 0, nif_netmask = 0, nif_gw = 0, nif_mtu = 0, nif_flags = 0,
       nif_name = (0, 0), nif_next = None, nif_num = 0, nif_state = None, nif_output = None\<rparr>),
     netif_list = None, netif_default = None, netif_num = 0, nf_active = [], nf_listen = []\<rparr>"

text \<open>Setting up the interface object 0 for the slot \<open>s\<close> of the VPN.\<close>

definition main_netif :: "nat \<Rightarrow> ip_addr \<Rightarrow> int \<Rightarrow> (nat, netif_out) netifs" where
  "main_netif s ip mtu =
     netif_set_up 0 (netif_set_default (Some 0)
       (upd_netif 0 (\<lambda>k. k\<lparr>nif_mtu := of_int mtu\<rparr>)
         (snd (netif_add 0 (Some ip) (Some 0) (Some 0) (Some s) init_oc_netif zero_netifs))))"

definition main_dns :: "main_env \<Rightarrow> cstr option \<Rightarrow> ocp \<Rightarrow> ocp res" where
  "main_dns mv dns st =
     (let st1 = dns_init (mv_udp_new mv) st in
      case dns of
        None \<Rightarrow> Ok st1
      | Some d \<Rightarrow> (case ipaddr_aton d of None \<Rightarrow> Stop Die | Some a \<Rightarrow> Ok (dns_setserver 0 (Some a) st1)))"

text \<open>``Set up lwIP interface'': the slot of the VPN, the resolver and the interface.\<close>

definition main_vpn ::
    "env \<Rightarrow> main_env \<Rightarrow> int \<Rightarrow> cstr option \<Rightarrow> ip_addr \<Rightarrow> cstr \<Rightarrow> ocp \<Rightarrow> ((nat, netif_out) netifs \<times> ocp) res" where
  "main_vpn e mv vpnfd dns ip mtu st =
     res_bind (ocp_sock_new e vpnfd Lwip_data_cb (FL_ACTIVATE OR FL_DIE_ON_ERROR) st) (\<lambda>(r, st1).
     case r of
       None \<Rightarrow> Stop Fault
     | Some s \<Rightarrow>
         res_bind (main_dns mv dns (upd_sock s (\<lambda>k. k\<lparr>sk_netif := Ptr ()\<rparr>) st1)) (\<lambda>st2.
         res_bind (ocp_atoi mtu) (\<lambda>n. Ok (main_netif s ip n, st2))))"

text \<open>\<^verbatim>\<open>main\<close> up to \<^verbatim>\<open>netif_set_up\<close>.\<close>

definition main_setup :: "env \<Rightarrow> main_env \<Rightarrow> opt list \<Rightarrow> ((nat, netif_out) netifs \<times> ocp) res" where
  "main_setup e mv opts =
     res_bind (if mv_event_base mv then Ok (init_pool (ocp0 mv)) else Stop Die) (\<lambda>st0.
     res_bind (case mv_getenv mv ''VPNFD'' of None \<Rightarrow> Stop Die | Some s \<Rightarrow> ocp_atoi s) (\<lambda>vpnfd.
     res_bind (res_fold (main_opt e) opts
       (\<lparr>ip_str = mv_getenv mv ''INTERNAL_IP4_ADDRESS'', mtu_str = mv_getenv mv ''INTERNAL_IP4_MTU'',
         dns_str = map_option (takeWhile (\<lambda>c. c \<noteq> 32)) (mv_getenv mv ''INTERNAL_IP4_DNS'')\<rparr>,
        st0\<lparr>dns_domain := mv_getenv mv ''CISCO_DEF_DOMAIN''\<rparr>)) (\<lambda>(v, st1).
     res_bind (case (ip_str v, mtu_str v) of (Some i, Some m) \<Rightarrow> Ok (i, m) | _ \<Rightarrow> Stop Die) (\<lambda>(i, m).
     res_bind (case ipaddr_aton i of None \<Rightarrow> Stop Die | Some ip \<Rightarrow> Ok ip) (\<lambda>ip.
     main_vpn e mv vpnfd (dns_str v) ip m st1)))))"

text \<open>The result: the state the event loop starts in, and the interfaces. None: \<^verbatim>\<open>main\<close> hangs.\<close>

definition main_init :: "env \<Rightarrow> main_env \<Rightarrow> opt list \<Rightarrow> (ocp \<times> (nat, netif_out) netifs) res option" where
  "main_init e mv opts =
     (case main_setup e mv opts of
        Stop x \<Rightarrow> Some (Stop x)
      | Ok (nf, st3) \<Rightarrow>
          map_option (\<lambda>r.
              res_bind r (\<lambda>st4. res_bind (new_periodic_event e st4) (\<lambda>st5.
              res_bind (new_periodic_event e st5) (\<lambda>st6.
              res_bind (new_periodic_event e st6) (\<lambda>st7. Ok (st7, nf))))))
            (bind_all_listeners mv st3))"

subsection \<open>Start-up establishes the invariant\<close>

text \<open>
  The state while options are read: the slots taken so far are exactly those on the bind list, and
  the resolver is untouched.
\<close>

definition fresh :: "ocp \<Rightarrow> nat \<Rightarrow> bool" where
  "fresh st t \<longleftrightarrow> sk_state (sock_pool st t) = STATE_NEW \<and> (sk_ev (sock_pool st t) = Ptr Lwip_data_cb \<longrightarrow> pending st t)"

definition booting :: "nat list \<Rightarrow> nat list \<Rightarrow> ocp \<Rightarrow> bool" where
  "booting fl bl st \<longleftrightarrow>
     ocp_ok {} fl (\<lambda>_. None) st \<and> linked (\<lambda>s. sk_next (sock_pool st s)) (sock_bind_list st) bl \<and> distinct bl \<and>
     set bl = {..<1024} - set fl \<and> (\<forall>t. fresh st t) \<and> \<not> dns_pcb st \<and> dns_table st = (\<lambda>_. zero_entry) \<and> 512 \<le> length (dns_payload st)"

lemma init_pool_fold:
  "sock_pool (fold (\<lambda>i. upd_sock (i - 1) (\<lambda>k. k\<lparr>sk_next := Some i\<rparr>)) [1..<Suc n] st) s =
     (if s < n then (sock_pool st s)\<lparr>sk_next := Some (Suc s)\<rparr> else sock_pool st s)"
  by (induction n) auto

lemma fold_upd_sock_frame:
  "sock_free_list (fold (\<lambda>i. upd_sock (g i) (f i)) xs st) = sock_free_list st"
  "sock_used (fold (\<lambda>i. upd_sock (g i) (f i)) xs st) = sock_used st"
  "sock_bind_list (fold (\<lambda>i. upd_sock (g i) (f i)) xs st) = sock_bind_list st"
  "pending (fold (\<lambda>i. upd_sock (g i) (f i)) xs st) = pending st"
  "pcbs (fold (\<lambda>i. upd_sock (g i) (f i)) xs st) = pcbs st"
  "dns_pcb (fold (\<lambda>i. upd_sock (g i) (f i)) xs st) = dns_pcb st"
  "dns_table (fold (\<lambda>i. upd_sock (g i) (f i)) xs st) = dns_table st"
  "dns_payload (fold (\<lambda>i. upd_sock (g i) (f i)) xs st) = dns_payload st"
  "trace (fold (\<lambda>i. upd_sock (g i) (f i)) xs st) = trace st"
  "sock_max (fold (\<lambda>i. upd_sock (g i) (f i)) xs st) = sock_max st"
  "allow_remote (fold (\<lambda>i. upd_sock (g i) (f i)) xs st) = allow_remote st"
  by (induction xs arbitrary: st) (simp_all add: upd_sock_def)

lemma free_path_upt:
  assumes "\<And>s. s < n \<Longrightarrow> \<not> is_listener (pool s) \<and> sk_next (pool s) = (if Suc s < n then Some (Suc s) else None)"
  shows "a \<le> n \<Longrightarrow> free_path pool (if a < n then Some a else None) [a..<n]"
proof (induction "n - a" arbitrary: a)
  case 0
  then show ?case by simp
next
  case (Suc d)
  then have "a < n" and "free_path pool (if Suc a < n then Some (Suc a) else None) [Suc a..<n]" by auto
  with assms [of a] show ?case by (simp add: upt_conv_Cons)
qed

lemma init_pool_booting: "booting [0..<1024] [] (init_pool (ocp0 mv))"
proof -
  let ?st = "init_pool (ocp0 mv)"
  have "[1..<1024] = [1..<Suc 1023]" by simp
  then have pool: "sock_pool ?st s = (if s < 1023 then zero_sock\<lparr>sk_next := Some (Suc s)\<rparr> else zero_sock)" for s
    unfolding init_pool_def by (simp only: init_pool_fold) (simp add: ocp0_def)
  have "free_path (sock_pool ?st) (if 0 < (1024::nat) then Some 0 else None) [0..<1024]"
    by (rule free_path_upt) (auto simp: pool is_listener_def zero_sock_def)
  moreover have "sock_free_list ?st = Some 0" "sock_used ?st = 0" "sock_bind_list ?st = None" "pending ?st = (\<lambda>_. False)"
    "pcbs ?st = (\<lambda>_. None)" "\<not> dns_pcb ?st" "dns_table ?st = (\<lambda>_. zero_entry)" "512 \<le> length (dns_payload ?st)"
    by (simp_all add: init_pool_def fold_upd_sock_frame ocp0_def)
  moreover have "fresh ?st t" for t by (simp add: fresh_def pool)
  ultimately show ?thesis unfolding booting_def ocp_ok_def by auto
qed

text \<open>The resolver's part is unaffected by taking a slot.\<close>

lemma dns_frame [simp]:
  "dns_pcb (upd_sock s f st) = dns_pcb st" "dns_table (upd_sock s f st) = dns_table st"
  "dns_payload (upd_sock s f st) = dns_payload st" "dns_servers (upd_sock s f st) = dns_servers st"
  "dns_pcb (act a st) = dns_pcb st" "dns_table (act a st) = dns_table st"
  "dns_payload (act a st) = dns_payload st" "dns_servers (act a st) = dns_servers st"
  "dns_pcb (taken s st) = dns_pcb st" "dns_table (taken s st) = dns_table st"
  "dns_payload (taken s st) = dns_payload st" "dns_servers (taken s st) = dns_servers st"
  by (simp_all add: upd_sock_def act_def taken_def)

lemma booting_take:
  assumes b: "booting (s # fl) bl st" and "slot_ok (pcbs st) s k" and "sk_next k = sock_bind_list st"
    and st': "sock_pool st' = (sock_pool st)(s := k)" "sock_free_list st' = sk_next (sock_pool st s)"
      "sock_used st' = sock_used st + 1" "sock_bind_list st' = Some s" "pcbs st' = pcbs st" "next_pcb st' = next_pcb st"
      "dns_pcb st' = dns_pcb st" "dns_table st' = dns_table st" "dns_payload st' = dns_payload st"
    and pend: "pending st' = pending st \<or> pending st' = (pending st)(s := True) \<and> ev_ready k"
    and new: "sk_state k = STATE_NEW" "sk_ev k = Ptr Lwip_data_cb \<longrightarrow> pending st' s"
  shows "booting fl (s # bl) st'"
proof -
  have ok: "ocp_ok {} (s # fl) (\<lambda>_. None) st" using b by (simp add: booting_def)
  have s: "s < 1024" "s \<notin> set fl" "\<not> pending st s" using taken_ok(3) [OF ok] ocp_okD(2,3) [OF ok] by auto
  have "s \<notin> set bl" using b by (auto simp: booting_def)
  have "ocp_ok {s} fl (\<lambda>_. None) (taken s st)" by (rule taken_ok [OF ok])
  then have "ocp_ok {s} fl (\<lambda>_. None) (upd_sock s (\<lambda>_. k) (taken s st))" by simp
  then have "ocp_ok {} fl (\<lambda>_. None) (upd_sock s (\<lambda>_. k) (taken s st))"
    by (rule ocp_ok_close) (use assms(2) s(3) in simp_all)
  then have "ocp_ok {} fl (\<lambda>_. None) (st'\<lparr>pending := pending st\<rparr>)"
    by (rule ocp_ok_view) (simp_all add: st' taken_def)
  then have "ocp_ok {} fl (\<lambda>_. None) st'"
    using pend ocp_ok_arm [of fl "\<lambda>_. None" "st'\<lparr>pending := pending st\<rparr>" s] s(1,2)
    by (auto simp: st'(1) intro: ocp_ok_view)
  moreover have "linked (\<lambda>t. sk_next (sock_pool st' t)) (sock_bind_list st') (s # bl)"
    using b \<open>s \<notin> set bl\<close> assms(3) linked_cong [of bl "\<lambda>t. sk_next (sock_pool st' t)" "\<lambda>t. sk_next (sock_pool st t)"]
    by (auto simp: booting_def st')
  moreover have "fresh st' t" for t
    using b pend new by (cases "t = s") (auto simp: booting_def fresh_def st'(1))
  ultimately show ?thesis using b \<open>s \<notin> set bl\<close> s st' unfolding booting_def by auto
qed

lemma new_listener_cases:
  assumes "booting fl bl st"
  shows "case fl of
      [] \<Rightarrow> new_listener e port st = Stop Die
    | s # fl' \<Rightarrow> new_listener e port st =
        Ok (s, upd_sock s (\<lambda>k. k\<lparr>sk_lport := port, sk_listen_cb := Ptr New_conn_cb\<rparr>) (taken s st))"
proof -
  have ok: "ocp_ok {} fl (\<lambda>_. None) st" using assms by (simp add: booting_def)
  show ?thesis
  proof (cases fl)
    case Nil
    then have "sock_free_list st = None" using ocp_okD(1) [OF ok] by simp
    then show ?thesis using Nil by (simp add: new_listener_def ocp_sock_new_def)
  next
    case (Cons s fl')
    then show ?thesis using ocp_sock_new_taken [OF taken_ok(1) [OF ok [unfolded Cons]]] by (simp add: new_listener_def)
  qed
qed

definition listener_slot :: "int \<Rightarrow> cstr ptr \<Rightarrow> cstr ptr \<Rightarrow> int \<Rightarrow> int \<Rightarrow> ocp_sock \<Rightarrow> bool" where
  "listener_slot lport addr host rport ty k \<longleftrightarrow>
     is_listener k \<and> sk_ev k = Null \<and> sk_lport k = lport \<and> sk_bind_addr k = addr \<and> sk_rhost_name k = host \<and>
     sk_rport k = rport \<and> sk_conn_type k = ty"

text \<open>What \<^verbatim>\<open>-L\<close> and \<^verbatim>\<open>-D\<close> do: a new listener on the next free slot, or the end of the program.\<close>

definition adds_listener :: "nat list \<Rightarrow> nat list \<Rightarrow> ocp \<Rightarrow> ocp \<Rightarrow> bool" where
  "adds_listener fl bl st st' \<longleftrightarrow> (\<exists>s fl'. fl = s # fl' \<and> booting fl' (s # bl) st' \<and>
     (\<exists>lport addr host rport ty. listener_slot lport addr host rport ty (sock_pool st' s)) \<and>
     (\<forall>t. t \<noteq> s \<longrightarrow> sock_pool st' t = sock_pool st t) \<and> trace st' = trace st)"

lemma listener_booting:
  fixes f st
  defines "k \<equiv> f (zero_sock\<lparr>sk_next := sock_bind_list st\<rparr>)"
  assumes b: "booting (s # fl) bl st" and k: "listener_slot lport addr host rport ty k"
    and "ty = 0 \<Longrightarrow> \<exists>h. host = Ptr h"
    and "sk_next k = sock_bind_list st" "sk_state k = STATE_NEW" "sk_tpcb k = Null" "length (sk_sockbuf k) = 2048"
      "sk_sock_pos k = 0" "\<not> sk_lwip_blocked k"
  shows "adds_listener (s # fl) bl st (upd_sock s f (taken s st))"
proof -
  have "slot_ok (pcbs st) s k" using assms by (auto simp: slot_ok_def listener_slot_def)
  then have "booting fl (s # bl) (upd_sock s f (taken s st))"
    by (rule booting_take [OF b, of k])
      (use assms(5,6) k in \<open>simp_all add: k_def listener_slot_def\<close>, simp_all add: taken_def)
  then show ?thesis using k by (simp add: adds_listener_def k_def) blast
qed

declare upd_sock_upd_sock [simp]

lemma fwd_add_booting:
  assumes b: "booting fl bl st"
  shows "res_safe (adds_listener fl bl st) (fwd_add e opt st)"
proof (cases fl)
  case Nil
  then show ?thesis using new_listener_cases [OF b, of e]
    by (auto simp: fwd_add_def ocp_atoi_def Let_def split: prod.split option.split)
next
  case (Cons s fl')
  show ?thesis
    using new_listener_cases [OF b, of e]
    by (auto simp: fwd_add_def ocp_atoi_def Let_def Cons is_listener_def listener_slot_def
      intro!: listener_booting [OF b [unfolded Cons], where host = "Ptr h" and ty = 0 for h] split: prod.split option.split)
qed

lemma dyn_fwd_booting:
  assumes b: "booting fl bl st"
  shows "res_safe (adds_listener fl bl st) (dyn_fwd e arg st)"
proof (cases fl)
  case Nil
  then show ?thesis using new_listener_cases [OF b, of e]
    by (auto simp: dyn_fwd_def ocp_atoi_def Let_def split: prod.split option.split)
next
  case (Cons s fl')
  show ?thesis
    using new_listener_cases [OF b, of e]
    by (auto simp: dyn_fwd_def ocp_atoi_def Let_def Cons is_listener_def listener_slot_def
      intro!: listener_booting [OF b [unfolded Cons], where ty = 1] split: prod.split option.split)
qed

definition main_ok :: "main_vars \<times> ocp \<Rightarrow> bool" where
  "main_ok x \<longleftrightarrow> (\<exists>fl bl. booting fl bl (snd x))"

lemma booting_view:
  assumes "booting fl bl st" and "sock_pool st' = sock_pool st" "sock_free_list st' = sock_free_list st"
    "sock_used st' = sock_used st" "pending st' = pending st" "pcbs st' = pcbs st" "next_pcb st' = next_pcb st"
    "sock_bind_list st' = sock_bind_list st" "dns_pcb st' = dns_pcb st" "dns_table st' = dns_table st"
    "dns_payload st' = dns_payload st"
  shows "booting fl bl st'"
  using assms ocp_ok_view [OF _ assms(2-7)] by (simp add: booting_def fresh_def)

lemma main_opt_ok: "main_ok x \<Longrightarrow> res_safe main_ok (main_opt e opt x)"
proof -
  assume "main_ok x"
  then obtain v st fl bl where x: "x = (v, st)" and b: "booting fl bl st" by (cases x) (auto simp: main_ok_def)
  have add: "res_safe main_ok (res_bind r (\<lambda>st1. Ok (v, st1)))" if "res_safe (adds_listener fl bl st) r" for r
    using that by (cases r) (auto simp: main_ok_def adds_listener_def)
  have same: "main_ok (v', st')" if "booting fl bl st'" for v' st' using that by (auto simp: main_ok_def)
  have upd: "booting fl bl (st\<lparr>dns_domain := d\<rparr>)" "booting fl bl (st\<lparr>keep_intvl := n\<rparr>)"
    "booting fl bl (st\<lparr>allow_remote := r\<rparr>)" "booting fl bl (st\<lparr>tcpdump_enabled := r\<rparr>)" for d n r
    by (rule booting_view [OF b]; simp)+
  show ?thesis unfolding x
    using add [OF fwd_add_booting [OF b]] add [OF dyn_fwd_booting [OF b]] same [OF b] same [OF upd(1)] same [OF upd(2)]
      same [OF upd(3)] same [OF upd(4)]
    by (cases opt) (simp_all add: ocp_atoi_def Let_def split: prod.split del: res_safe_bind)
qed

text \<open>The slot of the VPN.\<close>

lemma vpn_sock_booting:
  assumes "env_ok e" and b: "booting fl bl st"
  shows "res_safe (\<lambda>(r, st'). \<exists>s fl'. r = Some s \<and> booting fl' (s # bl) (upd_sock s (\<lambda>k. k\<lparr>sk_netif := Ptr ()\<rparr>) st'))
    (ocp_sock_new e fd Lwip_data_cb (FL_ACTIVATE OR FL_DIE_ON_ERROR) st)"
proof -
  have ok: "ocp_ok {} fl (\<lambda>_. None) st" using b by (simp add: booting_def)
  show ?thesis
  proof (cases fl)
    case Nil
    then have "sock_free_list st = None" using ocp_okD(1) [OF ok] by simp
    then show ?thesis by (simp add: ocp_sock_new_def)
  next
    case (Cons s fl')
    note t = taken_ok [OF ok [unfolded Cons]]
    let ?st1 = "upd_sock s (\<lambda>k. k\<lparr>sk_netif := Ptr ()\<rparr>) (taken s st)"
    let ?st2 = "upd_sock s (\<lambda>k. k\<lparr>sk_fd := fd, sk_ev := Ptr Lwip_data_cb\<rparr>) (act (A_event_new True) (taken s st))"
    let ?st3 = "upd_sock s (\<lambda>k. k\<lparr>sk_netif := Ptr ()\<rparr>) (?st2\<lparr>pending := (pending st)(s := True)\<rparr>)"
    have "booting fl' (s # bl) ?st1"
      by (rule booting_take [OF b [unfolded Cons], of "sock_pool ?st1 s"])
        (auto simp: slot_ok_def is_listener_def zero_sock_def, simp_all add: taken_def)
    moreover have "booting fl' (s # bl) ?st3"
      by (rule booting_take [OF b [unfolded Cons], of "sock_pool ?st3 s"])
        (auto simp: slot_ok_def zero_sock_def ev_ready_def, simp_all add: taken_def act_def upd_sock_def)
    moreover have "en_event_new e h" for h using assms(1) by (simp add: env_ok_def)
    ultimately show ?thesis by (auto simp: ocp_sock_new_taken [OF t(1)] event_add_def Let_def)
  qed
qed

text \<open>The bind list is finite, so all listeners are bound or the program ends.\<close>

lemma bind_loop_simps [simp]:
  "bind_loop mv None st = Some (Ok st)"
  "bind_loop mv (Some s) st =
     (let k = sock_pool st s in
      if sk_listen_cb k = Null then bind_loop mv (sk_next k) st
      else if sk_lport k < 1 \<or> sk_lport k > 65535 then Some (Stop Die)
      else case listen_addr mv k st of
             None \<Rightarrow> Some (Stop Die)
           | Some a \<Rightarrow>
               let port = lwip_htons (of_int (sk_lport k)) in
               if mv_listen mv (trace st) a port
               then bind_loop mv (sk_next k) (upd_sock s (\<lambda>k. k\<lparr>sk_listener := True\<rparr>) (act (A_listen s a port) st))
               else Some (Stop Die))"
  by (subst bind_loop.simps, simp)+

definition bound :: "nat list \<Rightarrow> nat list \<Rightarrow> ocp \<Rightarrow> ocp \<Rightarrow> bool" where
  "bound fl bl st st' \<longleftrightarrow>
     ocp_ok {} fl (\<lambda>_. None) st' \<and> dns_wf st' = dns_wf st \<and> waiter st' = waiter st \<and> pending st' = pending st \<and>
     sock_pool st' = (\<lambda>s. if s \<in> set bl \<and> sk_listen_cb (sock_pool st s) \<noteq> Null
                          then (sock_pool st s)\<lparr>sk_listener := True\<rparr> else sock_pool st s) \<and>
     (\<forall>s\<in>set bl. sk_listen_cb (sock_pool st s) = Null \<or>
        1 \<le> sk_lport (sock_pool st s) \<and> sk_lport (sock_pool st s) \<le> 65535)"

lemma bind_loop_bound:
  assumes "linked (\<lambda>s. sk_next (sock_pool st s)) t bl" and "ocp_ok {} fl (\<lambda>_. None) st"
    and "set bl \<subseteq> {..<1024} - set fl" and "distinct bl"
  shows "\<exists>r. bind_loop mv t st = Some r \<and> res_safe (bound fl bl st) r"
  using assms
proof (induction bl arbitrary: t st)
  case Nil
  then show ?case by (simp add: bound_def)
next
  case (Cons s bl)
  have l: "t = Some s" "linked (\<lambda>s. sk_next (sock_pool st s)) (sk_next (sock_pool st s)) bl"
    and s: "s < 1024" "s \<notin> set fl" "s \<notin> set bl" "set bl \<subseteq> {..<1024} - set fl" "distinct bl"
    using Cons.prems by auto
  show ?case
  proof (cases "sk_listen_cb (sock_pool st s) = Null")
    case True
    from Cons.IH [OF l(2) Cons.prems(2) s(4,5)] obtain r
      where r: "bind_loop mv (sk_next (sock_pool st s)) st = Some r" "res_safe (bound fl bl st) r" by blast
    have "bound fl (s # bl) st st'" if "bound fl bl st st'" for st'
      using that s(3) True by (auto simp: bound_def fun_eq_iff)
    with r True l(1) show ?thesis by (auto elim: res_safe_mono)
  next
    case False
    let ?st = "\<lambda>a p. upd_sock s (\<lambda>k. k\<lparr>sk_listener := True\<rparr>) (act (A_listen s a p) st)"
    have ok: "ocp_ok {} fl (\<lambda>_. None) (?st a p)" for a p
      by (rule ocp_ok_upd) (use Cons.prems(2) s ocp_ok_live [OF Cons.prems(2) s(1,2)] ocp_okD(7) [OF Cons.prems(2), of s]
          in \<open>auto simp: slot_ok_def ev_ready_def is_listener_def split: ptr.splits if_splits\<close>)
    have lk: "linked (\<lambda>x. sk_next (sock_pool (?st a p) x)) (sk_next (sock_pool st s)) bl" for a p
      using l(2) s(3) linked_cong [of bl "\<lambda>x. sk_next (sock_pool (?st a p) x)" "\<lambda>x. sk_next (sock_pool st x)"] by auto
    have "bound fl (s # bl) st st'" if "bound fl bl (?st a p) st'" "1 \<le> sk_lport (sock_pool st s)" "sk_lport (sock_pool st s) \<le> 65535" for st' a p
      using that s(3) False by (auto simp: bound_def fun_eq_iff split: if_splits)
    note fin = this
    consider "bind_loop mv (Some s) st = Some (Stop Die)"
      | a p where "bind_loop mv (Some s) st = bind_loop mv (sk_next (sock_pool st s)) (?st a p)"
        "1 \<le> sk_lport (sock_pool st s)" "sk_lport (sock_pool st s) \<le> 65535"
    proof (cases "\<exists>a. listen_addr mv (sock_pool st s) st = Some a \<and> 1 \<le> sk_lport (sock_pool st s) \<and>
        sk_lport (sock_pool st s) \<le> 65535 \<and> mv_listen mv (trace st) a (lwip_htons (of_int (sk_lport (sock_pool st s))))")
      case True
      then show ?thesis using False that(2) by (auto simp: Let_def)
    next
      case neg: False
      have "bind_loop mv (Some s) st = Some (Stop Die)" using False neg by (auto simp: Let_def split: option.split)
      then show ?thesis by (rule that(1))
    qed
    then show ?thesis
    proof cases
      case 1
      then show ?thesis unfolding l(1) by simp
    next
      case (2 a p)
      from Cons.IH [OF lk ok s(4,5)] obtain r where
        r: "bind_loop mv (sk_next (sock_pool st s)) (?st a p) = Some r" "res_safe (bound fl bl (?st a p)) r" by blast
      have "res_safe (bound fl (s # bl) st) r" using r(2) by (rule res_safe_mono) (rule fin [OF _ 2(2,3)])
      with r(1) 2(1) l(1) show ?thesis by simp
    qed
  qed
qed

lemma default_server: "ipaddr_addr (lit ''208.67.222.222'') = u32_of 208 67 222 222"
  by code_simp

text \<open>The resolver is set up once the options are read.\<close>

lemma main_dns_ok:
  assumes b: "booting fl bl st" and "mv_udp_new mv"
  shows "res_safe (\<lambda>st'. dns_wf st' \<and> waiter st' = (\<lambda>_. None) \<and> dns.more st' = dns.more st) (main_dns mv dns st)"
proof -
  have "entry_wf servers zero_entry" for servers by (simp add: entry_wf_def zero_entry_def)
  then show ?thesis using assms
    by (auto simp: main_dns_def dns_init_def dns_setserver_def default_server u32_of_eq_0 Let_def dns_wf_def waiter_def
        booting_def zero_entry_def fun_eq_iff split: option.split)
qed

definition set_up :: "ocp \<Rightarrow> bool" where
  "set_up st \<longleftrightarrow> (\<forall>t. fresh st t) \<and> (\<exists>fl bl. dns_wf st \<and> waiter st = (\<lambda>_. None) \<and> ocp_ok {} fl (\<lambda>_. None) st \<and> distinct bl \<and>
     set bl = {..<1024} - set fl \<and> linked (\<lambda>s. sk_next (sock_pool st s)) (sock_bind_list st) bl)"

lemma ocp_atoi_safe: "(\<And>n. P n) \<Longrightarrow> res_safe P (ocp_atoi x)"
  by (simp add: ocp_atoi_def Let_def split_def)

lemma main_setup_ok:
  assumes "env_ok e" and "mv_udp_new mv"
  shows "res_safe (\<lambda>(nf, st). set_up st) (main_setup e mv opts)"
proof -
  have "main_ok (v, (init_pool (ocp0 mv))\<lparr>dns_domain := d\<rparr>)" for v d
    unfolding main_ok_def using booting_view [OF init_pool_booting] by (intro exI [of _ "[0..<1024]"] exI [of _ "[]"]) simp
  then have opts: "res_safe main_ok (res_fold (main_opt e) opts (v, (init_pool (ocp0 mv))\<lparr>dns_domain := d\<rparr>))" for v d
    by (rule res_fold_safe) (rule main_opt_ok)
  have fin: "set_up st'" if "booting fl bl st" "dns_wf st'" "waiter st' = (\<lambda>_. None)" "dns.more st' = dns.more st" for fl bl st st'
  proof -
    have "sock_pool st' = sock_pool st" "sock_bind_list st' = sock_bind_list st" "pending st' = pending st"
      using that(4) by (cases st; cases st'; simp)+
    then show ?thesis using that ocp_ok_frame [OF _ that(4)] unfolding booting_def set_up_def fresh_def by auto
  qed
  have dns: "res_safe set_up (main_dns mv d st)" if "booting fl bl st" for d fl bl st
    using main_dns_ok [OF that assms(2), of d] by (rule res_safe_mono) (use fin [OF that] in blast)
  have vpn: "res_safe (\<lambda>(nf, st). set_up st) (main_vpn e mv fd d ip m st1)" if "booting fl bl st1" for fl bl st1 fd d ip m
  proof -
    have "res_safe (\<lambda>(r, st2). \<exists>s. r = Some s \<and> res_safe set_up (main_dns mv d (upd_sock s (\<lambda>k. k\<lparr>sk_netif := Ptr ()\<rparr>) st2)))
        (ocp_sock_new e fd Lwip_data_cb (1 OR 2) st1)"
      by (rule res_safe_mono [OF vpn_sock_booting [OF assms(1) that]]) (auto dest: dns)
    then show ?thesis unfolding main_vpn_def res_safe_bind
      by (rule res_safe_mono) (auto elim!: res_safe_mono intro!: ocp_atoi_safe)
  qed
  show ?thesis
    unfolding main_setup_def
    by (auto simp: main_ok_def split: option.split prod.split intro!: ocp_atoi_safe res_safe_mono [OF opts] elim: vpn)
qed

lemma no_stall_act [simp]: "no_stall (act a st) = no_stall st"
  by (simp add: no_stall_def awake_def)

lemma main_init_good:
  assumes "env_ok e" and "mv_udp_new mv"
  shows "\<exists>r. main_init e mv opts = Some r \<and> res_safe (\<lambda>(st, nf). good st \<and> no_stall st \<and>
    (\<forall>s<1024. is_listener (sock_pool st s) \<longrightarrow> sk_listener (sock_pool st s) \<and>
       1 \<le> sk_lport (sock_pool st s) \<and> sk_lport (sock_pool st s) \<le> 65535)) r"
proof (cases "main_setup e mv opts")
  case (Stop x)
  then show ?thesis using main_setup_ok [OF assms, of opts] by (simp add: main_init_def)
next
  case (Ok y)
  obtain nf st3 where y: "y = (nf, st3)" by force
  with Ok main_setup_ok [OF assms, of opts] have su: "set_up st3" by simp
  then obtain fl bl where b: "dns_wf st3" "waiter st3 = (\<lambda>_. None)" "ocp_ok {} fl (\<lambda>_. None) st3" "distinct bl"
    "set bl = {..<1024} - set fl" "linked (\<lambda>s. sk_next (sock_pool st3 s)) (sock_bind_list st3) bl"
    unfolding set_up_def by blast
  obtain r where r: "bind_all_listeners mv st3 = Some r" "res_safe (bound fl bl st3) r"
    using bind_loop_bound [OF b(6,3) _ b(4)] b(5) unfolding bind_all_listeners_def by blast
  have fin: "good st4 \<and> no_stall st4 \<and> (\<forall>s<1024. is_listener (sock_pool st4 s) \<longrightarrow> sk_listener (sock_pool st4 s) \<and>
       1 \<le> sk_lport (sock_pool st4 s) \<and> sk_lport (sock_pool st4 s) \<le> 65535)" if "bound fl bl st3 st4" for st4
  proof -
    have ok: "ocp_ok {} fl (\<lambda>_. None) st4" using that by (simp add: bound_def)
    have "sk_listener (sock_pool st4 s) \<and> 1 \<le> sk_lport (sock_pool st4 s) \<and> sk_lport (sock_pool st4 s) \<le> 65535"
      if s: "s < 1024" "is_listener (sock_pool st4 s)" for s
    proof -
      have "s \<in> set bl" using free_path_listener [OF ocp_okD(1) [OF ok] s(2)] s(1) b(5) by simp
      with s(2) \<open>bound fl bl st3 st4\<close> show ?thesis by (auto simp: bound_def is_listener_def split: if_splits)
    qed
    moreover have "no_stall st4" using su that by (auto simp: no_stall_def awake_def fresh_def set_up_def bound_def)
    ultimately show ?thesis using that ok b(1,2) by (auto simp: good_iff bound_def)
  qed
  have "en_event_new e h" for h using assms(1) by (simp add: env_ok_def)
  with Ok y r fin show ?thesis
    by (cases r) (auto simp: main_init_def new_periodic_event_def)
qed

end
