(* ===== verification/Ocp_Relay.thy ===== *)
theory Ocp_Relay
  imports Ocp_Handlers
begin

text \<open>
  What the relay does with the data: every byte that lwIP delivers is written to the local socket
  once and in order, however often the socket is full, and is acknowledged to lwIP as it is written;
  what is read from the local socket goes to lwIP as far as it has room; IP packets pass between lwIP
  and the VPN unchanged.
\<close>

subsection \<open>Reading the trace\<close>

text \<open>The bytes a file descriptor took, and the number of bytes acknowledged to lwIP for a block.\<close>

fun taken_by :: "int \<Rightarrow> action \<Rightarrow> bytes" where
  "taken_by fd (A_write f d n) = (if f = fd then take (nat n) d else [])"
| "taken_by fd _ = []"

fun acked_by :: "nat \<Rightarrow> action \<Rightarrow> nat" where
  "acked_by p (A_tcp_recved q n) = (if q = p then n else 0)"
| "acked_by p _ = 0"

definition written :: "int \<Rightarrow> history \<Rightarrow> bytes" where
  "written fd h = concat (map (taken_by fd) h)"

definition acked :: "nat \<Rightarrow> history \<Rightarrow> nat" where
  "acked p h = sum_list (map (acked_by p) h)"

lemma written_simps [simp]:
  "written fd [] = []" "written fd (a # h) = taken_by fd a @ written fd h" "written fd (h @ h') = written fd h @ written fd h'"
  by (simp_all add: written_def)

lemma acked_simps [simp]:
  "acked p [] = 0" "acked p (a # h) = acked_by p a + acked p h" "acked p (h @ h') = acked p h + acked p h'"
  by (simp_all add: acked_def)

text \<open>\<^verbatim>\<open>write\<close> never takes more than it is given.\<close>

definition write_ok :: "env \<Rightarrow> bool" where
  "write_ok e \<longleftrightarrow> (\<forall>h fd d. en_write e h fd d \<le> int (length d))"

subsection \<open>From lwIP to the local socket\<close>

lemma recv_loop_writes:
  assumes "write_ok e" and "chain_wf q" and "q = [] \<or> off \<le> pb_len (hd q)" and "recv_loop e s tp q off st = Ok (r, st')"
    and "r \<noteq> Some ERR_ABRT"
  shows "\<exists>h k. trace st' = trace st @ h \<and> k \<le> length (chain_data q) - off \<and>
    written (sk_fd (sock_pool st s)) h = take k (drop off (chain_data q)) \<and> acked tp h = k \<and>
    sock_pool st' = (sock_pool st)(s := (sock_pool st s)\<lparr>sk_done_len := sk_done_len (sock_pool st s) + k\<rparr>) \<and>
    (if r = None then k = length (chain_data q) - off
     else r = Some ERR_WOULDBLOCK \<and> k < length (chain_data q) - off)"
  using assms
proof (induction e s tp q off st rule: recv_loop.induct)
  case (1 e s tp off st)
  then show ?case by (intro exI [of _ "[]"] exI [of _ 0]) simp
next
  case (2 e s tp p ps off st)
  define data fd where "data = drop off (pb_payload p)" and "fd = sk_fd (sock_pool st s)"
  define n where "n = en_write e (trace st) fd data"
  define st3 where "st3 = act (A_tcp_recved tp (nat n)) (upd_sock s (\<lambda>k. k\<lparr>sk_done_len := sk_done_len k + nat n\<rparr>)
    (act (A_write fd data n) st))"
  have len: "length (pb_payload p) = pb_len p" "chain_wf ps" using 2(3) length_pb_payload by auto
  have ol: "off \<le> pb_len p" using 2(4) by simp
  have ld: "length data = pb_len p - off" by (simp add: data_def len)
  have tk: "take (pb_len p - off) data = data" by (simp add: ld)
  have n: "n \<le> int (length data)" using 2(2) by (simp add: write_ok_def n_def)
  have eq: "recv_loop e s tp (p # ps) off st =
      (if n < 0 then res_bind (ocp_sock_del s (act (A_write fd data n) st)) (\<lambda>st2. Ok (Some ERR_ABRT, st2))
       else if n < int (pb_len p - off) then Ok (Some ERR_WOULDBLOCK, st3) else recv_loop e s tp ps 0 st3)"
    using ol by (simp add: Let_def st3_def n_def fd_def tk of_nat_diff flip: data_def)
  show ?case
  proof (cases "n < int (pb_len p - off)")
    case True
    then have "n \<ge> 0" "r = Some ERR_WOULDBLOCK" "st' = st3" using 2(6) 2(5) [unfolded eq] by (auto split: if_splits)
    then show ?thesis using True ld ol
      by (intro exI [of _ "[A_write fd data n, A_tcp_recved tp (nat n)]"] exI [of _ "nat n"])
        (auto simp: st3_def fd_def data_def len)
  next
    case False
    then have n': "n = int (length data)" using n ld by simp
    have fd3: "sk_fd (sock_pool st3 s) = fd" by (simp add: st3_def fd_def)
    have rec: "recv_loop e s tp ps 0 st3 = Ok (r, st')" using 2(5) [unfolded eq] False n' by simp
    have "\<exists>h k. trace st' = trace st3 @ h \<and> k \<le> length (chain_data ps) - 0 \<and>
      written (sk_fd (sock_pool st3 s)) h = take k (drop 0 (chain_data ps)) \<and> acked tp h = k \<and>
      sock_pool st' = (sock_pool st3)(s := (sock_pool st3 s)\<lparr>sk_done_len := sk_done_len (sock_pool st3 s) + k\<rparr>) \<and>
      (if r = None then k = length (chain_data ps) - 0 else r = Some ERR_WOULDBLOCK \<and> k < length (chain_data ps) - 0)"
      using rec False n' 2(2,6) len(2) ld ol
      by (intro 2(1) [OF refl refl refl refl refl]) (auto simp: st3_def n_def fd_def data_def)
    then obtain h k where h: "trace st' = trace st3 @ h" "k \<le> length (chain_data ps)"
      "written fd h = take k (chain_data ps)" "acked tp h = k"
      "sock_pool st' = (sock_pool st3)(s := (sock_pool st3 s)\<lparr>sk_done_len := sk_done_len (sock_pool st3 s) + k\<rparr>)"
      "if r = None then k = length (chain_data ps) else r = Some ERR_WOULDBLOCK \<and> k < length (chain_data ps)"
      unfolding fd3 drop_0 minus_nat.diff_0 by blast
    then show ?thesis using n' ld ol len(1)
      by (intro exI [of _ "A_write fd data n # A_tcp_recved tp (nat n) # h"] exI [of _ "length data + k"])
        (auto simp: st3_def fd_def data_def add.assoc)
  qed
qed

lemma recv_skip_data:
  "chain_wf c \<Longrightarrow> d \<le> length (chain_data c) \<Longrightarrow> recv_skip c d = (q, off) \<Longrightarrow>
     chain_wf q \<and> (q = [] \<or> off < pb_len (hd q)) \<and> drop off (chain_data q) = drop d (chain_data c) \<and>
     length (chain_data q) - off = length (chain_data c) - d"
  by (induction c d arbitrary: q off rule: recv_skip.induct) (auto split: if_splits)

lemma recv_cb_progress:
  assumes "write_ok e" and "chain_wf c" and "c \<noteq> []" and d: "sk_done_len (sock_pool st s) \<le> length (chain_data c)"
    and r: "recv_cb e (Some s) p c st = Ok (err, st')" and "err \<noteq> ERR_ABRT"
  shows "\<exists>h k. trace st' = trace st @ h \<and> written (sk_fd (sock_pool st s)) h = take k (drop (sk_done_len (sock_pool st s)) (chain_data c)) \<and>
    acked p h = k \<and> sk_fd (sock_pool st' s) = sk_fd (sock_pool st s) \<and>
    (err = ERR_OK \<and> sk_done_len (sock_pool st s) + k = length (chain_data c) \<and> sk_done_len (sock_pool st' s) = 0 \<or>
     err = ERR_WOULDBLOCK \<and> sk_done_len (sock_pool st s) + k < length (chain_data c) \<and>
     sk_done_len (sock_pool st' s) = sk_done_len (sock_pool st s) + k)"
proof -
  obtain q off where q: "recv_skip c (sk_done_len (sock_pool st s)) = (q, off)" by force
  note sk = recv_skip_data [OF assms(2) d q]
  obtain x where x: "pbuf_free c = Ok x" using pbuf_free_ok assms(2,3) by blast
  obtain re st1 where loop: "recv_loop e s p q off st = Ok (re, st1)" using r assms(3) by (auto simp: recv_cb_def q)
  have res: "case re of Some er \<Rightarrow> er = err \<and> st' = st1 | None \<Rightarrow> err = ERR_OK \<and> st' = upd_sock s (\<lambda>k. k\<lparr>sk_done_len := 0\<rparr>) st1"
    using r assms(3) x by (auto simp: recv_cb_def q loop split: option.splits)
  then have "re \<noteq> Some ERR_ABRT" using assms(6) by auto
  from recv_loop_writes [OF assms(1) _ _ loop this] less_imp_le sk obtain h k where h:
    "trace st1 = trace st @ h" "k \<le> length (chain_data q) - off"
    "written (sk_fd (sock_pool st s)) h = take k (drop off (chain_data q))" "acked p h = k"
    "sock_pool st1 = (sock_pool st)(s := (sock_pool st s)\<lparr>sk_done_len := sk_done_len (sock_pool st s) + k\<rparr>)"
    "if re = None then k = length (chain_data q) - off else re = Some ERR_WOULDBLOCK \<and> k < length (chain_data q) - off"
    by blast
  with sk res d show ?thesis by (intro exI [of _ h] exI [of _ k]) (auto split: option.splits if_splits)
qed

text \<open>
  lwIP keeps data that \<^verbatim>\<open>recv_cb\<close> refused and delivers it again. Between two deliveries other handlers
  run; they leave this connection alone.
\<close>

definition other_work :: "nat \<Rightarrow> nat \<Rightarrow> (ocp \<Rightarrow> ocp) \<Rightarrow> bool" where
  "other_work s p g \<longleftrightarrow> (\<forall>st. sk_fd (sock_pool (g st) s) = sk_fd (sock_pool st s) \<and>
     sk_done_len (sock_pool (g st) s) = sk_done_len (sock_pool st s) \<and>
     (\<exists>h. trace (g st) = trace st @ h \<and> written (sk_fd (sock_pool st s)) h = [] \<and> acked p h = 0))"

fun redeliver :: "env \<Rightarrow> nat \<Rightarrow> nat \<Rightarrow> chain \<Rightarrow> (ocp \<Rightarrow> ocp) list \<Rightarrow> ocp \<Rightarrow> (err_t \<times> ocp) res" where
  "redeliver e s p c [] st = recv_cb e (Some s) p c st"
| "redeliver e s p c (g # gs) st =
     res_bind (recv_cb e (Some s) p c st) (\<lambda>(err, st1).
       if err = ERR_WOULDBLOCK then redeliver e s p c gs (g st1) else Ok (err, st1))"

lemma redeliver_writes:
  assumes "write_ok e" and "chain_wf c" and "c \<noteq> []" and "list_all (other_work s p) gs"
    and "sk_done_len (sock_pool st s) \<le> length (chain_data c)" and "redeliver e s p c gs st = Ok (ERR_OK, st')"
  shows "\<exists>h. trace st' = trace st @ h \<and> sk_done_len (sock_pool st' s) = 0 \<and>
    written (sk_fd (sock_pool st s)) h = drop (sk_done_len (sock_pool st s)) (chain_data c) \<and>
    acked p h = length (chain_data c) - sk_done_len (sock_pool st s)"
  using assms(4-)
proof (induction gs arbitrary: st)
  case Nil
  then show ?case using recv_cb_progress [OF assms(1-3), of st s p ERR_OK st'] by fastforce
next
  case (Cons g gs)
  obtain err st1 where 1: "recv_cb e (Some s) p c st = Ok (err, st1)" using Cons.prems(3) by auto
  then have e: "err \<noteq> ERR_ABRT" using Cons.prems(3) by (auto split: if_splits)
  from recv_cb_progress [OF assms(1-3) Cons.prems(2) 1 e] obtain h k where h: "trace st1 = trace st @ h"
    "written (sk_fd (sock_pool st s)) h = take k (drop (sk_done_len (sock_pool st s)) (chain_data c))" "acked p h = k"
    "sk_fd (sock_pool st1 s) = sk_fd (sock_pool st s)"
    "err = ERR_OK \<and> sk_done_len (sock_pool st s) + k = length (chain_data c) \<and> sk_done_len (sock_pool st1 s) = 0 \<or>
     err = ERR_WOULDBLOCK \<and> sk_done_len (sock_pool st s) + k < length (chain_data c) \<and>
     sk_done_len (sock_pool st1 s) = sk_done_len (sock_pool st s) + k" by blast
  show ?case
  proof (cases "err = ERR_WOULDBLOCK")
    case False
    then show ?thesis using Cons.prems(3) 1 h by auto
  next
    case True
    obtain h' where g: "sk_fd (sock_pool (g st1) s) = sk_fd (sock_pool st1 s)"
      "sk_done_len (sock_pool (g st1) s) = sk_done_len (sock_pool st1 s)"
      "trace (g st1) = trace st1 @ h'" "written (sk_fd (sock_pool st1 s)) h' = []" "acked p h' = 0"
      using Cons.prems(1) by (auto simp: other_work_def)
    have "redeliver e s p c gs (g st1) = Ok (ERR_OK, st')" using Cons.prems(3) 1 True by simp
    with Cons.IH [of "g st1"] Cons.prems(1) h(5) g(2) True obtain h2 where "trace st' = trace (g st1) @ h2"
      "sk_done_len (sock_pool st' s) = 0"
      "written (sk_fd (sock_pool (g st1) s)) h2 = drop (sk_done_len (sock_pool (g st1) s)) (chain_data c)"
      "acked p h2 = length (chain_data c) - sk_done_len (sock_pool (g st1) s)" by auto
    then show ?thesis using h g True
      by (intro exI [of _ "h @ h' @ h2"]) (auto simp: add.commute simp flip: drop_drop)
  qed
qed

text \<open>When the socket takes at least one byte of everything it is offered, the delivery comes to an end.\<close>

definition write_some :: "env \<Rightarrow> bool" where
  "write_some e \<longleftrightarrow> (\<forall>h fd d. 0 \<le> en_write e h fd d \<and> (d \<noteq> [] \<longrightarrow> 1 \<le> en_write e h fd d))"

lemma recv_loop_progress:
  assumes "write_some e" and "chain_wf q" and "q = [] \<or> off \<le> pb_len (hd q)"
  shows "\<exists>r st'. recv_loop e s tp q off st = Ok (r, st') \<and> r \<noteq> Some ERR_ABRT \<and>
    sk_done_len (sock_pool st s) + (if off < length (chain_data q) then 1 else 0) \<le> sk_done_len (sock_pool st' s)"
  using assms
proof (induction e s tp q off st rule: recv_loop.induct)
  case (1 e s tp off st)
  then show ?case by simp
next
  case (2 e s tp p ps off st)
  define data fd where "data = drop off (pb_payload p)" and "fd = sk_fd (sock_pool st s)"
  define n where "n = en_write e (trace st) fd data"
  define st3 where "st3 = act (A_tcp_recved tp (nat n)) (upd_sock s (\<lambda>k. k\<lparr>sk_done_len := sk_done_len k + nat n\<rparr>)
    (act (A_write fd data n) st))"
  have len: "length (pb_payload p) = pb_len p" "chain_wf ps" "off \<le> pb_len p" using 2(3,4) length_pb_payload by auto
  have ld: "length data = pb_len p - off" "take (pb_len p - off) data = data" by (simp_all add: data_def len)
  have n: "0 \<le> n" "data \<noteq> [] \<Longrightarrow> 1 \<le> n" using 2(2) by (simp_all add: write_some_def n_def)
  have eq: "recv_loop e s tp (p # ps) off st =
      (if n < int (length data) then Ok (Some ERR_WOULDBLOCK, st3) else recv_loop e s tp ps 0 st3)"
    using n(1) len(3) ld by (simp add: Let_def st3_def n_def fd_def of_nat_diff flip: data_def)
  have d3: "sk_done_len (sock_pool st3 s) = sk_done_len (sock_pool st s) + nat n" by (simp add: st3_def)
  show ?case
  proof (cases "n < int (length data)")
    case True
    then have "1 \<le> n" using n by fastforce
    with True d3 show ?thesis unfolding eq by (auto simp: Suc_le_eq)
  next
    case False
    have "\<exists>r st'. recv_loop e s tp ps 0 st3 = Ok (r, st') \<and> r \<noteq> Some ERR_ABRT \<and>
        sk_done_len (sock_pool st3 s) + (if 0 < length (chain_data ps) then 1 else 0) \<le> sk_done_len (sock_pool st' s)"
      using False n(1) 2(2) len ld
      by (intro 2(1) [OF refl refl refl refl refl]) (auto simp: st3_def n_def fd_def data_def)
    moreover have "data = [] \<Longrightarrow> off = pb_len p" using ld(1) len(3) by simp
    ultimately show ?thesis using False n d3 len(1) unfolding eq
      by (cases "data = []") (auto split: if_splits)
  qed
qed

lemma recv_cb_returns:
  assumes "write_some e" and "chain_wf c" and "c \<noteq> []" and "sk_done_len (sock_pool st s) \<le> length (chain_data c)"
  shows "\<exists>err st'. recv_cb e (Some s) p c st = Ok (err, st') \<and> err \<noteq> ERR_ABRT \<and>
    (err = ERR_WOULDBLOCK \<longrightarrow> sk_done_len (sock_pool st s) < sk_done_len (sock_pool st' s))"
proof -
  obtain q off where q: "recv_skip c (sk_done_len (sock_pool st s)) = (q, off)" by force
  note sk = recv_skip_data [OF assms(2,4) q]
  obtain x where x: "pbuf_free c = Ok x" using pbuf_free_ok assms(2,3) by blast
  obtain r st1 where r: "recv_loop e s p q off st = Ok (r, st1)" "r \<noteq> Some ERR_ABRT"
    "sk_done_len (sock_pool st s) + (if off < length (chain_data q) then 1 else 0) \<le> sk_done_len (sock_pool st1 s)"
    using recv_loop_progress [OF assms(1), of q off s p st] sk less_imp_le by blast
  show ?thesis
  proof (cases r)
    case None
    then show ?thesis using assms(3) x r(1) by (simp add: recv_cb_def q)
  next
    case (Some er)
    then have "q \<noteq> []" using r(1) by auto
    then have "off < length (chain_data q)" using sk by (cases q) auto
    then show ?thesis using Some assms(3) r by (auto simp: recv_cb_def q)
  qed
qed

lemma redeliver_ends:
  assumes "write_ok e" and "write_some e" and "chain_wf c" and "c \<noteq> []" and "list_all (other_work s p) gs"
    and "sk_done_len (sock_pool st s) \<le> length (chain_data c)"
    and "length (chain_data c) \<le> sk_done_len (sock_pool st s) + length gs"
  shows "\<exists>st'. redeliver e s p c gs st = Ok (ERR_OK, st')"
  using assms(5-)
proof (induction gs arbitrary: st)
  case Nil
  obtain err st1 where r: "recv_cb e (Some s) p c st = Ok (err, st1)" "err \<noteq> ERR_ABRT"
    using recv_cb_returns [OF assms(2-4) Nil.prems(2)] by blast
  from recv_cb_progress [OF assms(1,3,4) Nil.prems(2) r] Nil.prems(3) have "err = ERR_OK" by auto
  with r show ?case by simp
next
  case (Cons g gs)
  obtain err st1 where r: "recv_cb e (Some s) p c st = Ok (err, st1)" "err \<noteq> ERR_ABRT"
    "err = ERR_WOULDBLOCK \<longrightarrow> sk_done_len (sock_pool st s) < sk_done_len (sock_pool st1 s)"
    using recv_cb_returns [OF assms(2-4) Cons.prems(2)] by blast
  from recv_cb_progress [OF assms(1,3,4) Cons.prems(2) r(1,2)]
  have p: "err = ERR_OK \<or> err = ERR_WOULDBLOCK \<and> sk_done_len (sock_pool st1 s) < length (chain_data c)" by auto
  show ?case
  proof (cases "err = ERR_WOULDBLOCK")
    case True
    have "sk_done_len (sock_pool (g st1) s) = sk_done_len (sock_pool st1 s)"
      using Cons.prems(1) by (simp add: other_work_def)
    with Cons.IH [of "g st1"] Cons.prems(1,3) r True p show ?thesis by auto
  next
    case False
    with p r show ?thesis by auto
  qed
qed

subsection \<open>From the local socket to lwIP\<close>

lemma local_data_cb_trace:
  assumes "env_ok e" and "sk_tpcb (sock_pool st s) = Ptr p" and "pcbs st p = Some b"
    and "length (sk_sockbuf (sock_pool st s)) = 2048" and "local_data_cb e s st = Ok st'"
  shows "\<exists>h. trace st' = trace st @ h \<and>
    (\<forall>q data err. A_tcp_write q data err \<in> set h \<longrightarrow>
       q = p \<and> length data \<le> pc_snd_buf b \<and> length data \<le> 2048 \<and> pc_snd_queuelen b \<le> 127 \<and>
       (\<exists>n. A_read (sk_fd (sock_pool st s)) n (Some data) \<in> set h) \<and> err \<noteq> ERR_MEM)"
proof -
  let ?n = "if pc_snd_buf b > 2048 then 2048 else pc_snd_buf b" and ?fd = "sk_fd (sock_pool st s)"
  have del: "\<exists>h. trace st1 = trace st @ a # h \<and> (\<forall>q data err. A_tcp_write q data err \<notin> set h)"
    if "ocp_sock_del s (act a st) = Ok st1" for a st1
    using that assms(2,3) by (auto simp: ocp_sock_del_def Let_def tcp_arg_def upd_pcb_def tcp_close_def event_free_def
        split: if_splits ptr.splits)
  show ?thesis
  proof (cases "?n = 0 \<or> pc_snd_queuelen b > 127 \<or> en_read e (trace st) ?fd ?n \<in> {None, Some []}")
    case True
    then show ?thesis using assms(2,3,5)
      by (auto simp: local_data_cb_def Let_def split: if_splits dest!: del)
  next
    case False
    then obtain d where d: "en_read e (trace st) ?fd ?n = Some d" "d \<noteq> []" by auto
    have "length d \<le> ?n" using assms(1) d(1) unfolding env_ok_def by blast
    moreover have "take (length d) (buf_put 0 d (sk_sockbuf (sock_pool st s))) = d" by (simp add: buf_put_def)
    ultimately show ?thesis using assms(2-5) False d(2)
      by (auto simp: local_data_cb_def d(1) Let_def warn_def event_add_def split: if_splits ptr.splits)
  qed
qed

subsection \<open>Between lwIP and the VPN\<close>

lemma lwip_data_cb_packet:
  assumes "en_read e (trace st) (sk_fd (sock_pool st s)) 2048 = Some d" and "d \<noteq> []" and "length d \<le> 2048"
    and "length (sk_sockbuf (sock_pool st s)) = 2048" and "sk_netif (sock_pool st s) = Ptr ()" and "sk_ev (sock_pool st s) = Ptr f"
    and "length d \<le> 2048 * ae_pool (en_alloc e (trace st @ [A_read (sk_fd (sock_pool st s)) 2048 (Some d)]))"
  shows "\<exists>st'. lwip_data_cb e s st = Ok st' \<and>
    trace st' = trace st @ [A_read (sk_fd (sock_pool st s)) 2048 (Some d), A_input d] \<and>
    link_recv st' = link_recv st + 1 \<and> pending st' s"
proof -
  let ?fd = "sk_fd (sock_pool st s)"
  let ?st = "upd_sock s (\<lambda>k. k\<lparr>sk_sockbuf := buf_put 0 d (sk_sockbuf k)\<rparr>) (act (A_read ?fd 2048 (Some d)) st)"
  have n: "length d < 65536" "0 < length d" using assms(2,3) by auto
  let ?ae = "en_alloc e (trace st @ [A_read ?fd 2048 (Some d)])"
  have "pbuf_alloc ?ae PBUF_RAW (length d) PBUF_POOL \<noteq> Ok None"
    by (rule pbuf_alloc_enough) (use assms(7) n in \<open>auto intro: ccontr\<close>)
  then obtain c where c: "pbuf_alloc ?ae PBUF_RAW (length d) PBUF_POOL = Ok (Some c)" "chain_wf c" "chain_tot c = length d"
    using pbuf_alloc_ok [OF n(1), of PBUF_POOL ?ae PBUF_RAW] by auto
  then obtain c' where c': "lwip_fill c d = Ok c'" "chain_data c' = d"
    using lwip_fill_take [of d c] pbuf_take_loop_ok [of c d] length_chain_data [of c] by auto
  have "take (length d) (buf_put 0 d (sk_sockbuf (sock_pool st s))) = d" by (simp add: buf_put_def)
  then show ?thesis using assms(1,2,4-6) c(1) c' n(1)
    by (simp add: lwip_data_cb_def Let_def event_add_def) (simp add: act_def upd_sock_def)
qed

lemma lwip_iov_chain:
  "lwip_iov c i iov = (if i + length c \<le> 128 \<or> c = [] then Some (iov @ map pb_payload c) else None)"
  by (induction c i iov rule: lwip_iov.induct) auto

subsection \<open>A concrete connection\<close>

definition demo_conn :: ocp_sock where
  "demo_conn = zero_sock\<lparr>sk_fd := 7, sk_ev := Ptr Local_data_cb, sk_tpcb := Ptr 5, sk_state := STATE_DATA\<rparr>"

definition demo_ocp :: ocp where
  "demo_ocp = \<lparr>dns_pcb = True, dns_remote = 0, dns_seqno = 0, dns_table = (\<lambda>_. zero_entry), dns_servers = (\<lambda>_. 0),
     dns_payload = replicate 512 0, dns_sent = [],
     sock_pool = (\<lambda>_. zero_sock)(0 := zero_sock\<lparr>sk_fd := 3, sk_ev := Ptr Lwip_data_cb, sk_netif := Ptr ()\<rparr>, 1 := demo_conn),
     sock_free_list = None, sock_bind_list = None, sock_used = 2, sock_max = 2,
     keep_intvl = 0, dns_domain = None, allow_remote = False, tcpdump_enabled = False, got_sighup = False,
     got_sigusr1 = False, link_recv = 0, link_xmit = 0, link_drop = 0, link_lenerr = 0,
     pending = (\<lambda>_. False), pcbs = (\<lambda>_. None)(5 := Some (tcp_pcb0\<lparr>pc_arg := Some 1, pc_snd_buf := 100\<rparr>)),
     next_pcb = 6, trace = []\<rparr>"

definition demo_e :: env where
  "demo_e = \<lparr>en_read = (\<lambda>h fd n. Some (take n [72, 105])), en_write = (\<lambda>h fd d. int (min 2 (length d))),
     en_conn_errno = (\<lambda>h. False), en_event_new = (\<lambda>h. True), en_tcp_new = (\<lambda>h. True),
     en_tcp_connect = (\<lambda>h p a n. ERR_OK), en_tcp_write = (\<lambda>h p d. ERR_OK),
     en_dns = (\<lambda>h. \<lparr>dv_alloc = (\<lambda>i. \<lparr>ae_pool = 8, ae_ram = True, ae_pbuf = True, ae_junk = (\<lambda>_. 0)\<rparr>), dv_sendto = (\<lambda>_ _. ERR_OK)\<rparr>),
     en_alloc = (\<lambda>h. \<lparr>ae_pool = 8, ae_ram = True, ae_pbuf = True, ae_junk = (\<lambda>_. 0)\<rparr>)\<rparr>"

lemma demo_chain_len: "length demo_chain = 2"
  by (simp add: demo_chain_def)

lemma demo_e_ok: "env_ok demo_e" "write_ok demo_e" "write_some demo_e"
  by (auto simp: demo_e_def env_ok_def write_ok_def write_some_def Suc_le_eq)

lemma demo_slots:
  "sk_done_len (sock_pool demo_ocp 1) = 0" "sk_fd (sock_pool demo_ocp 1) = 7" "sk_tpcb (sock_pool demo_ocp 1) = Ptr 5"
  "sk_ev (sock_pool demo_ocp 0) = Ptr Lwip_data_cb" "sk_fd (sock_pool demo_ocp 0) = 3" "sk_netif (sock_pool demo_ocp 0) = Ptr ()"
  "length (sk_sockbuf (sock_pool demo_ocp 1)) = 2048" "length (sk_sockbuf (sock_pool demo_ocp 0)) = 2048"
  "pcbs demo_ocp 5 = Some (tcp_pcb0\<lparr>pc_arg := Some 1, pc_snd_buf := 100\<rparr>)" "trace demo_ocp = []" "link_recv demo_ocp = 0"
  "sk_ev (sock_pool demo_ocp 1) = Ptr Local_data_cb"
  by (simp_all add: demo_ocp_def demo_conn_def zero_sock_def)

subsection \<open>Main properties\<close>

text \<open>
  C6: data from lwIP reaches the local socket exactly once and in order. When a chain of buffers is
  delivered to \<^verbatim>\<open>recv_cb\<close> again and again until it returns \<^verbatim>\<open>ERR_OK\<close>, with any work for other
  connections in between and whatever part of each write the socket takes, then the bytes
  written to the socket are the bytes of the chain, the number of bytes acknowledged with
  \<^verbatim>\<open>tcp_recved\<close> is its length, and \<^verbatim>\<open>done_len\<close> is ready for the next chain.
\<close>

theorem recv_cb_relays_once:
  assumes "write_ok e" and "chain_wf c" and "c \<noteq> []" and "list_all (other_work s p) gs"
    and "sk_done_len (sock_pool st s) = 0" and "redeliver e s p c gs st = Ok (ERR_OK, st')"
  shows "\<exists>h. trace st' = trace st @ h \<and> written (sk_fd (sock_pool st s)) h = chain_data c \<and>
    acked p h = chain_tot c \<and> sk_done_len (sock_pool st' s) = 0"
  using redeliver_writes [OF assms(1-4) _ assms(6)] assms(2,5) length_chain_data by auto

theorem recv_cb_relays_once_witness:
  "\<exists>st'. redeliver demo_e 1 5 demo_chain (replicate 5 (act A_warn)) demo_ocp = Ok (ERR_OK, st') \<and>
     written 7 (trace st') = [1, 2, 3, 4, 5] \<and> acked 5 (trace st') = 5"
proof -
  have ow: "list_all (other_work 1 5) (replicate 5 (act A_warn))" by (simp add: list_all_iff other_work_def)
  obtain st' where st': "redeliver demo_e 1 5 demo_chain (replicate 5 (act A_warn)) demo_ocp = Ok (ERR_OK, st')"
    using redeliver_ends [OF demo_e_ok(2,3) _ _ ow, of demo_chain demo_ocp] demo_slots by auto
  with recv_cb_relays_once [OF demo_e_ok(2) _ _ ow _ st'] demo_slots show ?thesis by auto
qed

text \<open>
  C7: the delivery of a chain ends. If the socket takes at least one byte of every write,
  \<^verbatim>\<open>recv_cb\<close> returns \<^verbatim>\<open>ERR_OK\<close> after at most as many repetitions as the chain has bytes.
\<close>

theorem recv_cb_ends:
  assumes "write_ok e" and "write_some e" and "chain_wf c" and "c \<noteq> []" and "list_all (other_work s p) gs"
    and "sk_done_len (sock_pool st s) = 0" and "chain_tot c \<le> length gs"
  shows "\<exists>st'. redeliver e s p c gs st = Ok (ERR_OK, st')"
  using redeliver_ends [OF assms(1-5)] assms(3,6,7) length_chain_data by simp

theorem recv_cb_ends_witness:
  "\<exists>st'. redeliver demo_e 1 5 demo_chain (replicate 5 (act A_warn)) demo_ocp = Ok (ERR_OK, st')"
  by (rule recv_cb_ends [OF demo_e_ok(2,3)]) (auto simp: list_all_iff other_work_def demo_slots [simplified])

text \<open>
  C8: what \<^verbatim>\<open>local_data_cb\<close> hands to lwIP is what it read from the socket, is never more than the
  free space \<^verbatim>\<open>snd_buf\<close> of the connection nor than its buffer, and only while at most 127 segments
  are queued.
\<close>

theorem local_data_cb_flow_control:
  assumes "env_ok e" and "sk_tpcb (sock_pool st s) = Ptr p" and "pcbs st p = Some b"
    and "length (sk_sockbuf (sock_pool st s)) = 2048" and "local_data_cb e s st = Ok st'"
    and "A_tcp_write q data err \<in> set (drop (length (trace st)) (trace st'))"
  shows "q = p \<and> length data \<le> pc_snd_buf b \<and> length data \<le> 2048 \<and> pc_snd_queuelen b \<le> 127 \<and> err \<noteq> ERR_MEM \<and>
    (\<exists>n. A_read (sk_fd (sock_pool st s)) n (Some data) \<in> set (drop (length (trace st)) (trace st')))"
proof -
  obtain h where h: "trace st' = trace st @ h" "\<forall>q data err. A_tcp_write q data err \<in> set h \<longrightarrow>
       q = p \<and> length data \<le> pc_snd_buf b \<and> length data \<le> 2048 \<and> pc_snd_queuelen b \<le> 127 \<and>
       (\<exists>n. A_read (sk_fd (sock_pool st s)) n (Some data) \<in> set h) \<and> err \<noteq> ERR_MEM"
    using local_data_cb_trace [OF assms(1-5)] by blast
  have "A_tcp_write q data err \<in> set h" using assms(6) h(1) by simp
  with h(2) [rule_format, of q data err] h(1) show ?thesis by simp
qed

theorem local_data_cb_flow_control_witness:
  "length [72::u8, 105] \<le> 100 \<and> (\<exists>st'. local_data_cb demo_e 1 demo_ocp = Ok st' \<and>
     trace st' = [A_read 7 100 (Some [72, 105]), A_tcp_write 5 [72, 105] ERR_OK, A_tcp_output 5])"
proof -
  obtain st' where st': "local_data_cb demo_e 1 demo_ocp = Ok st'"
    "trace st' = [A_read 7 100 (Some [72, 105]), A_tcp_write 5 [72, 105] ERR_OK, A_tcp_output 5]"
    using demo_slots by (simp add: local_data_cb_def demo_e_def tcp_pcb0_def event_add_def Let_def buf_put_def act_def)
  with local_data_cb_flow_control [OF demo_e_ok(1) demo_slots(3,9,7) st'(1), of 5 "[72, 105]" ERR_OK] demo_slots(10)
  show ?thesis by simp
qed

text \<open>
  C10: a packet from the VPN reaches lwIP unchanged: one read of at most 2048 bytes is passed to the
  interface's \<^verbatim>\<open>input\<close> function as a chain with exactly these bytes, \<^verbatim>\<open>link.recv\<close> counts it, and the
  event is armed for the next packet, provided the pbuf pool has room.
\<close>

theorem lwip_data_cb_delivers:
  assumes "en_read e (trace st) (sk_fd (sock_pool st s)) 2048 = Some d" and "d \<noteq> []" and "length d \<le> 2048"
    and "length (sk_sockbuf (sock_pool st s)) = 2048" and "sk_netif (sock_pool st s) = Ptr ()" and "sk_ev (sock_pool st s) = Ptr f"
    and "length d \<le> 2048 * ae_pool (en_alloc e (trace st @ [A_read (sk_fd (sock_pool st s)) 2048 (Some d)]))"
  shows "\<exists>st'. lwip_data_cb e s st = Ok st' \<and>
    trace st' = trace st @ [A_read (sk_fd (sock_pool st s)) 2048 (Some d), A_input d] \<and>
    link_recv st' = link_recv st + 1 \<and> pending st' s"
  by (rule lwip_data_cb_packet [OF assms])

theorem lwip_data_cb_delivers_witness:
  "\<exists>st'. lwip_data_cb demo_e 0 demo_ocp = Ok st' \<and> trace st' = [A_read 3 2048 (Some [72, 105]), A_input [72, 105]]"
  using lwip_data_cb_delivers [of demo_e demo_ocp 0 "[72, 105]" Lwip_data_cb] demo_slots by (auto simp: demo_e_def)

text \<open>
  C11: a packet of lwIP with at most 128 buffers is written to the VPN in one \<^verbatim>\<open>writev\<close> that carries
  exactly its bytes; it is counted as sent when all of them were taken.
\<close>

theorem lwip_data_out_sends:
  assumes "chain_wf c" and "length c \<le> 128"
    and "en_write e (trace st) (sk_fd (sock_pool st s)) (chain_data c) = int (length (chain_data c))"
  shows "\<exists>st'. lwip_data_out e s c st = (ERR_OK, st') \<and> link_xmit st' = link_xmit st + 1 \<and>
    trace st' = trace st @ [A_writev (sk_fd (sock_pool st s)) (chain_data c) (int (length (chain_data c)))]"
proof -
  have "length (chain_data c) = sum_list (map pb_len c)"
    using assms(1) by (induction c) auto
  then show ?thesis using assms(2,3)
    by (auto simp: lwip_data_out_def lwip_iov_chain Let_def chain_data_def act_def)
qed

theorem lwip_data_out_sends_witness:
  "\<exists>st'. lwip_data_out (demo_e\<lparr>en_write := \<lambda>h fd d. int (length d)\<rparr>) 0 demo_chain demo_ocp = (ERR_OK, st') \<and>
     trace st' = [A_writev 3 [1, 2, 3, 4, 5] 5]"
  using lwip_data_out_sends [of demo_chain "demo_e\<lparr>en_write := \<lambda>h fd d. int (length d)\<rparr>" demo_ocp 0] demo_slots
  by (simp add: demo_chain_len) blast

end
