(* ===== verification/Ocp_Options.thy ===== *)
theory Ocp_Options
  imports Ocp_Main Ocp_Relay
begin

text \<open>
  What the command line of \<^verbatim>\<open>src/ocproxy.c\<close> means: decimal numbers, port forwards and the listeners and
  the interface \<^verbatim>\<open>main\<close> sets up from them.
\<close>

subsection \<open>Numbers on the command line\<close>

text \<open>Decimal notation.\<close>

fun dec :: "nat \<Rightarrow> cstr" where
  "dec n = (if n < 10 then [of_nat (48 + n)] else dec (n div 10) @ [of_nat (48 + n mod 10)])"

declare dec.simps [simp del]

lemma unat_digit: "d < 10 \<Longrightarrow> unat (of_nat (48 + d) :: u8) = 48 + d"
  by (simp add: unat_of_nat del: of_nat_add)

lemma in_range_unat: "in_range c lo hi \<longleftrightarrow> unat lo \<le> unat c \<and> unat c \<le> unat hi"
  by (auto simp: in_range_def word_le_nat_alt)

lemma digit_val_digit: "d < 10 \<Longrightarrow> digit_val (of_nat (48 + d)) = d"
  by (simp add: digit_val_def in_range_unat unat_digit del: of_nat_add)

lemma strtol_digits_append:
  "strtol_digits b a xs = (n, []) \<Longrightarrow> strtol_digits b a (xs @ ys) = strtol_digits b n ys"
  by (induction b a xs rule: strtol_digits.induct) (auto split: if_splits)

lemma strtol_digits_dec: "\<exists>k. 0 < k \<and> (\<forall>a. strtol_digits 10 a (dec n) = (a * k + n, []))"
proof (induction n rule: dec.induct)
  case (1 n)
  show ?case
  proof (cases "n < 10")
    case True
    then show ?thesis using digit_val_digit [of n]
      by (intro exI [of _ 10]) (simp add: dec.simps [of n] del: of_nat_add)
  next
    case False
    with 1 obtain k where k: "0 < k" "strtol_digits 10 a (dec (n div 10)) = (a * k + n div 10, [])" for a by blast
    have "strtol_digits 10 a (dec n) = (a * (k * 10) + n, [])" for a
      using False digit_val_digit [of "n mod 10"]
      by (simp add: dec.simps [of n] strtol_digits_append [OF k(2)] algebra_simps del: of_nat_add)
    with k(1) show ?thesis by (intro exI [of _ "k * 10"]) simp
  qed
qed

lemma dec_hd: "\<exists>d cs. dec n = of_nat (48 + d) # cs \<and> d < 10 \<and> (d = 0 \<longrightarrow> n = 0 \<and> cs = [])"
proof (induction n rule: dec.induct)
  case (1 n)
  show ?case
  proof (cases "n < 10")
    case True
    then show ?thesis by (intro exI [of _ n] exI [of _ "[]"]) (simp add: dec.simps [of n])
  next
    case False
    with 1 obtain d cs where d: "dec (n div 10) = of_nat (48 + d) # cs" "d < 10" "d = 0 \<longrightarrow> n div 10 = 0 \<and> cs = []" by blast
    with False show ?thesis by (auto simp: dec.simps [of n] intro!: exI [of _ d])
  qed
qed

lemma ocp_atoi_decimal: "n < 2 ^ 31 \<Longrightarrow> ocp_atoi (dec n) = Ok (int n)"
proof -
  assume n: "n < 2 ^ 31"
  obtain d cs where d: "dec n = of_nat (48 + d) # cs" "d < 10" "d = 0 \<longrightarrow> n = 0 \<and> cs = []" using dec_hd by blast
  obtain k where k: "strtol_digits 10 0 (dec n) = (0 * k + n, [])" using strtol_digits_dec by blast
  let ?c = "of_nat (48 + d) :: u8"
  have c: "unat ?c = 48 + d" by (rule unat_digit [OF d(2)])
  have ne: "?c \<noteq> 45" "?c \<noteq> 43" "\<not> isspace ?c" "?c = 48 \<longleftrightarrow> d = 0"
    using c by (auto simp: isspace_def in_range_unat word_unat_eq_iff)
  have "strtol (dec n) = (int n, [])"
  proof (cases "d = 0")
    case True
    then show ?thesis using d(1,3) by (simp add: strtol_def isspace_def in_range_def cur_def digit_val_def Let_def)
  next
    case False
    then show ?thesis using d(1) k ne n by (simp add: strtol_def cur_def Let_def del: of_nat_add)
  qed
  moreover have "sint (word_of_int (int n) :: 32 word) = int n"
    unfolding int_word_sint using n by simp
  ultimately show ?thesis using d(1) by (simp add: ocp_atoi_def del: of_nat_add)
qed

subsection \<open>Port forwards\<close>

text \<open>A process environment for the examples.\<close>

definition demo_mv :: main_env where
  "demo_mv = \<lparr>mv_getenv = (\<lambda>x. if x = ''VPNFD'' then Some (lit ''3'')
       else if x = ''INTERNAL_IP4_ADDRESS'' then Some (lit ''10.0.0.2'')
       else if x = ''INTERNAL_IP4_MTU'' then Some (lit ''1500'') else None),
     mv_event_base = True, mv_udp_new = True, mv_inet_aton = ipaddr_aton, mv_listen = (\<lambda>_ _ _. True), mv_pad = 0\<rparr>"

lemma dec_no_colon: "58 \<notin> set (dec n)"
proof (induction n rule: dec.induct)
  case (1 n)
  have "of_nat (48 + d) \<noteq> (58 :: u8)" if "d < 10" for d
    using unat_digit [OF that] that by (auto simp: word_unat_eq_iff simp del: of_nat_add)
  from this [of n] this [of "n mod 10"] 1 show ?case by (subst dec.simps) (auto simp del: of_nat_add)
qed

lemma strsep_colon: "c \<notin> set xs \<Longrightarrow> strsep c (xs @ c # ys) = (xs, Some ys)"
  by (induction xs) (auto simp: strsep_def)

lemma strsep_count:
  "snd (strsep c s) = None \<longleftrightarrow> count_list s c = 0"
  "snd (strsep c s) = Some r \<Longrightarrow> count_list s c = Suc (count_list r c)"
  by (induction s) (auto simp: strsep_def)

lemma strtol_digits_colon: "b \<le> 16 \<Longrightarrow> 58 \<in> set xs \<Longrightarrow> 58 \<in> set (snd (strtol_digits b a xs))"
proof (induction b a xs rule: strtol_digits.induct)
  case (2 b a c cs)
  have "\<not> digit_val 58 < b" using 2(2) by (simp add: digit_val_def in_range_def)
  with 2 show ?case by auto
qed simp

lemma colon_dropWhile: "58 \<in> set s \<Longrightarrow> 58 \<in> set (dropWhile isspace s)"
  by (induction s) (auto simp: isspace_def)

lemma colon_tl: "58 \<in> set s \<Longrightarrow> cur s \<noteq> 58 \<Longrightarrow> 58 \<in> set (tl s)"
  by (cases s) auto

lemma colon_hex:
  "58 \<in> set u \<Longrightarrow> 58 \<in> set (if cur u = 48 \<and> (cur (tl u) = 120 \<or> cur (tl u) = 88) \<and> P then tl (tl u) else u)"
  by (auto intro!: colon_tl)

text \<open>A number with a colon in it ends the program.\<close>

lemma ocp_atoi_colon: "58 \<in> set s \<Longrightarrow> ocp_atoi s = Stop Die"
proof -
  assume s: "58 \<in> set s"
  let ?t = "dropWhile isspace s"
  let ?u = "if cur ?t = 45 \<or> cur ?t = 43 then tl ?t else ?t"
  let ?hex = "cur ?u = 48 \<and> (cur (tl ?u) = 120 \<or> cur (tl ?u) = 88) \<and> digit_val (cur (tl (tl ?u))) < 16"
  let ?v = "if ?hex then tl (tl ?u) else ?u"
  let ?base = "if ?hex then 16 else if cur ?u = 48 then 8 else 10"
  have u: "58 \<in> set ?u" using colon_dropWhile [OF s] by (auto intro: colon_tl)
  have "58 \<in> set ?v" using colon_hex [OF u] .
  then have d: "58 \<in> set (snd (strtol_digits ?base 0 ?v))" by (intro strtol_digits_colon) simp_all
  obtain n rest where r: "strtol_digits ?base 0 ?v = (n, rest)" by (rule prod.exhaust)
  have "58 \<in> set rest" using d unfolding r by (simp only: snd_conv)
  then have "58 \<in> set (snd (strtol s))" unfolding strtol_def Let_def r prod.case if_distrib [of snd] snd_conv
    using s by (simp only: simp_thms split: if_split)
  then show ?thesis by (cases "strtol s") (auto simp: ocp_atoi_def)
qed

text \<open>
  C22: the option \<^verbatim>\<open>-L lport:host:rport\<close>, with decimal ports and any host name without a colon, takes the
  first free slot, makes it a listener on \<^verbatim>\<open>lport\<close> that forwards to that host and port, and puts it at
  the head of the list that \<^verbatim>\<open>bind_all_listeners\<close> goes through; no other slot changes.
\<close>

theorem fwd_add_listens:
  assumes "sock_free_list st = Some s" and "lport < 2 ^ 31" and "0 < rport" "rport < 2 ^ 31" and "58 \<notin> set host"
  shows "\<exists>st'. fwd_add e (dec lport @ 58 # host @ 58 # dec rport) st = Ok st' \<and>
    listener_slot (int lport) Null (Ptr host) (int rport) CONN_TYPE_REDIR (sock_pool st' s) \<and>
    sk_next (sock_pool st' s) = sock_bind_list st \<and> sock_bind_list st' = Some s \<and>
    sock_free_list st' = sk_next (sock_pool st s) \<and> (\<forall>t. t \<noteq> s \<longrightarrow> sock_pool st' t = sock_pool st t)"
  using assms
  by (simp add: fwd_add_def strsep_colon dec_no_colon ocp_atoi_decimal new_listener_def ocp_sock_new_taken Let_def
      listener_slot_def is_listener_def, simp add: taken_def zero_sock_def upd_sock_def)

theorem fwd_add_listens_witness:
  "\<exists>st'. fwd_add demo_e (lit ''80:a.b:8080'') (init_pool (ocp0 demo_mv)) = Ok st' \<and>
    listener_slot 80 Null (Ptr (lit ''a.b'')) 8080 CONN_TYPE_REDIR (sock_pool st' 0)"
proof -
  have "sock_free_list (init_pool (ocp0 demo_mv)) = Some 0" by (simp add: init_pool_def fold_upd_sock_frame)
  moreover have "dec 80 = lit ''80''" "dec 8080 = lit ''8080''" "58 \<notin> set (lit ''a.b'')"
    by (simp_all add: lit_def dec.simps)
  moreover have "lit ''80:a.b:8080'' = lit ''80'' @ 58 # lit ''a.b'' @ 58 # lit ''8080''" by (simp add: lit_def)
  ultimately show ?thesis
    using fwd_add_listens [of "init_pool (ocp0 demo_mv)" 0 80 8080 "lit ''a.b''" demo_e] by auto
qed

text \<open>
  An argument of \<^verbatim>\<open>-L\<close> that does not have exactly two colons ends the program with an error, whatever
  the state; no pointer is followed before that is noticed.
\<close>

lemma fwd_add_rejects:
  assumes "count_list opt 58 \<noteq> 2"
  shows "fwd_add e opt st = Stop Die"
proof (cases "snd (strsep 58 opt)")
  case None
  then show ?thesis by (cases "strsep 58 opt") (simp add: fwd_add_def)
next
  case (Some str)
  then obtain p where p: "strsep 58 opt = (p, Some str)" by (cases "strsep 58 opt") simp
  have "count_list str 58 \<noteq> 1" using assms strsep_count(2) [OF Some] by simp
  have die: "ocp_atoi x = Stop Die \<or> (\<exists>n. ocp_atoi x = Ok n)" for x by (simp add: ocp_atoi_def split_def Let_def)
  show ?thesis
  proof (cases "snd (strsep 58 str)")
    case None
    then show ?thesis using p die [of p] by (cases "strsep 58 str") (auto simp: fwd_add_def)
  next
    case (Some r)
    then obtain h where h: "strsep 58 str = (h, Some r)" by (cases "strsep 58 str") simp
    have "58 \<in> set r" using \<open>count_list str 58 \<noteq> 1\<close> strsep_count(2) [OF Some] by (metis One_nat_def count_notin)
    moreover have "res_bind (new_listener e l st) (\<lambda>(s, st1). Stop Die) = Stop Die" for l
      by (simp add: new_listener_def ocp_sock_new_def Let_def split: option.split)
    ultimately show ?thesis using p h die [of p] by (auto simp: fwd_add_def ocp_atoi_colon)
  qed
qed

subsection \<open>The interface and the routes\<close>

lemma main_netif_route: "ip_route dest (main_netif s ip mtu) = Some (Some 0)"
  by (simp add: ip_route_def main_netif_def netif_add_def init_oc_netif_def zero_netifs_def netif_set_up_def netif_set_default_def
      netif_set_addr_def netif_set_ipaddr_def netif_set_gw_def netif_set_netmask_def upd_netif_def netif_is_up_def Let_def
      ip_addr_netcmp_def)

lemma res_bind_Ok: "res_bind r f = Ok y \<longleftrightarrow> (\<exists>x. r = Ok x \<and> f x = Ok y)"
  by (cases r) auto

lemma main_init_netif:
  assumes "main_init e mv opts = Some (Ok (st, nf))"
  shows "\<exists>s ip mtu. nf = main_netif s ip mtu"
proof -
  obtain st3 where "main_setup e mv opts = Ok (nf, st3)"
    using assms by (auto simp: main_init_def res_bind_Ok split: res.splits)
  then obtain fd d ip m st1 where "main_vpn e mv fd d ip m st1 = Ok (nf, st3)"
    by (auto simp: main_setup_def res_bind_Ok)
  then show ?thesis by (simp add: main_vpn_def res_bind_Ok split_paired_all split: option.splits) blast
qed

end
