(* ===== verification/Ocp_Pool.thy ===== *)
theory Ocp_Pool
  imports Ocp_Handlers
begin

text \<open>
  The pool of connection slots as an allocator. The contract of an allocator is a locale: it
  refines a stack of free slots. The client side shows that a sequence of calls gives the results
  of the stack, whatever the implementation; \<^verbatim>\<open>ocp_sock_new\<close> and \<^verbatim>\<open>ocp_sock_del\<close> of
  \<^verbatim>\<open>src/ocproxy.c\<close>, which link the free slots through the slots themselves, provide the contract.
\<close>

subsection \<open>The stack of free slots\<close>

datatype pool_op = New | Del nat

text \<open>What a sequence of calls answers, with the free slots and those handed out; no value when a slot is given back that is not out.\<close>

fun stack_run :: "pool_op list \<Rightarrow> nat list \<Rightarrow> nat set \<Rightarrow> (nat option list \<times> nat list \<times> nat set) option" where
  "stack_run [] fl out = Some ([], fl, out)"
| "stack_run (New # ops) [] out = map_option (\<lambda>(rs, r). (None # rs, r)) (stack_run ops [] out)"
| "stack_run (New # ops) (s # fl) out = map_option (\<lambda>(rs, r). (Some s # rs, r)) (stack_run ops fl (insert s out))"
| "stack_run (Del s # ops) fl out = (if s \<in> out then stack_run ops (s # fl) (out - {s}) else None)"

fun pool_run :: "('s \<Rightarrow> (nat option \<times> 's) res) \<Rightarrow> (nat \<Rightarrow> 's \<Rightarrow> 's res) \<Rightarrow> pool_op list \<Rightarrow> 's \<Rightarrow> (nat option list \<times> 's) res" where
  "pool_run alloc free [] st = Ok ([], st)"
| "pool_run alloc free (New # ops) st =
     res_bind (alloc st) (\<lambda>(r, st1). res_bind (pool_run alloc free ops st1) (\<lambda>(rs, st2). Ok (r # rs, st2)))"
| "pool_run alloc free (Del s # ops) st = res_bind (free s st) (pool_run alloc free ops)"

text \<open>The stack itself never hands out a slot twice and never loses one.\<close>

lemma stack_run_fair:
  "stack_run ops fl out = Some (rs, fl', out') \<Longrightarrow> distinct fl \<Longrightarrow> set fl \<inter> out = {} \<Longrightarrow>
     distinct fl' \<and> set fl' \<inter> out' = {} \<and> set fl' \<union> out' = set fl \<union> out"
proof (induction ops fl out arbitrary: rs rule: stack_run.induct)
  case (3 ops s fl out)
  then obtain rs' where "stack_run ops fl (insert s out) = Some (rs', fl', out')" by auto
  from "3.IH" [OF this] "3.prems" show ?case by auto
next
  case (4 s ops fl out)
  then have s: "s \<in> out" "stack_run ops (s # fl) (out - {s}) = Some (rs, fl', out')" by (auto split: if_splits)
  have d: "distinct (s # fl)" "set (s # fl) \<inter> (out - {s}) = {}" "set (s # fl) \<union> (out - {s}) = set fl \<union> out"
    using s(1) "4.prems"(2,3) by auto
  from "4.IH" [OF s d(1,2)] show ?case unfolding d(3) .
qed auto

subsection \<open>The contract\<close>

locale slot_stack =
  fixes rel :: "'s \<Rightarrow> nat list \<Rightarrow> bool"
    and held :: "nat \<Rightarrow> 's \<Rightarrow> bool"
    and alloc :: "'s \<Rightarrow> (nat option \<times> 's) res"
    and free :: "nat \<Rightarrow> 's \<Rightarrow> 's res"
  assumes alloc_empty: "rel st [] \<Longrightarrow> alloc st = Ok (None, st)"
    and alloc_top: "rel st (s # fl) \<Longrightarrow> \<exists>st'. alloc st = Ok (Some s, st') \<and> rel st' fl \<and> held s st' \<and> (\<forall>t. held t st \<longrightarrow> held t st')"
    and free_push: "rel st fl \<Longrightarrow> held s st \<Longrightarrow> \<exists>st'. free s st = Ok st' \<and> rel st' (s # fl) \<and> (\<forall>t. held t st \<and> t \<noteq> s \<longrightarrow> held t st')"
begin

lemma run_refines:
  "rel st fl \<Longrightarrow> \<forall>s\<in>out. held s st \<Longrightarrow> stack_run ops fl out = Some (rs, fl', out') \<Longrightarrow>
     \<exists>st'. pool_run alloc free ops st = Ok (rs, st') \<and> rel st' fl' \<and> (\<forall>s\<in>out'. held s st')"
proof (induction ops fl out arbitrary: st rs rule: stack_run.induct)
  case (1 fl out)
  then show ?case by simp
next
  case (2 ops out)
  then obtain rs' where "rs = None # rs'" "stack_run ops [] out = Some (rs', fl', out')" by auto
  then show ?case using "2.IH" [OF "2.prems"(1,2)] alloc_empty [OF "2.prems"(1)] by auto
next
  case (3 ops s fl out)
  then obtain rs' where r: "rs = Some s # rs'" "stack_run ops fl (insert s out) = Some (rs', fl', out')" by auto
  obtain st1 where a: "alloc st = Ok (Some s, st1)" "rel st1 fl" "held s st1" "\<forall>t. held t st \<longrightarrow> held t st1"
    using alloc_top [OF "3.prems"(1)] by blast
  then have "\<forall>t\<in>insert s out. held t st1" using "3.prems"(2) by blast
  from "3.IH" [OF a(2) this r(2)] show ?case using a(1) r(1) by auto
next
  case (4 s ops fl out)
  then have s: "s \<in> out" "stack_run ops (s # fl) (out - {s}) = Some (rs, fl', out')" by (auto split: if_splits)
  then obtain st1 where f: "free s st = Ok st1" "rel st1 (s # fl)" "\<forall>t. held t st \<and> t \<noteq> s \<longrightarrow> held t st1"
    using free_push [OF "4.prems"(1)] "4.prems"(2) by blast
  then have "\<forall>t\<in>out - {s}. held t st1" using "4.prems"(2) by blast
  from "4.IH" [OF s(1) f(2) this s(2)] show ?case using f(1) by simp
qed

end

subsection \<open>The pool of ocproxy\<close>

text \<open>The free slots are linked from the head of the list; nothing free has an event. A slot can be given back when it has an event, no connection and no lookup.\<close>

definition pool_rel :: "ocp \<Rightarrow> nat list \<Rightarrow> bool" where
  "pool_rel st fl \<longleftrightarrow> free_path (sock_pool st) (sock_free_list st) fl \<and> distinct fl \<and> sock_used st = 1024 - int (length fl) \<and>
     (\<forall>s\<in>set fl. \<forall>f. sk_ev (sock_pool st s) \<noteq> Ptr f)"

definition pool_held :: "nat \<Rightarrow> ocp \<Rightarrow> bool" where
  "pool_held s st \<longleftrightarrow> (\<exists>f. sk_ev (sock_pool st s) = Ptr f) \<and> sk_tpcb (sock_pool st s) = Null \<and> sk_state (sock_pool st s) \<noteq> STATE_DNS"

interpretation ocp_slots: slot_stack pool_rel pool_held "ocp_sock_new (e\<lparr>en_event_new := (\<lambda>_. True)\<rparr>) (int fd) cb 0" ocp_sock_del
  for e fd cb
proof
  fix st assume "pool_rel st []"
  then show "ocp_sock_new (e\<lparr>en_event_new := (\<lambda>_. True)\<rparr>) (int fd) cb 0 st = Ok (None, st)"
    by (simp add: pool_rel_def ocp_sock_new_def)
next
  fix st s fl assume r: "pool_rel st (s # fl)"
  let ?st = "upd_sock s (\<lambda>k. k\<lparr>sk_fd := int fd, sk_ev := Ptr cb\<rparr>) (act (A_event_new True) (taken s st))"
  have "ocp_sock_new (e\<lparr>en_event_new := (\<lambda>_. True)\<rparr>) (int fd) cb 0 st = Ok (Some s, ?st)"
    using r by (subst ocp_sock_new_taken) (auto simp: pool_rel_def)
  moreover have "sock_free_list (taken s st) = sk_next (sock_pool st s)" "sock_used (taken s st) = sock_used st + 1"
    by (simp_all add: taken_def)
  then have "pool_rel ?st fl" using r by (auto simp: pool_rel_def)
  moreover have "pool_held s ?st" by (simp add: pool_held_def zero_sock_def)
  moreover have "pool_held t ?st" if "pool_held t st" for t using that r by (auto simp: pool_held_def pool_rel_def)
  ultimately show "\<exists>st'. ocp_sock_new (e\<lparr>en_event_new := (\<lambda>_. True)\<rparr>) (int fd) cb 0 st = Ok (Some s, st') \<and> pool_rel st' fl \<and>
      pool_held s st' \<and> (\<forall>t. pool_held t st \<longrightarrow> pool_held t st')" by blast
next
  fix st fl s assume r: "pool_rel st fl" and h: "pool_held s st"
  then have n: "s \<notin> set fl" by (auto simp: pool_rel_def pool_held_def)
  obtain st' where d: "ocp_sock_del s st = Ok st'" "sock_pool st' = (sock_pool st)(s := poison_sock\<lparr>sk_next := sock_free_list st\<rparr>)"
    "sock_free_list st' = Some s" "sock_used st' = sock_used st - 1"
    using h by (auto simp: ocp_sock_del_def pool_held_def event_free_def Let_def)
  then have "pool_rel st' (s # fl)" using r n poison_not_listener by (auto simp: pool_rel_def poison_sock_def)
  moreover have "pool_held t st'" if "pool_held t st" "t \<noteq> s" for t using that d(2) by (simp add: pool_held_def)
  ultimately show "\<exists>st'. ocp_sock_del s st = Ok st' \<and> pool_rel st' (s # fl) \<and> (\<forall>t. pool_held t st \<and> t \<noteq> s \<longrightarrow> pool_held t st')"
    using d(1) by blast
qed

subsection \<open>Property\<close>

text \<open>
  C5: the slot pool refines a stack of free slots. Any sequence of calls of \<^verbatim>\<open>ocp_sock_new\<close> and
  \<^verbatim>\<open>ocp_sock_del\<close> that gives back only slots that are out runs through, answers what the stack
  answers, and leaves the list linked through the slots as the stack is; so no slot is handed out
  twice, none is lost, and NULL is answered only when none is free.
\<close>

theorem ocp_pool_refines:
  assumes "pool_rel st fl" and "\<forall>s\<in>out. pool_held s st" and "stack_run ops fl out = Some (rs, fl', out')"
  shows "\<exists>st'. pool_run (ocp_sock_new (e\<lparr>en_event_new := (\<lambda>_. True)\<rparr>) (int fd) cb 0) ocp_sock_del ops st = Ok (rs, st') \<and>
    pool_rel st' fl' \<and> (\<forall>s\<in>out'. pool_held s st') \<and> distinct fl' \<and> set fl' \<inter> out' = {} \<and> set fl' \<union> out' = set fl \<union> out"
proof -
  have "distinct fl" "set fl \<inter> out = {}" using assms(1,2) by (auto simp: pool_rel_def pool_held_def)
  from stack_run_fair [OF assms(3) this] ocp_slots.run_refines [OF assms, of e fd cb] show ?thesis by blast
qed

definition demo_slots :: "ocp \<Rightarrow> ocp" where
  "demo_slots st = st\<lparr>sock_pool := (\<lambda>s. zero_sock\<lparr>sk_next := (if s = 3 then Some 5 else None)\<rparr>), sock_free_list := Some 3, sock_used := 1022\<rparr>"

theorem ocp_pool_refines_witness:
  "\<forall>st e. \<exists>st'. pool_run (ocp_sock_new (e\<lparr>en_event_new := (\<lambda>_. True)\<rparr>) (int 7) Local_data_cb 0) ocp_sock_del [New, New, New, Del 3, New] (demo_slots st) =
     Ok ([Some 3, Some 5, None, Some 3], st')"
proof (intro allI)
  fix st e
  have r: "pool_rel (demo_slots st) [3, 5]" by (simp add: pool_rel_def demo_slots_def zero_sock_def is_listener_def)
  have h: "\<forall>s\<in>{}. pool_held s (demo_slots st)" by simp
  have "stack_run [New, New, New, Del 3, New] [3, 5] {} = Some ([Some 3, Some 5, None, Some 3], [], {3, 5})" by auto
  from ocp_pool_refines [OF r h this, of e 7 Local_data_cb]
  show "\<exists>st'. pool_run (ocp_sock_new (e\<lparr>en_event_new := (\<lambda>_. True)\<rparr>) (int 7) Local_data_cb 0) ocp_sock_del [New, New, New, Del 3, New] (demo_slots st) =
     Ok ([Some 3, Some 5, None, Some 3], st')" by (elim exE conjE) (rule exI)
qed

end
