(* ===== verification/Ocp_Socks.thy ===== *)
theory Ocp_Socks
  imports Ocp_Relay
begin

text \<open>
  The SOCKS dialogue seen from the client: a request is understood however it is cut into reads,
  what cannot be served is refused with the right code, and the places where the program goes
  wrong.
\<close>

subsection \<open>Requests in pieces\<close>

text \<open>The event of slot \<open>s\<close> fires once for every chunk of input, which \<^verbatim>\<open>read\<close> returns.\<close>

definition reading :: "env \<Rightarrow> bytes \<Rightarrow> env" where
  "reading e d = e\<lparr>en_read := (\<lambda>_ _ _. Some d)\<rparr>"

fun feed :: "env \<Rightarrow> nat \<Rightarrow> bytes list \<Rightarrow> ocp \<Rightarrow> ocp res" where
  "feed e s [] st = Ok st"
| "feed e s (d # ds) st = res_bind (socks_cmd_cb (reading e d) s (fired s st)) (feed e s ds)"

lemma feed_Nil: "feed e s [] = Ok"
  by (rule ext) simp

lemma reading_simps [simp]:
  "en_write (reading e d) = en_write e" "en_read (reading e d) h fd n = Some d"
  "start_connection (reading e d) = start_connection e" "socks_reply (reading e d) = socks_reply e"
  by (simp_all add: reading_def start_connection_def socks_reply_def fun_eq_iff Let_def)

text \<open>
  The slot waits for the rest of a request, of which the client sent \<open>got\<close>: it is all in the buffer,
  and the event is armed once something has come.
\<close>

definition awaits :: "sk_state \<Rightarrow> nat \<Rightarrow> bytes \<Rightarrow> ocp \<Rightarrow> bool" where
  "awaits state s got st \<longleftrightarrow>
     sk_state (sock_pool st s) = state \<and> sk_sock_pos (sock_pool st s) = length got \<and>
     length (sk_sockbuf (sock_pool st s)) = 2048 \<and> take (length got) (sk_sockbuf (sock_pool st s)) = got \<and>
     sk_ev (sock_pool st s) = Ptr Socks_cmd_cb"

text \<open>The state after a chunk was stored.\<close>

definition stored :: "nat \<Rightarrow> bytes \<Rightarrow> ocp \<Rightarrow> ocp" where
  "stored s d st =
     (let k = sock_pool st s in
      upd_sock s (\<lambda>k. k\<lparr>sk_sockbuf := buf_put (sk_sock_pos k) d (sk_sockbuf k), sk_sock_pos := sk_sock_pos k + length d\<rparr>)
        (act (A_read (sk_fd k) (2048 - sk_sock_pos k) (Some d)) (fired s st)))"

lemma stored_awaits:
  assumes "awaits state s got st" and "length got + length d \<le> 2048"
  shows "awaits state s (got @ d) (stored s d st)"
  using assms take_upto_buf_put [of "length got" "sk_sockbuf (sock_pool st s)" d]
  by (simp add: awaits_def stored_def Let_def)

lemma awaits_nth:
  assumes "awaits state s got st" and "i < length got"
  shows "sk_sockbuf (sock_pool st s) ! i = got ! i"
proof -
  have "take (length got) (sk_sockbuf (sock_pool st s)) ! i = got ! i" using assms by (simp add: awaits_def)
  with assms(2) show ?thesis by simp
qed

lemma socks_cmd_cb_stored:
  assumes "awaits state s got st" and "state = STATE_SOCKS_AUTH \<or> state = STATE_SOCKS_CMD" and "d \<noteq> []"
    and "length got + length d \<le> 2048" and "hd (got @ d) = 5"
  shows "socks_cmd_cb (reading e d) s (fired s st) =
    (if state = STATE_SOCKS_AUTH then socks_auth (reading e d) s (stored s d st)
     else socks_cmd (reading e d) s (stored s d st))"
proof -
  have "awaits state s (got @ d) (stored s d st)" using stored_awaits assms(1,4) .
  from awaits_nth [OF this, of 0] assms(3,5) have "sk_sockbuf (sock_pool (stored s d st) s) ! 0 = 5"
    by (simp add: hd_conv_nth)
  then show ?thesis using assms(1-3)
    by (auto simp: socks_cmd_cb_def stored_def Let_def awaits_def)
qed

fun is_read :: "action \<Rightarrow> bool" where
  "is_read (A_read fd n r) = True"
| "is_read _ = False"

lemma stored_simps [simp]:
  "trace (stored s d st) = trace st @ [A_read (sk_fd (sock_pool st s)) (2048 - sk_sock_pos (sock_pool st s)) (Some d)]"
  by (simp add: stored_def Let_def)

text \<open>A request to connect to an IPv4 address and port.\<close>

definition connect_req :: "u8 \<Rightarrow> u8 \<Rightarrow> u8 \<Rightarrow> u8 \<Rightarrow> u8 \<Rightarrow> u8 \<Rightarrow> u8 \<Rightarrow> bytes" where
  "connect_req rsv a b c d hi lo = [5, 1, rsv, 1, a, b, c, d, hi, lo]"

lemma socks_cmd_partial:
  assumes "awaits STATE_SOCKS_CMD s got st" and "got @ rest = connect_req rsv a b c d hi lo" and "rest \<noteq> []"
  shows "socks_cmd e s st = Ok (st\<lparr>pending := (pending st)(s := True)\<rparr>)"
proof -
  have len: "length got < 10" using arg_cong [OF assms(2), of length] assms(3) by (cases rest) (auto simp: connect_req_def)
  have nth: "got ! i = connect_req rsv a b c d hi lo ! i" if "i < length got" for i
    using that assms(2) by (metis nth_append)
  show ?thesis
  proof (cases "length got \<le> 3")
    case True
    then show ?thesis using assms(1) by (simp add: socks_cmd_def Let_def awaits_def event_add_def)
  next
    case False
    then have "sk_sockbuf (sock_pool st s) ! 1 = 1" "sk_sockbuf (sock_pool st s) ! 3 = 1"
      using awaits_nth [OF assms(1)] nth by (auto simp: connect_req_def)
    then show ?thesis using assms(1) False len by (simp add: socks_cmd_def Let_def awaits_def event_add_def)
  qed
qed

lemma socks_cmd_full:
  assumes "awaits STATE_SOCKS_CMD s (connect_req rsv a b c d hi lo) st"
  shows "socks_cmd e s st = start_connection e s (u32_of a b c d)
    (upd_sock s (\<lambda>k. k\<lparr>sk_rport := int (unat hi * 256 + unat lo)\<rparr>) st)"
proof -
  have nth: "sk_sockbuf (sock_pool st s) ! i = connect_req rsv a b c d hi lo ! i" if "i < 10" for i
    using awaits_nth [OF assms] that by (simp add: connect_req_def)
  have "unat (lwip_ntohs (u16_of hi lo)) = unat hi * 256 + unat lo"
    by (simp add: lwip_ntohs_def unat_u16_of)
  moreover have "sk_sockbuf (sock_pool st s) ! 1 = 1" "sk_sockbuf (sock_pool st s) ! 3 = 1" "sk_sockbuf (sock_pool st s) ! 4 = a"
    "sk_sockbuf (sock_pool st s) ! 5 = b" "sk_sockbuf (sock_pool st s) ! 6 = c" "sk_sockbuf (sock_pool st s) ! 7 = d"
    "sk_sockbuf (sock_pool st s) ! 8 = hi" "sk_sockbuf (sock_pool st s) ! 9 = lo"
    using nth [of 1] nth [of 3] nth [of 4] nth [of 5] nth [of 6] nth [of 7] nth [of 8] nth [of 9]
    by (simp_all add: connect_req_def)
  moreover have "sk_sock_pos (sock_pool st s) = 10" using assms by (simp add: awaits_def connect_req_def)
  ultimately show ?thesis by (simp add: socks_cmd_def Let_def)
qed

lemma awaits_pending [simp]: "awaits state s got (st\<lparr>pending := x\<rparr>) = awaits state s got st"
  by (simp add: awaits_def)

lemma feed_connect:
  assumes "awaits STATE_SOCKS_CMD s got st" and "got @ concat ds = connect_req rsv a b c d hi lo"
    and "list_all (\<lambda>x. x \<noteq> []) ds" and "ds \<noteq> []"
  shows "\<exists>st1 h. feed e s ds st = start_connection e s (u32_of a b c d) st1 \<and>
    sk_rport (sock_pool st1 s) = int (unat hi * 256 + unat lo) \<and> trace st1 = trace st @ h \<and> list_all is_read h"
  using assms
proof (induction ds arbitrary: got st)
  case (Cons x ds)
  let ?req = "connect_req rsv a b c d hi lo"
  have x: "x \<noteq> []" "(got @ x) @ concat ds = ?req" using Cons.prems(2,3) by auto
  have len: "length got + length x \<le> 10" using arg_cong [OF x(2), of length] by (simp add: connect_req_def)
  have "hd (got @ x) = hd ?req" using x by (metis append_is_Nil_conv hd_append2)
  then have cb: "socks_cmd_cb (reading e x) s (fired s st) = socks_cmd (reading e x) s (stored s x st)"
    using socks_cmd_cb_stored [OF Cons.prems(1) _ x(1)] len by (simp add: connect_req_def)
  have aw: "awaits STATE_SOCKS_CMD s (got @ x) (stored s x st)" using stored_awaits [OF Cons.prems(1)] len by simp
  show ?case
  proof (cases ds)
    case Nil
    with x(2) aw have "awaits STATE_SOCKS_CMD s ?req (stored s x st)" by simp
    from socks_cmd_full [OF this] show ?thesis using Nil cb
      by (intro exI [of _ "upd_sock s (\<lambda>k. k\<lparr>sk_rport := int (unat hi * 256 + unat lo)\<rparr>) (stored s x st)"]) (simp add: feed_Nil)
  next
    case (Cons y ys)
    let ?st = "(stored s x st)\<lparr>pending := (pending (stored s x st))(s := True)\<rparr>"
    have "concat ds \<noteq> []" using Cons Cons.prems(3) by auto
    from socks_cmd_partial [OF aw x(2) this] have "socks_cmd (reading e x) s (stored s x st) = Ok ?st" .
    moreover obtain st1 h where "feed e s ds ?st = start_connection e s (u32_of a b c d) st1"
      "sk_rport (sock_pool st1 s) = int (unat hi * 256 + unat lo)" "trace st1 = trace ?st @ h" "list_all is_read h"
      using Cons.IH [of "got @ x" ?st] aw x(2) Cons.prems(3) Cons by auto
    ultimately show ?thesis using cb by auto
  qed
qed simp

lemma zeros6: "replicate 6 (0::u8) = [0, 0, 0, 0, 0, 0]"
  by (simp add: numeral_eq_Suc)

lemma demo_ocp_pcb: "pcbs (demo_ocp\<lparr>sock_pool := x\<rparr>) 5 = Some (tcp_pcb0\<lparr>pc_arg := Some 1, pc_snd_buf := 100\<rparr>)"
  by (simp add: demo_ocp_def)

subsection \<open>Main properties\<close>

text \<open>A slot whose client has passed the authentication step.\<close>

definition demo_socks :: "cstr option \<Rightarrow> bytes \<Rightarrow> ocp" where
  "demo_socks domain got = demo_ocp\<lparr>dns_domain := domain, sock_pool := (sock_pool demo_ocp)
     (2 := zero_sock\<lparr>sk_fd := 9, sk_ev := Ptr Socks_cmd_cb, sk_state := STATE_SOCKS_CMD, sk_conn_type := 1,
        sk_sock_pos := length got, sk_sockbuf := got @ replicate (2048 - length got) 0\<rparr>)\<rparr>"

lemma demo_socks_facts:
  "length got \<le> 2048 \<Longrightarrow> awaits STATE_SOCKS_CMD 2 got (demo_socks domain got)"
  "trace (demo_socks domain got) = []" "next_pcb (demo_socks domain got) = 6" "keep_intvl (demo_socks domain got) = 0"
  "sk_fd (sock_pool (demo_socks domain got) 2) = 9" "sk_tpcb (sock_pool (demo_socks domain got) 2) = Null"
  "sk_conn_type (sock_pool (demo_socks domain got) 2) = 1" "dns_domain (demo_socks domain got) = domain"
  "sk_sockbuf (sock_pool (demo_socks domain got) 2) = got @ replicate (2048 - length got) 0"
  by (simp_all add: awaits_def demo_socks_def demo_slots demo_ocp_def)



text \<open>
  C21: a request for another command than CONNECT is refused with code 7, and one for an address
  type other than IPv4 and domain name with code 8: the ten bytes of the reply are written, the
  connection is closed and its slot is free again.
\<close>

theorem socks_refuses:
  assumes "awaits STATE_SOCKS_CMD s got st" and "4 \<le> length got" and "sk_tpcb (sock_pool st s) = Null"
    and "got ! 1 \<noteq> 1 \<and> code = 7 \<or> got ! 1 = 1 \<and> got ! 3 \<notin> {1, 3} \<and> code = 8"
  shows "\<exists>n st'. socks_cmd e s st = Ok st' \<and> sock_free_list st' = Some s \<and>
    trace st' = trace st @ [A_write (sk_fd (sock_pool st s)) [5, code, 0, 1, 0, 0, 0, 0, 0, 0] n, A_close (sk_fd (sock_pool st s))]"
proof -
  have "socks_cmd e s st = socks_reply e s code st"
    using assms awaits_nth [OF assms(1), of 1] awaits_nth [OF assms(1), of 3] by (auto simp: socks_cmd_def Let_def awaits_def)
  moreover have "code \<noteq> 0" using assms(4) by auto
  ultimately show ?thesis using assms(1,3)
    by (auto simp: socks_reply_def socks_reply_bytes_def ocp_sock_del_def event_free_def Let_def awaits_def zeros6)
qed

theorem socks_refuses_witness:
  "\<exists>n st'. socks_cmd demo_e 2 (demo_socks None [5, 2, 0, 1]) = Ok st' \<and> sock_free_list st' = Some 2 \<and>
    trace st' = [A_write 9 [5, 7, 0, 1, 0, 0, 0, 0, 0, 0] n, A_close 9]"
  using socks_refuses [OF demo_socks_facts(1), of "[5, 2, 0, 1]" None 7 demo_e] demo_socks_facts by simp

text \<open>
  C40: the address in a positive SOCKS reply is reversed. lwIP keeps \<^verbatim>\<open>local_ip\<close> in network byte order
  already, so after \<^verbatim>\<open>htonl\<close> the bound address \<open>a.b.c.d\<close> is announced as \<open>d.c.b.a\<close>. The port, which
  lwIP keeps in host byte order, is right.
\<close>

theorem socks_reply_address_reversed:
  "socks_reply_bytes 0 (Some (blk\<lparr>pc_local_ip := u32_of a b c d, pc_local_port := u16_of lo hi\<rparr>)) =
     [5, 0, 0, 1, d, c, b, a, hi, lo]"
  by (simp add: socks_reply_bytes_def le32_def le16_def)

text \<open>
  C36: a domain name request is acted upon before its last two bytes have come. Once the name is in
  the buffer, resolution starts and the port is taken from the two bytes behind the name, although
  the client has not sent them yet: here only \<open>5 + n\<close> bytes have been received, and the bytes the
  port is read from are what the buffer held before.
\<close>

theorem socks_domain_port_early:
  assumes "awaits STATE_SOCKS_CMD s ([5, 1, rsv, 3, n] @ name) st" and "length name = unat n"
  shows "\<exists>st1. socks_cmd e s st = start_resolution e s (Host_sockbuf 5) st1 \<and>
    sk_rport (sock_pool st1 s) =
      int (unat (sk_sockbuf (sock_pool st s) ! (5 + unat n)) * 256 + unat (sk_sockbuf (sock_pool st s) ! (6 + unat n))) \<and>
    sk_sock_pos (sock_pool st1 s) = 5 + unat n"
proof -
  have nth: "sk_sockbuf (sock_pool st s) ! i = ([5, 1, rsv, 3, n] @ name) ! i" if "i < 5 + unat n" for i
    using awaits_nth [OF assms(1)] that assms(2) by simp
  have b: "sk_sockbuf (sock_pool st s) ! 1 = 1" "sk_sockbuf (sock_pool st s) ! 3 = 3" "sk_sockbuf (sock_pool st s) ! 4 = n"
    using nth [of 1] nth [of 3] nth [of 4] by simp_all
  have pos: "sk_sock_pos (sock_pool st s) = 5 + unat n" using assms by (simp add: awaits_def)
  have "5 + unat n + 1 = 6 + unat n" by simp
  then show ?thesis using b
    by (intro exI [of _ "upd_sock s (\<lambda>k. k\<lparr>
        sk_rport := int (unat (sk_sockbuf (sock_pool st s) ! (5 + unat n)) * 256 + unat (sk_sockbuf (sock_pool st s) ! (6 + unat n))),
        sk_sockbuf := (sk_sockbuf (sock_pool st s))[5 + unat n := 0]\<rparr>) st"])
      (simp add: socks_cmd_def Let_def pos)
qed

theorem socks_domain_port_early_witness:
  "\<exists>st1. socks_cmd demo_e 2 (demo_socks None [5, 1, 0, 3, 2, 97, 98]) = start_resolution demo_e 2 (Host_sockbuf 5) st1 \<and>
    sk_rport (sock_pool st1 2) = 0"
  using socks_domain_port_early [of 2 0 2 "[97, 98]" "demo_socks None [5, 1, 0, 3, 2, 97, 98]" demo_e] demo_socks_facts
  by (auto simp: nth_append)



text \<open>
  C37: \<^verbatim>\<open>connect_cb\<close> uses a slot it has just given back. When the connection of a SOCKS client is
  established and the ten bytes of the reply cannot be written at once, \<^verbatim>\<open>socks_reply\<close> deletes the
  slot, and \<^verbatim>\<open>connect_cb\<close> goes on to arm the event of the deleted slot through a wild pointer.
\<close>

theorem connect_cb_short_reply:
  assumes "sk_conn_type (sock_pool st s) = CONN_TYPE_SOCKS" and "sk_state (sock_pool st s) = STATE_CONNECTING"
    and "sk_tpcb (sock_pool st s) = Ptr p" and "pcbs st p = Some b" and "sk_ev (sock_pool st s) = Ptr f"
    and "en_write e (trace st) (sk_fd (sock_pool st s)) (socks_reply_bytes 0 (Some b)) \<noteq> 10"
  shows "connect_cb e (Some s) p st = Stop Fault"
  using assms
  by (simp add: connect_cb_def socks_reply_def ocp_sock_del_def tcp_arg_def upd_pcb_def tcp_close_def event_free_def
      event_add_def poison_sock_def Let_def)

theorem connect_cb_short_reply_witness:
  "connect_cb demo_e (Some 2) 5 (demo_ocp\<lparr>sock_pool := (sock_pool demo_ocp)(2 := zero_sock\<lparr>sk_fd := 9, sk_ev := Ptr Socks_cmd_cb,
     sk_state := STATE_CONNECTING, sk_conn_type := 1, sk_tpcb := Ptr 5\<rparr>)\<rparr>) = Stop Fault"
  by (rule connect_cb_short_reply [OF _ _ _ demo_ocp_pcb]) (simp_all add: demo_e_def demo_slots)



end
