(* ===== verification/Spec2Isabelle.thy ===== *)
theory Spec2Isabelle
  imports Dns_Answers Mem_Heap Udp_Datagrams Ocp_Options Ocp_Pool Ocp_Socks
begin

text \<open>
  \<^bold>\<open>ocproxy: a user-level SOCKS and port forwarding proxy on the lwIP stack.\<close>

  \<^bold>\<open>The program.\<close> \<^verbatim>\<open>src/ocproxy.c\<close> is started by a VPN client, which hands it a socket that carries IP
  packets. It runs the lwIP stack in its own process, accepts local connections (SOCKS 5 on the ports
  of \<^verbatim>\<open>-D\<close>, forwards of \<^verbatim>\<open>-L\<close>), opens a TCP connection through lwIP for each of them and relays bytes
  both ways. One thread runs a libevent loop; every handler of the loop, every callback of TCP and
  every callback of the resolver works on one of 1024 connection slots. lwIP is used through its raw
  interface, in the configuration of \<^verbatim>\<open>src/lwipopts.h\<close>: IPv4 only, without ARP, DHCP, AUTOIP, IGMP, raw
  sockets and SNMP, with DNS, fragmentation, reassembly and its own heap. Assertions of lwIP abort the
  program.

  \<^bold>\<open>Conventions.\<close> A C function is one definition with the name it has in the source; loops and long
  branches have definitions of their own. \<open>'a res\<close> is a result or a stop: \<open>Die\<close> (the program ends with
  a message), \<open>Assert\<close> (an assertion fails) or \<open>Fault\<close> (an access outside an object, a null or wild
  pointer). \<open>'a run\<close> adds the loop that does not end, as \<open>None\<close>; such loops are partial functions, and
  the theorems show that they end. Integers have their C width, as words or as numbers with the
  remainder written out. What the program gets from outside (system calls, libevent, TCP behind its
  interface, whether an allocation succeeds, what fresh memory holds, what an interface answers) is a
  function argument, the records \<open>env\<close>, \<open>main_env\<close>, \<open>alloc_env\<close>, \<open>dns_env\<close> and \<open>ip_env\<close>; calls that leave the
  model are recorded in a trace. No bound or fuel is used anywhere.

  \<^bold>\<open>Shared.\<close>
  \<^item> \<^verbatim>\<open>Ocp_Prelude\<close>: words, bytes, C strings, results, linked lists, error codes.
  \<^item> \<^verbatim>\<open>Lwip_Addr\<close> (\<^verbatim>\<open>def.c\<close>, \<^verbatim>\<open>ip4_addr.c\<close>): byte order, broadcast addresses, netmasks, parsing and printing
    of addresses, with their round trip.
  \<^item> \<^verbatim>\<open>Pbuf\<close>, \<^verbatim>\<open>Pbuf_Props\<close> (\<^verbatim>\<open>pbuf.c\<close>): packet buffers as lists of segments. The chains that the operations
    build are well formed and no operation fails on them; what is stored is what is read back.
  \<^item> \<^verbatim>\<open>Mem\<close>, \<^verbatim>\<open>Mem_Props\<close>, \<^verbatim>\<open>Mem_Heap\<close> (\<^verbatim>\<open>mem.c\<close>): the heap on its bytes. \<^verbatim>\<open>Mem_Props\<close> relates it to a list of
    blocks; \<^verbatim>\<open>Mem_Heap\<close> has the interface of an allocator as a locale, the programs that use one, and the
    interpretation on \<^verbatim>\<open>mem_malloc\<close>, \<^verbatim>\<open>mem_free\<close> and \<^verbatim>\<open>mem_trim\<close>: objects never overlap, keep their contents,
    and a heap that got everything back is as good as new.

  \<^bold>\<open>The network layers.\<close>
  \<^item> \<^verbatim>\<open>Chksum\<close> (\<^verbatim>\<open>inet_chksum.c\<close>): all versions of the sum, on chains cut anywhere and at any address, agree
    with RFC 1071.
  \<^item> \<^verbatim>\<open>Netif\<close> (\<^verbatim>\<open>netif.c\<close>, \<^verbatim>\<open>ip_route\<close>): the list of interfaces and the choice of one, equal to its
    specification.
  \<^item> \<^verbatim>\<open>Ip_Base\<close>, \<^verbatim>\<open>Ip_Output\<close>, \<^verbatim>\<open>Ip_Frag\<close>, \<^verbatim>\<open>Ip_Reass\<close>, \<^verbatim>\<open>Ip_Reass_Props\<close>, \<^verbatim>\<open>Ip_Datagrams\<close> (\<^verbatim>\<open>ip4.c\<close>, \<^verbatim>\<open>ip_frag.c\<close>): headers
    field by field, sending, cutting and reassembly. Fragments that are sent come together again in any
    order of the first ones; three ways in which the code fails (an MTU without room for data, a hole that
    is overlooked, an assertion that fragments can trigger) are proved as such.
  \<^item> \<^verbatim>\<open>Icmp\<close> (\<^verbatim>\<open>icmp.c\<close>): echo replies and error messages, used by reassembly, UDP and input.
  \<^item> \<^verbatim>\<open>Udp\<close>, \<^verbatim>\<open>Ip_Input\<close>, \<^verbatim>\<open>Udp_Props\<close>, \<^verbatim>\<open>Udp_Datagrams\<close> (\<^verbatim>\<open>udp.c\<close>, \<^verbatim>\<open>ip_input\<close>): control blocks, ports, sending and
    receiving. The control blocks keep an invariant over all calls, a free port is found when there is one,
    and a datagram gets from the sender through both stacks to the receiver. A packet that states less than
    its header as its length aborts the program.
  \<^item> \<^verbatim>\<open>Dns\<close>, \<^verbatim>\<open>Dns_Names\<close>, \<^verbatim>\<open>Dns_Props\<close>, \<^verbatim>\<open>Dns_Answers\<close> (\<^verbatim>\<open>dns.c\<close>): the resolver with its table. Names are encoded and
    compared, answers reach the callback and the cache, silent servers are given up; the locale \<^verbatim>\<open>dns_client\<close>
    is the contract between the resolver and the callbacks registered with it. A forged answer makes it
    read behind its buffer.

  \<^bold>\<open>The proxy.\<close>
  \<^item> \<^verbatim>\<open>Ocp_Sock\<close>: the state of \<^verbatim>\<open>ocproxy.c\<close> as the record \<^verbatim>\<open>ocp\<close>, the slots and their allocation. \<^verbatim>\<open>Ocp_Pool\<close>: the
    pool refines a stack of free slots (locale \<^verbatim>\<open>slot_stack\<close>, interpreted on \<^verbatim>\<open>ocp_sock_new\<close> and
    \<^verbatim>\<open>ocp_sock_del\<close>).
  \<^item> \<^verbatim>\<open>Ocp_Proxy\<close>: the handlers: relay, SOCKS dialogue, connection setup, VPN traffic, timers, signals.
  \<^item> \<^verbatim>\<open>Ocp_Inv\<close>, \<^verbatim>\<open>Ocp_Resolve\<close>, \<^verbatim>\<open>Ocp_Handlers\<close>: the invariant of slots, events, TCP blocks and lookups, kept by
    every handler; \<^verbatim>\<open>Ocp_Resolve\<close> interprets the contract of the resolver on the callbacks of the proxy.
  \<^item> \<^verbatim>\<open>Ocp_Loop\<close>: the event loop as a step relation, in which libevent may report any enabled event, and
    reachability. \<^verbatim>\<open>Ocp_Stall\<close>: no connection is forgotten.
  \<^item> \<^verbatim>\<open>Ocp_Main\<close>, \<^verbatim>\<open>Ocp_Options\<close>: the command line, the environment and \<^verbatim>\<open>main\<close> up to the loop.
  \<^item> \<^verbatim>\<open>Ocp_Relay\<close>, \<^verbatim>\<open>Ocp_Socks\<close>: what the handlers do with the data: bytes are relayed once and in order under
    flow control, packets pass unchanged, requests are understood however they are cut into reads, and the
    defects of the dialogue.
  \<^item> This theory: properties of the whole program, from \<^verbatim>\<open>main\<close> over every run of the loop.

  \<^bold>\<open>How the parts meet.\<close> The proxy uses the resolver as it is modelled; it uses packet buffers for what TCP
  delivers and what it hands to the interface. UDP, ICMP and IP use packet buffers, checksums and
  interfaces as they are modelled. The heap stands alone: its users see an allocation that may fail.

  \<^bold>\<open>Not modelled.\<close> TCP (\<^verbatim>\<open>tcp.c\<close>, \<^verbatim>\<open>tcp_in.c\<close>, \<^verbatim>\<open>tcp_out.c\<close>): the model ends at its raw interface, whose answers and
  callbacks are arbitrary; its control blocks, segments and timers span three files and call back into the
  program in the middle of their loops, so a faithful model would be a development of its own. Its timer,
  and what \<^verbatim>\<open>ip_input\<close> hands to \<^verbatim>\<open>tcp_input\<close>, are therefore outside. The resolver's own UDP block is seen
  through what it sends. \<^verbatim>\<open>timers.c\<close>, \<^verbatim>\<open>init.c\<close>, \<^verbatim>\<open>stats.c\<close> and \<^verbatim>\<open>sys.c\<close> start things, count or print; the
  sequential interface, IPv6, PPP, SNMP, DHCP, AUTOIP, IGMP, raw sockets and the other drivers are not
  compiled into the program or not called by it. \<^verbatim>\<open>vpnns.c\<close> is a separate program made of calls to the
  kernel. The mutex of the heap is left out, because there is one thread.
\<close>

section \<open>The whole program\<close>

subsection \<open>An example run\<close>

text \<open>The program started with \<^verbatim>\<open>-D 1080\<close>, and its first client.\<close>

lemma demo_pool:
  "sock_free_list (init_pool (ocp0 demo_mv)) = Some 0" "trace (init_pool (ocp0 demo_mv)) = []"
  "sock_bind_list (init_pool (ocp0 demo_mv)) = None" "sock_pool (init_pool (ocp0 demo_mv)) 0 = zero_sock\<lparr>sk_next := Some 1\<rparr>"
  "sock_pool (init_pool (ocp0 demo_mv)) (Suc 0) = zero_sock\<lparr>sk_next := Some 2\<rparr>"
  "sock_pool (init_pool (ocp0 demo_mv)) 2 = zero_sock\<lparr>sk_next := Some 3\<rparr>"
  "\<not> allow_remote (init_pool (ocp0 demo_mv))" "sock_used (init_pool (ocp0 demo_mv)) = 0"
  "sock_max (init_pool (ocp0 demo_mv)) = 0" "\<not> dns_pcb (init_pool (ocp0 demo_mv))"
proof -
  have "sock_pool (init_pool (ocp0 mv)) s = zero_sock\<lparr>sk_next := Some (Suc s)\<rparr>" if "s < 1023" for s mv
    using init_pool_fold [of 1023 "(ocp0 mv)\<lparr>sock_free_list := Some 0\<rparr>" s] that by (simp add: init_pool_def ocp0_def)
  then show "sock_pool (init_pool (ocp0 demo_mv)) 0 = zero_sock\<lparr>sk_next := Some 1\<rparr>"
    "sock_pool (init_pool (ocp0 demo_mv)) (Suc 0) = zero_sock\<lparr>sk_next := Some 2\<rparr>"
    "sock_pool (init_pool (ocp0 demo_mv)) 2 = zero_sock\<lparr>sk_next := Some 3\<rparr>" by simp_all
qed (simp_all add: init_pool_def fold_upd_sock_frame ocp0_def)

lemma demo_mv_simps:
  "mv_getenv demo_mv ''VPNFD'' = Some (lit ''3'')" "mv_getenv demo_mv ''INTERNAL_IP4_ADDRESS'' = Some (lit ''10.0.0.2'')"
  "mv_getenv demo_mv ''INTERNAL_IP4_MTU'' = Some (lit ''1500'')" "mv_getenv demo_mv ''INTERNAL_IP4_DNS'' = None"
  "mv_getenv demo_mv ''CISCO_DEF_DOMAIN'' = None" "mv_event_base demo_mv" "mv_udp_new demo_mv" "mv_listen demo_mv h a p"
  by (simp_all add: demo_mv_def)

lemma demo_texts:
  "ocp_atoi (lit ''3'') = Ok 3" "ocp_atoi (lit ''1500'') = Ok 1500" "ocp_atoi (lit ''1080'') = Ok 1080"
  "ipaddr_aton (lit ''10.0.0.2'') = Some (u32_of 10 0 0 2)" "strrchr 58 (lit ''1080'') = None"
  by code_simp+

lemma demo_start:
  "\<exists>st nf. main_init demo_e demo_mv [Opt_D (lit ''1080'')] = Some (Ok (st, nf)) \<and> running st \<and> sock_free_list st = Some 2 \<and>
     is_listener (sock_pool st 0) \<and> sk_ev (sock_pool st 0) = Null \<and> sk_conn_type (sock_pool st 0) = CONN_TYPE_SOCKS"
proof -
  have "sk_lport zero_sock = 0" "sk_listen_cb zero_sock = Null" "sk_bind_addr zero_sock = Null" "\<And>h. en_event_new demo_e h"
    by (simp_all add: zero_sock_def demo_e_def)
  then show ?thesis
    by (simp add: main_init_def main_setup_def demo_pool demo_mv_simps demo_texts main_vpn_def dyn_fwd_def new_listener_def
        ocp_sock_new_taken taken_def upd_sock_def act_def Let_def event_add_def main_dns_def dns_init_def dns_setserver_def
        bind_all_listeners_def listen_addr_def new_periodic_event_def running_def is_listener_def default_server u32_of_eq_0)
qed

lemma demo_client:
  "\<exists>st0 nf st. main_init demo_e demo_mv [Opt_D (lit ''1080'')] = Some (Ok (st0, nf)) \<and> reach demo_e st0 st \<and>
     sk_state (sock_pool st 2) = STATE_SOCKS_AUTH"
proof -
  obtain st0 nf where i: "main_init demo_e demo_mv [Opt_D (lit ''1080'')] = Some (Ok (st0, nf))"
    and st0: "running st0" "sock_free_list st0 = Some 2" "is_listener (sock_pool st0 0)" "sk_ev (sock_pool st0 0) = Null"
      "sk_conn_type (sock_pool st0 0) = CONN_TYPE_SOCKS" using demo_start by blast
  have "en_event_new demo_e h" for h by (simp add: demo_e_def)
  then obtain st where st: "dispatch demo_e (Accepted 0 9) st0 = Ok st" "sk_state (sock_pool st 2) = STATE_SOCKS_AUTH"
    using st0 by (auto simp: new_conn_cb_def ocp_sock_new_taken Let_def event_add_def taken_def upd_sock_def act_def)
  have "reach demo_e st0 st"
    by (rule reach_step [OF reach_init loop_stepI [OF st0(1) _ st(1)]]) (use st0 in simp)
  with i st(2) show ?thesis by blast
qed

subsection \<open>Start-up\<close>



subsection \<open>The event loop\<close>

lemma loop_good:
  assumes "env_ok e" and "mv_udp_new mv" and "main_init e mv opts = Some (Ok (st0, nf))" and "reach e st0 st"
  shows "good st" and "no_stall st"
proof -
  have "good st0" "no_stall st0" using main_init_good [OF assms(1,2), of opts] assms(3) by auto
  then show "good st" "no_stall st" using reach_good [OF assms(4,1)] reach_no_stall [OF assms(4,1)] by blast+
qed

text \<open>
  C1: after any sequence of events, the free list is a proper list of distinct slots and
  \<^verbatim>\<open>ocp_sock_used\<close> counts the others; and no slot on the free list is referred to by an armed event, by a
  TCP block, or by a lookup the resolver still has to answer, each of which refers back to a slot in
  the matching state.
\<close>

theorem pool_invariant:
  assumes "env_ok e" and "mv_udp_new mv" and "main_init e mv opts = Some (Ok (st0, nf))" and "reach e st0 st"
  shows "\<exists>fl. free_path (sock_pool st) (sock_free_list st) fl \<and> distinct fl \<and> set fl \<subseteq> {..<MAX_CONN} \<and>
    sock_used st = int MAX_CONN - int (length fl) \<and>
    (\<forall>s. pending st s \<longrightarrow> s < MAX_CONN \<and> s \<notin> set fl \<and> ev_ready (sock_pool st s)) \<and>
    (\<forall>p b s. pcbs st p = Some b \<and> pc_arg b = Some s \<longrightarrow>
       s < MAX_CONN \<and> s \<notin> set fl \<and> sk_tpcb (sock_pool st s) = Ptr p) \<and>
    (\<forall>i f s. waiter st i = Some (f, Some s) \<longrightarrow>
       s < MAX_CONN \<and> s \<notin> set fl \<and> sk_state (sock_pool st s) = STATE_DNS)"
proof -
  obtain fl where fl: "ocp_ok {} fl (waiter st) st" using loop_good(1) [OF assms] by (auto simp: good_iff)
  have "s < MAX_CONN \<and> s \<notin> set fl \<and> sk_state (sock_pool st s) = STATE_DNS" if "waiter st i = Some (f, Some s)" for i f s
    using ocp_okD(10) [OF fl that] by auto
  then show ?thesis
    by (intro exI [of _ fl]) (use ocp_okD(1-3,5) [OF fl] ocp_okD(7,9) [OF fl] in auto)
qed

theorem pool_invariant_witness:
  "\<exists>st0 nf st. main_init demo_e demo_mv [Opt_D (lit ''1080'')] = Some (Ok (st0, nf)) \<and> reach demo_e st0 st \<and>
     sk_state (sock_pool st 2) = STATE_SOCKS_AUTH \<and>
     (\<exists>fl. free_path (sock_pool st) (sock_free_list st) fl \<and> sock_used st = 1024 - int (length fl))"
proof -
  obtain st0 nf st where d: "main_init demo_e demo_mv [Opt_D (lit ''1080'')] = Some (Ok (st0, nf))" "reach demo_e st0 st"
    "sk_state (sock_pool st 2) = STATE_SOCKS_AUTH" using demo_client by blast
  from pool_invariant [OF demo_e_ok(1) demo_mv_simps(7) d(1,2)] d show ?thesis by fastforce
qed



text \<open>
  C3: no connection is forgotten. In every state the program can get into, a slot in the SOCKS dialogue and
  the slot of the VPN have their read event armed; a slot that relays has it armed or waits for lwIP to report
  that data was sent.
\<close>

theorem no_connection_forgotten:
  assumes "env_ok e" and "mv_udp_new mv" and "main_init e mv opts = Some (Ok (st0, nf))" and "reach e st0 st"
  shows "(sk_state (sock_pool st s) \<in> {STATE_SOCKS_AUTH, STATE_SOCKS_CMD} \<longrightarrow> pending st s) \<and>
    (sk_state (sock_pool st s) = STATE_DATA \<longrightarrow> pending st s \<or> sk_lwip_blocked (sock_pool st s)) \<and>
    (sk_ev (sock_pool st s) = Ptr Lwip_data_cb \<longrightarrow> pending st s)"
  using loop_good(2) [OF assms] by (auto simp: no_stall_def awake_def)

theorem no_connection_forgotten_witness:
  "\<exists>st0 nf st. main_init demo_e demo_mv [Opt_D (lit ''1080'')] = Some (Ok (st0, nf)) \<and> reach demo_e st0 st \<and>
     sk_state (sock_pool st 2) = STATE_SOCKS_AUTH \<and> pending st 2"
  using demo_client no_connection_forgotten [OF demo_e_ok(1) demo_mv_simps(7)] by blast

end
